(* ===== verification/PHP_Prelude.thy ===== *)
theory PHP_Prelude
  imports Main "HOL-Library.Word" "HOL-Library.Sublist"
begin

text \<open>
  Shared vocabulary of the development.

  \<^item> \<open>outcome\<close> and \<open>cprog\<close>: a C function of the interpreter is a state transformer that
    returns a value (\<open>Ret\<close>), leaves through \<open>zend_bailout\<close> (\<open>Bailout\<close>, what a fatal
    \<open>E_ERROR\<close> does, main/main.c) or performs an access outside an allocation (\<open>Undef\<close>).
  \<^item> the C string functions the sources call, on the characters before the terminating NUL;
  \<^item> decimal printing and reading (\<open>%ld\<close>, \<open>%d\<close>, \<open>atol\<close>, \<open>atoi\<close>) at their machine widths;
  \<^item> the rewrite collections \<open>cprog_simps\<close> and \<open>cstr_simps\<close>.
\<close>

named_theorems cprog_simps \<open>unfolding of state-transformer programs\<close>
named_theorems cstr_simps \<open>facts on C string functions\<close>

section \<open>Outcomes and state-transformer programs\<close>

datatype 'a outcome = Ret 'a | Bailout | Undef

datatype severity = E_ERROR | E_WARNING | E_NOTICE

type_synonym ('s, 'a) cprog = "'s \<Rightarrow> 'a outcome \<times> 's"

definition cret :: "'a \<Rightarrow> ('s, 'a) cprog" where
  "cret x = (\<lambda>s. (Ret x, s))"

definition cundef :: "('s, 'a) cprog" where
  "cundef = (\<lambda>s. (Undef, s))"

definition cbind :: "('s, 'a) cprog \<Rightarrow> ('a \<Rightarrow> ('s, 'b) cprog) \<Rightarrow> ('s, 'b) cprog" where
  "cbind m f = (\<lambda>s. case m s of
      (Ret x, s') \<Rightarrow> f x s'
    | (Bailout, s') \<Rightarrow> (Bailout, s')
    | (Undef, s') \<Rightarrow> (Undef, s'))"

definition cseq :: "('s, 'a) cprog \<Rightarrow> ('s, 'b) cprog \<Rightarrow> ('s, 'b) cprog" where
  "cseq m k = cbind m (\<lambda>_. k)"

definition cget :: "('s \<Rightarrow> 'a) \<Rightarrow> ('s, 'a) cprog" where
  "cget f = (\<lambda>s. (Ret (f s), s))"

definition cmodify :: "('s \<Rightarrow> 's) \<Rightarrow> ('s, unit) cprog" where
  "cmodify f = (\<lambda>s. (Ret (), f s))"

definition clift :: "'a outcome \<Rightarrow> ('s, 'a) cprog" where
  "clift r = (\<lambda>s. (r, s))"

section \<open>Machine integers\<close>

definition to_int32 :: "int \<Rightarrow> int" where
  "to_int32 n = signed_take_bit 31 n"

definition to_int64 :: "int \<Rightarrow> int" where
  "to_int64 n = signed_take_bit 63 n"

definition LONG_MAX :: int where
  "LONG_MAX = 9223372036854775807"

definition LONG_MIN :: int where
  "LONG_MIN = - 9223372036854775808"

definition is_long :: "int \<Rightarrow> bool" where
  "is_long n \<longleftrightarrow> LONG_MIN \<le> n \<and> n \<le> LONG_MAX"

section \<open>C strings\<close>

text \<open>A C string is the list of characters before its terminating NUL.\<close>

definition MAXPATHLEN :: nat where
  "MAXPATHLEN = 4096"

definition NUL :: char where
  "NUL = CHR 0x00"

definition is_cstr :: "string \<Rightarrow> bool" where
  "is_cstr s \<longleftrightarrow> NUL \<notin> set s"

definition cstr_at :: "string \<Rightarrow> nat \<Rightarrow> char" where
  "cstr_at s i = (s @ [NUL]) ! i"

text \<open>\<open>strstr\<close> and \<open>strchr\<close> give the offset of the first match.\<close>

fun strstr :: "string \<Rightarrow> string \<Rightarrow> nat option" where
  "strstr [] needle = (if needle = [] then Some 0 else None)"
| "strstr (c # h) needle =
     (if prefix needle (c # h) then Some 0 else map_option Suc (strstr h needle))"

fun strchr :: "string \<Rightarrow> char \<Rightarrow> nat option" where
  "strchr [] x = None"
| "strchr (c # h) x = (if c = x then Some 0 else map_option Suc (strchr h x))"

definition strchrnul :: "string \<Rightarrow> char \<Rightarrow> nat" where
  "strchrnul s x = (case strchr s x of None \<Rightarrow> length s | Some i \<Rightarrow> i)"

text \<open>\<open>strncmp (a, b, n) == 0\<close>: equality of the first \<open>n\<close> characters, terminator included.\<close>

definition strncmp0 :: "string \<Rightarrow> string \<Rightarrow> nat \<Rightarrow> bool" where
  "strncmp0 a b n \<longleftrightarrow> take n (a @ [NUL]) = take n (b @ [NUL])"

text \<open>The parts of a string between occurrences of a separator (a reference notion).\<close>

function (sequential) split_sep :: "char \<Rightarrow> string \<Rightarrow> string list" where
  "split_sep x s =
     (case strchr s x of
        None \<Rightarrow> [s]
      | Some i \<Rightarrow> take i s # split_sep x (drop (Suc i) s))"
  by pat_completeness auto
termination
  by (relation "measure (\<lambda>(x, s). length s)")
     (auto, metis diff_less length_greater_0_conv option.distinct(1) strchr.simps(1) zero_less_Suc)

declare split_sep.simps [simp del]

section \<open>Decimal conversion and formatted output\<close>

definition digit_char :: "nat \<Rightarrow> char" where
  "digit_char d = char_of (48 + d)"

fun show_nat :: "nat \<Rightarrow> string" where
  "show_nat n =
     (if n < 10 then [digit_char n] else show_nat (n div 10) @ [digit_char (n mod 10)])"

declare show_nat.simps [simp del]

definition show_int :: "int \<Rightarrow> string" where
  "show_int n = (if n < 0 then CHR ''-'' # show_nat (nat (- n)) else show_nat (nat n))"

definition is_digit_char :: "char \<Rightarrow> bool" where
  "is_digit_char c \<longleftrightarrow> 48 \<le> (of_char c :: nat) \<and> (of_char c :: nat) \<le> 57"

definition is_space_char :: "char \<Rightarrow> bool" where
  "is_space_char c \<longleftrightarrow> (of_char c :: nat) = 32 \<or> (9 \<le> (of_char c :: nat) \<and> (of_char c :: nat) \<le> 13)"

fun read_digits :: "string \<Rightarrow> nat \<Rightarrow> nat" where
  "read_digits [] acc = acc"
| "read_digits (c # s) acc =
     (if is_digit_char c then read_digits s (10 * acc + (of_char c - 48)) else acc)"

text \<open>\<open>atol\<close> is \<open>strtol (s, NULL, 10)\<close>: leading white space, a sign, digits; it saturates.\<close>

definition atol :: "string \<Rightarrow> int" where
  "atol s =
     (let t = dropWhile is_space_char s;
          v = (case t of
                 [] \<Rightarrow> 0
               | c # t' \<Rightarrow>
                   if c = CHR ''-'' then - int (read_digits t' 0)
                   else if c = CHR ''+'' then int (read_digits t' 0)
                   else int (read_digits t 0))
      in max LONG_MIN (min LONG_MAX v))"

definition atoi :: "string \<Rightarrow> int" where
  "atoi s = to_int32 (atol s)"

datatype fmt_arg = FStr string | FInt int

text \<open>
  \<open>vsprintf\<close> for the conversions the sources use: \<open>%s\<close>, \<open>%d\<close> (an \<open>int\<close>) and \<open>%ld\<close>.
  An argument list that does not fit the format is skipped; no call site has one.
\<close>

fun vsprintf :: "string \<Rightarrow> fmt_arg list \<Rightarrow> string" where
  "vsprintf [] args = []"
| "vsprintf [c] args = [c]"
| "vsprintf (c # d # f) args =
     (if c = CHR ''%'' \<and> d = CHR ''s''
      then (case args of FStr s # rest \<Rightarrow> s @ vsprintf f rest | _ \<Rightarrow> vsprintf f args)
      else if c = CHR ''%'' \<and> d = CHR ''d''
      then (case args of FInt n # rest \<Rightarrow> show_int (to_int32 n) @ vsprintf f rest
            | _ \<Rightarrow> vsprintf f args)
      else if c = CHR ''%'' \<and> d = CHR ''l'' \<and> f \<noteq> [] \<and> hd f = CHR ''d''
      then (case args of FInt n # rest \<Rightarrow> show_int (to_int64 n) @ vsprintf (tl f) rest
            | _ \<Rightarrow> vsprintf (tl f) args)
      else c # vsprintf (d # f) args)"

section \<open>Laws of the program combinators\<close>

lemma cbind_cret [simp, cprog_simps]: "cbind (cret x) f = f x"
  by (simp add: cbind_def cret_def)

lemma cbind_Ret [cprog_simps]: "m s = (Ret x, s') \<Longrightarrow> cbind m f s = f x s'"
  by (simp add: cbind_def)

lemma cbind_Bailout [cprog_simps]: "m s = (Bailout, s') \<Longrightarrow> cbind m f s = (Bailout, s')"
  by (simp add: cbind_def)

lemma cbind_Undef [cprog_simps]: "m s = (Undef, s') \<Longrightarrow> cbind m f s = (Undef, s')"
  by (simp add: cbind_def)

lemma cbind_assoc [cprog_simps]: "cbind (cbind m f) g = cbind m (\<lambda>x. cbind (f x) g)"
  by (auto simp: cbind_def fun_eq_iff split: prod.splits outcome.splits)

lemma cbind_cseq [cprog_simps]: "cbind (cseq m k) f = cseq m (cbind k f)"
  by (simp add: cseq_def cbind_assoc)

lemma cbind_if [cprog_simps]: "cbind (if c then m else k) f = (if c then cbind m f else cbind k f)"
  by simp

lemma cbind_RetE:
  assumes "cbind m f s = (Ret y, t)"
  obtains x u where "m s = (Ret x, u)" and "f x u = (Ret y, t)"
  using assms by (auto simp: cbind_def split: prod.splits outcome.splits)

lemma cseq_RetE:
  assumes "cseq m k s = (Ret y, t)"
  obtains x u where "m s = (Ret x, u)" and "k u = (Ret y, t)"
  using assms unfolding cseq_def by (rule cbind_RetE)

lemma cget_cbind [simp, cprog_simps]: "cbind (cget g) f s = f (g s) s"
  by (simp add: cbind_def cget_def)

lemma cmodify_cseq [simp, cprog_simps]: "cseq (cmodify g) k s = k (g s)"
  by (simp add: cseq_def cbind_def cmodify_def)

lemma clift_Ret [simp, cprog_simps]: "clift (Ret x) = cret x"
  by (simp add: clift_def cret_def)

lemma cret_apply [simp, cprog_simps]: "cret x s = (Ret x, s)"
  by (simp add: cret_def)

section \<open>Laws of the C string functions\<close>

lemma strchr_None [cstr_simps]: "strchr s x = None \<longleftrightarrow> x \<notin> set s"
  by (induction s) auto

lemma strchr_Some:
  "strchr s x = Some i \<Longrightarrow> i < length s \<and> s ! i = x \<and> x \<notin> set (take i s)"
proof (induction s arbitrary: i)
  case Nil
  then show ?case by simp
next
  case (Cons c s)
  then show ?case by (cases i) (auto split: if_splits)
qed

lemma strchr_append [cstr_simps]: "x \<notin> set a \<Longrightarrow> strchr (a @ x # b) x = Some (length a)"
  by (induction a) auto

lemma strstr_single [cstr_simps]: "strstr s [x] = strchr s x"
  by (induction s) auto

lemma strstr_None: "strstr h n = None \<longleftrightarrow> \<not> (\<exists>a b. h = a @ n @ b)"
proof (induction h)
  case Nil
  then show ?case by auto
next
  case (Cons c h)
  have "(\<exists>a b. c # h = a @ n @ b) \<longleftrightarrow> prefix n (c # h) \<or> (\<exists>a b. h = a @ n @ b)"
  proof
    assume "\<exists>a b. c # h = a @ n @ b"
    then obtain a b where "c # h = a @ n @ b" by blast
    then show "prefix n (c # h) \<or> (\<exists>a b. h = a @ n @ b)"
      by (cases a) (auto simp: prefix_def)
  next
    assume "prefix n (c # h) \<or> (\<exists>a b. h = a @ n @ b)"
    then show "\<exists>a b. c # h = a @ n @ b"
      by (metis append_Cons append_Nil prefix_def)
  qed
  with Cons show ?case by auto
qed

lemma strstr_Some:
  "strstr h n = Some i \<Longrightarrow> i \<le> length h \<and> prefix n (drop i h)"
proof (induction h arbitrary: i)
  case Nil
  then show ?case by (auto split: if_splits)
next
  case (Cons c h)
  then show ?case by (cases i) (auto split: if_splits)
qed

lemma strstr_zero [cstr_simps]: "strstr h n = Some 0 \<longleftrightarrow> prefix n h"
  by (cases h) auto

lemma strncmp0_prefix [cstr_simps]:
  assumes "is_cstr a" and "n \<le> length b" and "is_cstr b"
  shows "strncmp0 a b n \<longleftrightarrow> prefix (take n b) a"
proof
  assume "strncmp0 a b n"
  then have eq: "take n (a @ [NUL]) = take n b"
    using assms(2) by (simp add: strncmp0_def)
  have "n \<le> length a"
  proof (rule ccontr)
    assume "\<not> n \<le> length a"
    then have "NUL \<in> set (take n (a @ [NUL]))" by simp
    with eq assms(3) show False
      by (metis in_set_takeD is_cstr_def)
  qed
  with eq show "prefix (take n b) a" by (metis take_is_prefix take_append diff_is_0_eq take_0 append_Nil2)
next
  assume "prefix (take n b) a"
  then obtain c where "a = take n b @ c" by (auto simp: prefix_def)
  with assms(2) show "strncmp0 a b n" by (simp add: strncmp0_def)
qed

lemma split_sep_no_sep [cstr_simps]: "x \<notin> set s \<Longrightarrow> split_sep x s = [s]"
  by (simp add: split_sep.simps strchr_None [THEN iffD2])

lemma split_sep_append [cstr_simps]:
  "x \<notin> set a \<Longrightarrow> split_sep x (a @ x # b) = a # split_sep x b"
  by (subst split_sep.simps) (simp add: strchr_append)

lemma split_sep_cases:
  obtains "x \<notin> set s" "split_sep x s = [s]"
  | a b where "s = a @ x # b" "x \<notin> set a" "split_sep x s = a # split_sep x b"
proof (cases "x \<in> set s")
  case True
  then obtain a b where "s = a @ x # b" "x \<notin> set a" by (meson split_list_first)
  with that(2) show ?thesis by (simp add: split_sep_append)
next
  case False
  with that(1) show ?thesis by (simp add: split_sep_no_sep)
qed

section \<open>Laws of decimal conversion\<close>

lemma of_char_digit_char [simp]: "d < 10 \<Longrightarrow> (of_char (digit_char d) :: nat) = 48 + d"
  by (simp add: digit_char_def)

lemma is_digit_digit_char [simp]: "d < 10 \<Longrightarrow> is_digit_char (digit_char d)"
  by (simp add: is_digit_char_def)

lemma show_nat_digits: "c \<in> set (show_nat n) \<Longrightarrow> is_digit_char c"
proof (induction n rule: show_nat.induct)
  case (1 n)
  then show ?case
    by (cases "n < 10") (auto simp: show_nat.simps [of n])
qed

lemma show_nat_nonempty [simp]: "show_nat n \<noteq> []"
  by (subst show_nat.simps) simp

lemma length_show_nat_less: "0 < k \<Longrightarrow> length (show_nat n) \<le> k \<longleftrightarrow> n < 10 ^ k"
proof (induction n arbitrary: k rule: show_nat.induct)
  case (1 n)
  show ?case
  proof (cases "n < 10")
    case True
    have "(10::nat) ^ 1 \<le> 10 ^ k"
      using "1.prems" by (intro power_increasing) auto
    with True "1.prems" show ?thesis by (simp add: show_nat.simps [of n])
  next
    case False
    show ?thesis
    proof (cases "k = 1")
      case True
      with False have "length (show_nat (n div 10)) \<noteq> 0" by simp
      with True False show ?thesis by (simp add: show_nat.simps [of n])
    next
      case k: False
      with "1.prems" obtain j where j: "k = Suc j" "0 < j" by (cases k) auto
      have "length (show_nat (n div 10)) \<le> j \<longleftrightarrow> n div 10 < 10 ^ j"
        using "1.IH" False j by simp
      also have "\<dots> \<longleftrightarrow> n < 10 ^ k"
        unfolding j by (simp add: less_mult_imp_div_less div_less_iff_less_mult mult.commute)
      finally show ?thesis
        using False j by (simp add: show_nat.simps [of n])
    qed
  qed
qed

lemma read_digits_append:
  "\<forall>c \<in> set s. is_digit_char c \<Longrightarrow> read_digits (s @ t) acc = read_digits t (read_digits s acc)"
  by (induction s arbitrary: acc) auto

lemma read_digits_show_nat: "read_digits (show_nat n) 0 = n"
proof (induction n rule: show_nat.induct)
  case (1 n)
  show ?case
  proof (cases "n < 10")
    case True
    then show ?thesis by (simp add: show_nat.simps [of n])
  next
    case False
    then have "read_digits (show_nat n) 0
        = read_digits [digit_char (n mod 10)] (read_digits (show_nat (n div 10)) 0)"
      using show_nat_digits by (simp add: show_nat.simps [of n] read_digits_append)
    with "1.IH" False show ?thesis by simp
  qed
qed

lemma digit_not_sign:
  "is_digit_char c \<Longrightarrow> c \<noteq> CHR ''-'' \<and> c \<noteq> CHR ''+'' \<and> \<not> is_space_char c"
  by (auto simp: is_digit_char_def is_space_char_def)

lemma atol_show_int: "is_long n \<Longrightarrow> atol (show_int n) = n"
proof -
  assume n: "is_long n"
  show "atol (show_int n) = n"
  proof (cases "n < 0")
    case True
    have "\<not> is_space_char CHR ''-''" by (simp add: is_space_char_def)
    with True n show ?thesis
      by (simp add: atol_def show_int_def is_long_def read_digits_show_nat)
  next
    case False
    obtain c t where ct: "show_nat (nat n) = c # t" by (cases "show_nat (nat n)") auto
    then have "is_digit_char c" using show_nat_digits [of c "nat n"] by simp
    with False n ct show ?thesis
      using read_digits_show_nat [of "nat n"]
      by (simp add: atol_def show_int_def is_long_def digit_not_sign)
  qed
qed

lemma is_digit_not_NUL: "is_digit_char c \<Longrightarrow> c \<noteq> NUL"
  by (auto simp: is_digit_char_def NUL_def)

lemma is_cstr_show_int [simp, cstr_simps]: "is_cstr (show_int n)"
proof -
  have "NUL \<notin> set (show_nat m)" for m
    using show_nat_digits is_digit_not_NUL by blast
  then show ?thesis by (simp add: is_cstr_def show_int_def) (simp add: NUL_def)
qed

lemma to_int32_id [simp]: "- 2147483648 \<le> n \<Longrightarrow> n < 2147483648 \<Longrightarrow> to_int32 n = n"
  by (simp add: to_int32_def signed_take_bit_int_eq_self)

lemma to_int64_id [simp]: "is_long n \<Longrightarrow> to_int64 n = n"
  by (simp add: to_int64_def is_long_def LONG_MIN_def LONG_MAX_def signed_take_bit_int_eq_self)

end
