(* ===== verification/Dll.thy ===== *)
theory Dll
  imports PHP_Prelude
begin

text \<open>
  Doubly linked lists, as the Zend engine builds them: two link fields read as functions
  \<open>nx\<close> and \<open>pv\<close> from addresses to optional addresses. \<open>lseg nx pv p xs\<close> says that the
  addresses \<open>xs\<close> are linked in this order, the first one's back link being \<open>p\<close>. The hash
  table uses the lemmas twice (the collision chains and the global element list), the
  linked-list component once more.
\<close>

type_synonym addr = nat

definition head_opt :: "'a list \<Rightarrow> 'a option" where
  "head_opt xs = (case xs of [] \<Rightarrow> None | x # _ \<Rightarrow> Some x)"

definition last_opt :: "'a list \<Rightarrow> 'a option" where
  "last_opt xs = (if xs = [] then None else Some (last xs))"

fun lseg :: "(addr \<Rightarrow> addr option) \<Rightarrow> (addr \<Rightarrow> addr option) \<Rightarrow> addr option \<Rightarrow> addr list \<Rightarrow> bool" where
  "lseg nx pv p [] \<longleftrightarrow> True"
| "lseg nx pv p (x # xs) \<longleftrightarrow> pv x = p \<and> nx x = head_opt xs \<and> lseg nx pv (Some x) xs"

definition dll ::
  "(addr \<Rightarrow> addr option) \<Rightarrow> (addr \<Rightarrow> addr option) \<Rightarrow> addr option \<Rightarrow> addr option \<Rightarrow> addr list \<Rightarrow> bool" where
  "dll nx pv f l xs \<longleftrightarrow> f = head_opt xs \<and> l = last_opt xs \<and> lseg nx pv None xs \<and> distinct xs"

section \<open>Ends of a list\<close>

lemma head_opt_simps [simp]:
  "head_opt [] = None" "head_opt (x # xs) = Some x"
  "head_opt xs = None \<longleftrightarrow> xs = []"
  by (auto simp: head_opt_def split: list.splits)

lemma last_opt_simps [simp]:
  "last_opt [] = None" "last_opt (xs @ [x]) = Some x" "last_opt [x] = Some x"
  "last_opt xs = None \<longleftrightarrow> xs = []"
  by (auto simp: last_opt_def)

lemma head_opt_append: "head_opt (xs @ ys) = (if xs = [] then head_opt ys else head_opt xs)"
  by (cases xs) auto

lemma last_opt_append: "last_opt (xs @ ys) = (if ys = [] then last_opt xs else last_opt ys)"
  by (auto simp: last_opt_def)

lemma last_opt_Cons: "last_opt (x # xs) = (if xs = [] then Some x else last_opt xs)"
  by (auto simp: last_opt_def)

lemma head_opt_in: "head_opt xs = Some x \<Longrightarrow> x \<in> set xs"
  by (cases xs) auto

lemma last_opt_in: "last_opt xs = Some x \<Longrightarrow> x \<in> set xs"
  by (auto simp: last_opt_def split: if_splits)

section \<open>Linked segments\<close>

lemma lseg_cong:
  "(\<And>x. x \<in> set xs \<Longrightarrow> nx x = nx' x \<and> pv x = pv' x) \<Longrightarrow> lseg nx pv p xs = lseg nx' pv' p xs"
  by (induction xs arbitrary: p) auto

lemma lseg_nx: "lseg nx pv p (xs @ x # ys) \<Longrightarrow> nx x = head_opt ys"
  by (induction xs arbitrary: p) auto

lemma lseg_pv: "lseg nx pv p (xs @ x # ys) \<Longrightarrow> pv x = (if xs = [] then p else last_opt xs)"
  by (induction xs arbitrary: p) (auto simp: last_opt_def)

lemma lseg_append:
  "lseg nx pv p (xs @ ys) \<longleftrightarrow>
     (if ys = [] then lseg nx pv p xs
      else if xs = [] then lseg nx pv p ys
      else lseg (nx(last xs := None)) pv p xs \<and> nx (last xs) = head_opt ys
           \<and> lseg nx pv (Some (last xs)) ys)"
  if "distinct xs"
  using that
proof (induction xs arbitrary: p)
  case Nil
  then show ?case by simp
next
  case (Cons x xs)
  show ?case
  proof (cases "xs = [] \<or> ys = []")
    case True
    then show ?thesis by (auto simp: head_opt_append)
  next
    case False
    with Cons show ?thesis by (auto simp: head_opt_append)
  qed
qed

text \<open>Pushing an element in front of a segment.\<close>

lemma lseg_push:
  assumes "lseg nx pv None xs" and "a \<notin> set xs" and "distinct xs"
    and "nx' a = head_opt xs" and "pv' a = None"
    and "\<And>x. x \<in> set xs \<Longrightarrow> nx' x = nx x"
    and "\<And>x. x \<in> set xs \<Longrightarrow> pv' x = (if head_opt xs = Some x then Some a else pv x)"
  shows "lseg nx' pv' None (a # xs)"
proof (cases xs)
  case Nil
  with assms show ?thesis by simp
next
  case (Cons y ys)
  have "lseg nx' pv' (Some y) ys = lseg nx pv (Some y) ys"
    using assms Cons by (intro lseg_cong) auto
  with assms Cons show ?thesis by simp
qed

text \<open>Appending an element to a list.\<close>

lemma lseg_snoc:
  assumes "lseg nx pv p xs" and "a \<notin> set xs" and "distinct xs"
    and "nx' a = None" and "pv' a = (if xs = [] then p else last_opt xs)"
    and "\<And>x. x \<in> set xs \<Longrightarrow> pv' x = pv x"
    and "\<And>x. x \<in> set xs \<Longrightarrow> nx' x = (if last_opt xs = Some x then Some a else nx x)"
  shows "lseg nx' pv' p (xs @ [a])"
  using assms
proof (induction xs arbitrary: p)
  case Nil
  then show ?case by simp
next
  case (Cons x xs)
  show ?case
  proof (cases "xs = []")
    case True
    with Cons.prems show ?thesis by auto
  next
    case False
    then have l: "last_opt (x # xs) = last_opt xs" by (simp add: last_opt_def)
    from False Cons.prems(2,3) have "last_opt xs \<noteq> Some x"
      using last_opt_in by fastforce
    with Cons.prems l have x: "nx' x = nx x" "pv' x = p" by auto
    have "lseg nx' pv' (Some x) (xs @ [a])"
      using Cons.prems l False by (intro Cons.IH) auto
    with x Cons.prems False show ?thesis by (simp add: head_opt_append)
  qed
qed

text \<open>Unlinking an element.\<close>

lemma lseg_remove:
  assumes "lseg nx pv p (xs @ a # ys)" and "distinct (xs @ a # ys)"
    and "\<And>x. x \<in> set xs \<union> set ys \<Longrightarrow> nx' x = (if last_opt xs = Some x then head_opt ys else nx x)"
    and "\<And>x. x \<in> set xs \<union> set ys \<Longrightarrow>
           pv' x = (if head_opt ys = Some x then (if xs = [] then p else last_opt xs) else pv x)"
  shows "lseg nx' pv' p (xs @ ys)"
  using assms
proof (induction xs arbitrary: p)
  case Nil
  show ?case
  proof (cases ys)
    case (Cons y zs)
    have "lseg nx' pv' (Some y) zs = lseg nx pv (Some y) zs"
      using Nil.prems Cons by (intro lseg_cong) auto
    with Nil.prems Cons show ?thesis by simp
  qed simp
next
  case (Cons x xs)
  show ?case
  proof (cases "xs = []")
    case True
    have "lseg nx' pv' (Some x) ys"
    proof (cases ys)
      case (Cons y zs)
      have "lseg nx' pv' (Some y) zs = lseg nx pv (Some y) zs"
        using Cons.prems Cons True by (intro lseg_cong) auto
      with Cons.prems Cons True show ?thesis by simp
    qed simp
    moreover have "head_opt ys \<noteq> Some x" using Cons.prems(2) head_opt_in by fastforce
    ultimately show ?thesis using Cons.prems True by simp
  next
    case False
    then have l: "last_opt (x # xs) = last_opt xs" by (simp add: last_opt_def)
    have nx: "last_opt xs \<noteq> Some x" "head_opt ys \<noteq> Some x"
      using Cons.prems(2) last_opt_in head_opt_in by fastforce+
    have "lseg nx' pv' (Some x) (xs @ ys)"
      using Cons.prems l False nx by (intro Cons.IH) auto
    with Cons.prems False nx l show ?thesis by (simp add: head_opt_append)
  qed
qed

end
