(* ===== verification/Zend_Hash.thy ===== *)
theory Zend_Hash
  imports Dll "HOL-Library.Monad_Syntax"
begin

text \<open>
  The hash table of the Zend engine (Zend/zend_hash.c, Zend/zend_hash.h), at the level of
  buckets and pointers: every bucket is a heap cell with the two pairs of links the C structure
  has (the collision chain \<open>pNext/pLast\<close> and the global element list
  \<open>pListNext/pListLast\<close>). Addresses are natural numbers, \<open>None\<close> is the null pointer.
  An operation returns \<open>None\<close> where the C code would follow a dangling pointer, index
  \<open>arBuckets\<close> out of range, or never leave a loop; the theorems show this does not happen on a
  well-formed table. The key of a bucket is the \<open>nKeyLength\<close> bytes at \<open>arKey\<close> (a string
  key includes its NUL); the empty key marks a numeric index. The calls of \<open>pDestructor\<close> are
  recorded in \<open>destroyed\<close>. Memory exhaustion, signals and the debug-only consistency checks
  are left out.
\<close>

unbundle bit_operations_syntax

section \<open>Data\<close>

type_synonym uint = "32 word"
type_synonym ulong = "64 word"

record 'v Bucket =
  b_h :: ulong
  b_arKey :: string
  b_pData :: 'v
  b_pListNext :: "addr option"
  b_pListLast :: "addr option"
  b_pNext :: "addr option"
  b_pLast :: "addr option"

record 'v HashTable =
  nTableSize :: uint
  nTableMask :: uint
  nNumOfElements :: uint
  nNextFreeElement :: ulong
  pInternalPointer :: "addr option"
  pListHead :: "addr option"
  pListTail :: "addr option"
  arBuckets :: "addr option list"
  pDestructor :: bool \<comment> \<open>whether a destructor is installed\<close>
  heap :: "addr \<Rightarrow> 'v Bucket option" \<comment> \<open>the allocated buckets\<close>
  brk :: addr \<comment> \<open>the address the allocator returns next\<close>
  destroyed :: "'v list" \<comment> \<open>arguments of the destructor calls so far\<close>

datatype hash_flag = HASH_UPDATE | HASH_ADD | HASH_NEXT_INSERT

datatype zresult = SUCCESS | FAILURE

section \<open>The hash function\<close>

text \<open>\<open>hash = ((hash << 5) + hash) + *arKey++\<close>, where \<open>char\<close> is signed.\<close>

definition hash_step :: "ulong \<Rightarrow> char \<Rightarrow> ulong" where
  "hash_step hash c = (push_bit 5 hash + hash) + word_of_int (signed_take_bit 7 (of_char c))"

fun hash_unrolled :: "ulong \<Rightarrow> string \<Rightarrow> ulong" where
  "hash_unrolled hash (a # b # c # d # e # f # g # h # rest) =
     hash_unrolled
       (hash_step (hash_step (hash_step (hash_step
         (hash_step (hash_step (hash_step (hash_step hash a) b) c) d) e) f) g) h) rest"
| "hash_unrolled hash [a, b, c, d, e, f, g] =
     hash_step (hash_step (hash_step (hash_step
       (hash_step (hash_step (hash_step hash a) b) c) d) e) f) g"
| "hash_unrolled hash [a, b, c, d, e, f] =
     hash_step (hash_step (hash_step (hash_step (hash_step (hash_step hash a) b) c) d) e) f"
| "hash_unrolled hash [a, b, c, d, e] =
     hash_step (hash_step (hash_step (hash_step (hash_step hash a) b) c) d) e"
| "hash_unrolled hash [a, b, c, d] =
     hash_step (hash_step (hash_step (hash_step hash a) b) c) d"
| "hash_unrolled hash [a, b, c] = hash_step (hash_step (hash_step hash a) b) c"
| "hash_unrolled hash [a, b] = hash_step (hash_step hash a) b"
| "hash_unrolled hash [a] = hash_step hash a"
| "hash_unrolled hash [] = hash"

definition zend_inline_hash_func :: "string \<Rightarrow> ulong" where
  "zend_inline_hash_func arKey = hash_unrolled 5381 arKey"

section \<open>Creation\<close>

function hash_init_exp :: "nat \<Rightarrow> nat \<Rightarrow> nat" where
  "hash_init_exp i nSize = (if 2 ^ i < nSize then hash_init_exp (Suc i) nSize else i)"
  by pat_completeness auto
termination
proof (relation "measure (\<lambda>(i, n). n - i)", goal_cases)
  case (2 i nSize)
  then have "i < nSize" using less_exp [of i] by linarith
  then show ?case by auto
qed auto

declare hash_init_exp.simps [simp del]

definition zend_hash_init :: "uint \<Rightarrow> bool \<Rightarrow> 'v HashTable" where
  "zend_hash_init nSize dtor =
     \<lparr> nTableSize = (if 0x80000000 \<le> nSize then 0x80000000
                     else push_bit (hash_init_exp 3 (unat nSize)) 1),
       nTableMask = 0, nNumOfElements = 0, nNextFreeElement = 0,
       pInternalPointer = None, pListHead = None, pListTail = None,
       arBuckets = [None], pDestructor = dtor,
       heap = Map.empty, brk = 0, destroyed = [] \<rparr>"

section \<open>Heap and pointer primitives\<close>

definition bucket_index :: "'v HashTable \<Rightarrow> ulong \<Rightarrow> nat" where
  "bucket_index ht h = unat ((ucast h :: uint) AND nTableMask ht)"

definition bucket_head :: "'v HashTable \<Rightarrow> nat \<Rightarrow> addr option option" where
  "bucket_head ht i = (if i < length (arBuckets ht) then Some (arBuckets ht ! i) else None)"

definition set_bucket ::
  "addr \<Rightarrow> ('v Bucket \<Rightarrow> 'v Bucket) \<Rightarrow> 'v HashTable \<Rightarrow> 'v HashTable option" where
  "set_bucket a f ht =
     (case heap ht a of
        None \<Rightarrow> None
      | Some b \<Rightarrow> Some (ht\<lparr>heap := (heap ht)(a \<mapsto> f b)\<rparr>))"

definition set_bucket_opt ::
  "addr option \<Rightarrow> ('v Bucket \<Rightarrow> 'v Bucket) \<Rightarrow> 'v HashTable \<Rightarrow> 'v HashTable option" where
  "set_bucket_opt p f ht = (case p of None \<Rightarrow> Some ht | Some a \<Rightarrow> set_bucket a f ht)"

definition call_destructor :: "'v \<Rightarrow> 'v HashTable \<Rightarrow> 'v HashTable" where
  "call_destructor v ht = (if pDestructor ht then ht\<lparr>destroyed := destroyed ht @ [v]\<rparr> else ht)"

text \<open>\<open>CHECK_INIT\<close>\<close>

definition check_init :: "'v HashTable \<Rightarrow> 'v HashTable" where
  "check_init ht =
     (if nTableMask ht = 0
      then ht\<lparr>arBuckets := replicate (unat (nTableSize ht)) None,
              nTableMask := nTableSize ht - 1\<rparr>
      else ht)"

text \<open>\<open>CONNECT_TO_BUCKET_DLLIST (p, ht->arBuckets[nIndex]); ht->arBuckets[nIndex] = p\<close>\<close>

definition connect_to_bucket_dllist :: "addr \<Rightarrow> nat \<Rightarrow> 'v HashTable \<Rightarrow> 'v HashTable option" where
  "connect_to_bucket_dllist a i ht = do {
     list_head \<leftarrow> bucket_head ht i;
     ht \<leftarrow> set_bucket a (\<lambda>b. b\<lparr>b_pNext := list_head, b_pLast := None\<rparr>) ht;
     ht \<leftarrow> set_bucket_opt list_head (\<lambda>b. b\<lparr>b_pLast := Some a\<rparr>) ht;
     Some (ht\<lparr>arBuckets := (arBuckets ht)[i := Some a]\<rparr>) }"

text \<open>\<open>CONNECT_TO_GLOBAL_DLLIST_EX\<close> and \<open>CONNECT_TO_GLOBAL_DLLIST\<close>\<close>

definition connect_to_global_dllist_ex ::
  "addr \<Rightarrow> addr option \<Rightarrow> addr option \<Rightarrow> 'v HashTable \<Rightarrow> 'v HashTable option" where
  "connect_to_global_dllist_ex a lst nxt ht = do {
     ht \<leftarrow> set_bucket a (\<lambda>b. b\<lparr>b_pListLast := lst, b_pListNext := nxt\<rparr>) ht;
     ht \<leftarrow> (if lst \<noteq> None then set_bucket_opt lst (\<lambda>b. b\<lparr>b_pListNext := Some a\<rparr>) ht
           else Some (ht\<lparr>pListHead := Some a\<rparr>));
     (if nxt \<noteq> None then set_bucket_opt nxt (\<lambda>b. b\<lparr>b_pListLast := Some a\<rparr>) ht
      else Some (ht\<lparr>pListTail := Some a\<rparr>)) }"

definition connect_to_global_dllist :: "addr \<Rightarrow> 'v HashTable \<Rightarrow> 'v HashTable option" where
  "connect_to_global_dllist a ht = do {
     ht \<leftarrow> connect_to_global_dllist_ex a (pListTail ht) None ht;
     Some (if pInternalPointer ht = None then ht\<lparr>pInternalPointer := Some a\<rparr> else ht) }"

text \<open>\<open>pemalloc\<close> of a bucket with its key, hash and data filled in; the links come later.\<close>

definition alloc_bucket :: "ulong \<Rightarrow> string \<Rightarrow> 'v \<Rightarrow> 'v HashTable \<Rightarrow> addr \<times> 'v HashTable" where
  "alloc_bucket h arKey pData ht =
     (brk ht,
      ht\<lparr>heap := (heap ht)(brk ht \<mapsto>
            \<lparr>b_h = h, b_arKey = arKey, b_pData = pData, b_pListNext = None,
             b_pListLast = None, b_pNext = None, b_pLast = None\<rparr>),
         brk := Suc (brk ht)\<rparr>)"

text \<open>The chain loop \<open>p = ht->arBuckets[nIndex]; while (p != NULL) ...; p = p->pNext\<close>.\<close>

partial_function (option) chain_find ::
  "(addr \<Rightarrow> 'v Bucket option) \<Rightarrow> ('v Bucket \<Rightarrow> bool) \<Rightarrow> addr option \<Rightarrow> addr option option" where
  "chain_find hp match p =
     (case p of
        None \<Rightarrow> Some None
      | Some a \<Rightarrow>
          (case hp a of
             None \<Rightarrow> None
           | Some b \<Rightarrow> if match b then Some (Some a) else chain_find hp match (b_pNext b)))"

definition hash_lookup :: "'v HashTable \<Rightarrow> ulong \<Rightarrow> string \<Rightarrow> addr option option" where
  "hash_lookup ht h arKey = do {
     p \<leftarrow> bucket_head ht (bucket_index ht h);
     chain_find (heap ht) (\<lambda>b. b_h b = h \<and> b_arKey b = arKey) p }"

section \<open>Growing the table\<close>

partial_function (option) rehash_loop :: "addr option \<Rightarrow> 'v HashTable \<Rightarrow> 'v HashTable option" where
  "rehash_loop p ht =
     (case p of
        None \<Rightarrow> Some ht
      | Some a \<Rightarrow>
          (case heap ht a of
             None \<Rightarrow> None
           | Some b \<Rightarrow>
               do { ht \<leftarrow> connect_to_bucket_dllist a (bucket_index ht (b_h b)) ht;
                    rehash_loop (b_pListNext b) ht }))"

definition zend_hash_rehash :: "'v HashTable \<Rightarrow> 'v HashTable option" where
  "zend_hash_rehash ht =
     (if nNumOfElements ht = 0 then Some ht
      else rehash_loop (pListHead ht) (ht\<lparr>arBuckets := replicate (unat (nTableSize ht)) None\<rparr>))"

text \<open>The contents \<open>perealloc\<close> adds are overwritten by the rehash before they are read.\<close>

definition zend_hash_do_resize :: "'v HashTable \<Rightarrow> 'v HashTable option" where
  "zend_hash_do_resize ht =
     (let size = push_bit 1 (nTableSize ht) in
      if 0 < size
      then zend_hash_rehash
             (ht\<lparr>arBuckets := arBuckets ht @ replicate (unat size - length (arBuckets ht)) None,
                 nTableSize := size, nTableMask := size - 1\<rparr>)
      else Some ht)"

definition if_full_do_resize :: "'v HashTable \<Rightarrow> 'v HashTable option" where
  "if_full_do_resize ht =
     (if nTableSize ht < nNumOfElements ht then zend_hash_do_resize ht else Some ht)"

section \<open>Insertion\<close>

definition update_data :: "addr \<Rightarrow> 'v \<Rightarrow> 'v HashTable \<Rightarrow> 'v HashTable option" where
  "update_data a pData ht = do {
     b \<leftarrow> heap ht a;
     set_bucket a (\<lambda>b. b\<lparr>b_pData := pData\<rparr>) (call_destructor (b_pData b) ht) }"

definition zend_hash_quick_add_or_update ::
  "'v HashTable \<Rightarrow> string \<Rightarrow> ulong \<Rightarrow> 'v \<Rightarrow> hash_flag \<Rightarrow> (zresult \<times> 'v HashTable) option" where
  "zend_hash_quick_add_or_update ht arKey h pData flag =
     (if arKey = [] then None
      else do {
        let ht = check_init ht;
        p \<leftarrow> hash_lookup ht h arKey;
        (case p of
           Some a \<Rightarrow>
             (if flag = HASH_ADD then Some (FAILURE, ht)
              else do { ht \<leftarrow> update_data a pData ht; Some (SUCCESS, ht) })
         | None \<Rightarrow>
             do { let (a, ht) = alloc_bucket h arKey pData ht;
                  ht \<leftarrow> connect_to_bucket_dllist a (bucket_index ht h) ht;
                  ht \<leftarrow> connect_to_global_dllist a ht;
                  ht \<leftarrow> if_full_do_resize (ht\<lparr>nNumOfElements := nNumOfElements ht + 1\<rparr>);
                  Some (SUCCESS, ht) }) })"

definition zend_hash_add_or_update ::
  "'v HashTable \<Rightarrow> string \<Rightarrow> 'v \<Rightarrow> hash_flag \<Rightarrow> (zresult \<times> 'v HashTable) option" where
  "zend_hash_add_or_update ht arKey pData flag =
     zend_hash_quick_add_or_update ht arKey (zend_inline_hash_func arKey) pData flag"

definition next_free_after :: "ulong \<Rightarrow> 'v HashTable \<Rightarrow> 'v HashTable" where
  "next_free_after h ht =
     (if sint (nNextFreeElement ht) \<le> sint h
      then ht\<lparr>nNextFreeElement := (if h < 0x7FFFFFFFFFFFFFFF then h + 1 else 0x7FFFFFFFFFFFFFFF)\<rparr>
      else ht)"

definition zend_hash_index_update_or_next_insert ::
  "'v HashTable \<Rightarrow> ulong \<Rightarrow> 'v \<Rightarrow> hash_flag \<Rightarrow> (zresult \<times> 'v HashTable) option" where
  "zend_hash_index_update_or_next_insert ht h pData flag = do {
     let ht = check_init ht;
     let h = (if flag = HASH_NEXT_INSERT then nNextFreeElement ht else h);
     p \<leftarrow> hash_lookup ht h [];
     (case p of
        Some a \<Rightarrow>
          (if flag = HASH_NEXT_INSERT \<or> flag = HASH_ADD then Some (FAILURE, ht)
           else do { ht \<leftarrow> update_data a pData ht; Some (SUCCESS, ht) })
      | None \<Rightarrow>
          do { let (a, ht) = alloc_bucket h [] pData ht;
               ht \<leftarrow> connect_to_bucket_dllist a (bucket_index ht h) ht;
               ht \<leftarrow> connect_to_global_dllist a ht;
               let ht = next_free_after h ht;
               ht \<leftarrow> if_full_do_resize (ht\<lparr>nNumOfElements := nNumOfElements ht + 1\<rparr>);
               Some (SUCCESS, ht) }) }"

section \<open>Removal\<close>

definition zend_hash_bucket_delete :: "'v HashTable \<Rightarrow> addr \<Rightarrow> 'v HashTable option" where
  "zend_hash_bucket_delete ht p = do {
     b \<leftarrow> heap ht p;
     ht \<leftarrow> (case b_pLast b of
              Some l \<Rightarrow> set_bucket l (\<lambda>x. x\<lparr>b_pNext := b_pNext b\<rparr>) ht
            | None \<Rightarrow>
                do { _ \<leftarrow> bucket_head ht (bucket_index ht (b_h b));
                     Some (ht\<lparr>arBuckets :=
                       (arBuckets ht)[bucket_index ht (b_h b) := b_pNext b]\<rparr>) });
     ht \<leftarrow> set_bucket_opt (b_pNext b) (\<lambda>x. x\<lparr>b_pLast := b_pLast b\<rparr>) ht;
     ht \<leftarrow> (case b_pListLast b of
              Some l \<Rightarrow> set_bucket l (\<lambda>x. x\<lparr>b_pListNext := b_pListNext b\<rparr>) ht
            | None \<Rightarrow> Some (ht\<lparr>pListHead := b_pListNext b\<rparr>));
     ht \<leftarrow> (case b_pListNext b of
              Some n \<Rightarrow> set_bucket n (\<lambda>x. x\<lparr>b_pListLast := b_pListLast b\<rparr>) ht
            | None \<Rightarrow> Some (ht\<lparr>pListTail := b_pListLast b\<rparr>));
     let ht = (if pInternalPointer ht = Some p
               then ht\<lparr>pInternalPointer := b_pListNext b\<rparr> else ht);
     let ht = call_destructor (b_pData b)
                (ht\<lparr>nNumOfElements := nNumOfElements ht - 1\<rparr>);
     Some (ht\<lparr>heap := (heap ht)(p := None)\<rparr>) }"

datatype hash_del_flag = HASH_DEL_KEY | HASH_DEL_INDEX | HASH_DEL_KEY_QUICK

definition zend_hash_del_key_or_index ::
  "'v HashTable \<Rightarrow> string \<Rightarrow> ulong \<Rightarrow> hash_del_flag \<Rightarrow> (zresult \<times> 'v HashTable) option" where
  "zend_hash_del_key_or_index ht arKey h flag = do {
     let h = (if flag = HASH_DEL_KEY then zend_inline_hash_func arKey else h);
     p \<leftarrow> hash_lookup ht h arKey;
     (case p of
        Some a \<Rightarrow> do { ht \<leftarrow> zend_hash_bucket_delete ht a; Some (SUCCESS, ht) }
      | None \<Rightarrow> Some (FAILURE, ht)) }"

text \<open>The loop that destroys and frees the detached element list.\<close>

partial_function (option) free_loop :: "addr option \<Rightarrow> 'v HashTable \<Rightarrow> 'v HashTable option" where
  "free_loop p ht =
     (case p of
        None \<Rightarrow> Some ht
      | Some q \<Rightarrow>
          (case heap ht q of
             None \<Rightarrow> None
           | Some b \<Rightarrow>
               free_loop (b_pListNext b)
                 ((call_destructor (b_pData b) ht)\<lparr>heap := (heap ht)(q := None)\<rparr>)))"

definition zend_hash_clean :: "'v HashTable \<Rightarrow> 'v HashTable option" where
  "zend_hash_clean ht =
     free_loop (pListHead ht)
       (ht\<lparr>arBuckets := (if nTableMask ht \<noteq> 0 then replicate (unat (nTableSize ht)) None
                         else arBuckets ht),
           pListHead := None, pListTail := None, nNumOfElements := 0,
           nNextFreeElement := 0, pInternalPointer := None\<rparr>)"

definition zend_hash_destroy :: "'v HashTable \<Rightarrow> 'v HashTable option" where
  "zend_hash_destroy ht = do {
     ht' \<leftarrow> free_loop (pListHead ht) ht;
     Some (if nTableMask ht \<noteq> 0 then ht'\<lparr>arBuckets := []\<rparr> else ht') }"

partial_function (option) graceful_loop :: "'v HashTable \<Rightarrow> 'v HashTable option" where
  "graceful_loop ht =
     (case pListHead ht of
        None \<Rightarrow> Some ht
      | Some p \<Rightarrow> (case zend_hash_bucket_delete ht p of None \<Rightarrow> None | Some ht' \<Rightarrow> graceful_loop ht'))"

definition zend_hash_graceful_destroy :: "'v HashTable \<Rightarrow> 'v HashTable option" where
  "zend_hash_graceful_destroy ht = do {
     ht' \<leftarrow> graceful_loop ht;
     Some (if nTableMask ht' \<noteq> 0 then ht'\<lparr>arBuckets := []\<rparr> else ht') }"

section \<open>Lookup\<close>

definition zend_hash_quick_find :: "'v HashTable \<Rightarrow> string \<Rightarrow> ulong \<Rightarrow> 'v option option" where
  "zend_hash_quick_find ht arKey h = do {
     p \<leftarrow> hash_lookup ht h arKey;
     (case p of
        None \<Rightarrow> Some None
      | Some a \<Rightarrow> do { b \<leftarrow> heap ht a; Some (Some (b_pData b)) }) }"

definition zend_hash_find :: "'v HashTable \<Rightarrow> string \<Rightarrow> 'v option option" where
  "zend_hash_find ht arKey = zend_hash_quick_find ht arKey (zend_inline_hash_func arKey)"

definition zend_hash_index_find :: "'v HashTable \<Rightarrow> ulong \<Rightarrow> 'v option option" where
  "zend_hash_index_find ht h = zend_hash_quick_find ht [] h"

definition zend_hash_quick_exists :: "'v HashTable \<Rightarrow> string \<Rightarrow> ulong \<Rightarrow> bool option" where
  "zend_hash_quick_exists ht arKey h = do {
     p \<leftarrow> hash_lookup ht h arKey;
     Some (p \<noteq> None) }"

definition zend_hash_exists :: "'v HashTable \<Rightarrow> string \<Rightarrow> bool option" where
  "zend_hash_exists ht arKey = zend_hash_quick_exists ht arKey (zend_inline_hash_func arKey)"

definition zend_hash_index_exists :: "'v HashTable \<Rightarrow> ulong \<Rightarrow> bool option" where
  "zend_hash_index_exists ht h = zend_hash_quick_exists ht [] h"

definition zend_hash_num_elements :: "'v HashTable \<Rightarrow> uint" where
  "zend_hash_num_elements ht = nNumOfElements ht"

definition zend_hash_next_free_element :: "'v HashTable \<Rightarrow> ulong" where
  "zend_hash_next_free_element ht = nNextFreeElement ht"

section \<open>Traversal with an external position\<close>

type_synonym HashPosition = "addr option"

datatype hash_key = HKStr string | HKIdx ulong

definition zend_hash_internal_pointer_reset_ex :: "'v HashTable \<Rightarrow> HashPosition" where
  "zend_hash_internal_pointer_reset_ex ht = pListHead ht"

definition zend_hash_internal_pointer_end_ex :: "'v HashTable \<Rightarrow> HashPosition" where
  "zend_hash_internal_pointer_end_ex ht = pListTail ht"

definition zend_hash_move_forward_ex ::
  "'v HashTable \<Rightarrow> HashPosition \<Rightarrow> (zresult \<times> HashPosition) option" where
  "zend_hash_move_forward_ex ht current =
     (case current of
        None \<Rightarrow> Some (FAILURE, current)
      | Some a \<Rightarrow> do { b \<leftarrow> heap ht a; Some (SUCCESS, b_pListNext b) })"

definition zend_hash_move_backwards_ex ::
  "'v HashTable \<Rightarrow> HashPosition \<Rightarrow> (zresult \<times> HashPosition) option" where
  "zend_hash_move_backwards_ex ht current =
     (case current of
        None \<Rightarrow> Some (FAILURE, current)
      | Some a \<Rightarrow> do { b \<leftarrow> heap ht a; Some (SUCCESS, b_pListLast b) })"

text \<open>\<open>HASH_KEY_NON_EXISTENT\<close> is \<open>Some None\<close>.\<close>

definition zend_hash_get_current_key_ex ::
  "'v HashTable \<Rightarrow> HashPosition \<Rightarrow> hash_key option option" where
  "zend_hash_get_current_key_ex ht pos =
     (case pos of
        None \<Rightarrow> Some None
      | Some a \<Rightarrow>
          do { b \<leftarrow> heap ht a;
               Some (Some (if b_arKey b \<noteq> [] then HKStr (b_arKey b) else HKIdx (b_h b))) })"

definition zend_hash_get_current_data_ex ::
  "'v HashTable \<Rightarrow> HashPosition \<Rightarrow> 'v option option" where
  "zend_hash_get_current_data_ex ht pos =
     (case pos of
        None \<Rightarrow> Some None
      | Some a \<Rightarrow> do { b \<leftarrow> heap ht a; Some (Some (b_pData b)) })"

declare chain_find.simps [code] rehash_loop.simps [code] free_loop.simps [code] graceful_loop.simps [code]

section \<open>Well-formed tables\<close>

text \<open>The link fields of a heap, read as functions on addresses.\<close>

definition link :: "('v Bucket \<Rightarrow> addr option) \<Rightarrow> (addr \<Rightarrow> 'v Bucket option) \<Rightarrow> addr \<Rightarrow> addr option" where
  "link f hp a = Option.bind (hp a) f"

text \<open>The key of the bucket at an address: its hash and its key bytes.\<close>

type_synonym bkey = "ulong \<times> string"

definition bucket_key :: "(addr \<Rightarrow> 'v Bucket option) \<Rightarrow> addr \<Rightarrow> bkey" where
  "bucket_key hp a = (case hp a of None \<Rightarrow> (0, []) | Some b \<Rightarrow> (b_h b, b_arKey b))"

definition bucket_entry :: "(addr \<Rightarrow> 'v Bucket option) \<Rightarrow> addr \<Rightarrow> bkey \<times> 'v" where
  "bucket_entry hp a = (bucket_key hp a, b_pData (the (hp a)))"

definition ht_entries :: "'v HashTable \<Rightarrow> addr list \<Rightarrow> (bkey \<times> 'v) list" where
  "ht_entries ht gs = map (bucket_entry (heap ht)) gs"

text \<open>The global element list holds exactly the allocated buckets, in the order \<open>gs\<close>.\<close>

definition global_ok :: "'v HashTable \<Rightarrow> addr list \<Rightarrow> bool" where
  "global_ok ht gs \<longleftrightarrow>
     dll (link b_pListNext (heap ht)) (link b_pListLast (heap ht)) (pListHead ht) (pListTail ht) gs
     \<and> (\<forall>a. heap ht a \<noteq> None \<longleftrightarrow> a \<in> set gs)
     \<and> (\<forall>a \<in> set gs. a < brk ht)"

text \<open>Collision chain \<open>i\<close> links, in the order \<open>cs i\<close>, the buckets of \<open>S\<close> whose hash selects it.\<close>

definition chain_ok :: "'v HashTable \<Rightarrow> addr set \<Rightarrow> (nat \<Rightarrow> addr list) \<Rightarrow> bool" where
  "chain_ok ht S cs \<longleftrightarrow>
     (\<forall>i < length (arBuckets ht).
        arBuckets ht ! i = head_opt (cs i)
        \<and> lseg (link b_pNext (heap ht)) (link b_pLast (heap ht)) None (cs i)
        \<and> distinct (cs i)
        \<and> set (cs i) = {a \<in> S. bucket_index ht (fst (bucket_key (heap ht) a)) = i})"

definition table_ok :: "'v HashTable \<Rightarrow> addr list \<Rightarrow> bool" where
  "table_ok ht gs \<longleftrightarrow>
     length (arBuckets ht) = Suc (unat (nTableMask ht)) \<and> 1 < nTableSize ht
     \<and> (if nTableMask ht = 0 then gs = [] else nTableMask ht = nTableSize ht - 1)"

definition ht_rep :: "'v HashTable \<Rightarrow> addr list \<Rightarrow> (nat \<Rightarrow> addr list) \<Rightarrow> bool" where
  "ht_rep ht gs cs \<longleftrightarrow>
     global_ok ht gs \<and> chain_ok ht (set gs) cs \<and> table_ok ht gs
     \<and> distinct (map (bucket_key (heap ht)) gs)
     \<and> unat (nNumOfElements ht) = length gs
     \<and> (\<forall>a. pInternalPointer ht = Some a \<longrightarrow> a \<in> set gs)"

definition ht_inv :: "'v HashTable \<Rightarrow> bool" where
  "ht_inv ht \<longleftrightarrow> (\<exists>gs cs. ht_rep ht gs cs)"

section \<open>Facts on the primitives\<close>

lemma zend_inline_hash_func_fold: "zend_inline_hash_func s = foldl hash_step 5381 s"
proof -
  have "hash_unrolled h s = foldl hash_step h s" for h
    by (induction h s rule: hash_unrolled.induct) simp_all
  then show ?thesis by (simp add: zend_inline_hash_func_def)
qed

lemma bucket_index_bound: "table_ok ht gs \<Longrightarrow> bucket_index ht h < length (arBuckets ht)"
proof -
  assume "table_ok ht gs"
  moreover have "unat ((ucast h :: uint) AND nTableMask ht) \<le> unat (nTableMask ht)"
    using word_and_le1 [of "ucast h :: uint" "nTableMask ht"] by (simp add: word_le_nat_alt and.commute)
  ultimately show ?thesis by (simp add: bucket_index_def table_ok_def)
qed

lemma bucket_index_cong: "nTableMask ht = nTableMask ht' \<Longrightarrow> bucket_index ht = bucket_index ht'"
  by (simp add: bucket_index_def fun_eq_iff)

lemma chain_find_lseg:
  assumes "lseg (link b_pNext hp) pv p xs" and "\<forall>a \<in> set xs. hp a \<noteq> None"
  shows "chain_find hp match (head_opt xs) = Some (find (\<lambda>a. match (the (hp a))) xs)"
  using assms
proof (induction xs arbitrary: p)
  case Nil
  then show ?case by (simp add: chain_find.simps)
next
  case (Cons a xs)
  then obtain b where b: "hp a = Some b" by auto
  with Cons.prems have "b_pNext b = head_opt xs" by (simp add: link_def)
  with Cons.prems Cons.IH [of "Some a"] b show ?case
    by (simp add: chain_find.simps [of hp match "Some a"])
qed

lemma hash_lookup_spec [consumes 1, case_names found missing]:
  assumes "ht_rep ht gs cs"
  obtains (found) a where "hash_lookup ht h k = Some (Some a)" "a \<in> set gs"
      "bucket_key (heap ht) a = (h, k)" "a \<in> set (cs (bucket_index ht h))"
  | (missing) "hash_lookup ht h k = Some None" "\<forall>a \<in> set gs. bucket_key (heap ht) a \<noteq> (h, k)"
proof -
  let ?i = "bucket_index ht h" and ?P = "\<lambda>b. b_h b = h \<and> b_arKey b = k"
  from assms have i: "?i < length (arBuckets ht)"
    using bucket_index_bound by (auto simp: ht_rep_def)
  from assms i have head: "arBuckets ht ! ?i = head_opt (cs ?i)"
    and seg: "lseg (link b_pNext (heap ht)) (link b_pLast (heap ht)) None (cs ?i)"
    and cset: "set (cs ?i) = {a \<in> set gs. bucket_index ht (fst (bucket_key (heap ht) a)) = ?i}"
    and dom: "\<forall>a. heap ht a \<noteq> None \<longleftrightarrow> a \<in> set gs"
    by (auto simp: ht_rep_def chain_ok_def global_ok_def)
  have key: "bucket_key (heap ht) a = (h, k) \<longleftrightarrow> ?P (the (heap ht a))" if "a \<in> set gs" for a
  proof -
    from dom that obtain b where "heap ht a = Some b" by blast
    then show ?thesis by (simp add: bucket_key_def)
  qed
  have eq: "hash_lookup ht h k = Some (find (\<lambda>a. ?P (the (heap ht a))) (cs ?i))"
    unfolding hash_lookup_def bucket_head_def
    using i head chain_find_lseg [OF seg, of ?P] cset dom by simp
  show thesis
  proof (cases "find (\<lambda>a. ?P (the (heap ht a))) (cs ?i)")
    case None
    then have "\<forall>a \<in> set (cs ?i). \<not> ?P (the (heap ht a))" by (auto simp: find_None_iff)
    then have "\<forall>a \<in> set gs. bucket_key (heap ht) a \<noteq> (h, k)"
      using cset key by (metis (mono_tags, lifting) fst_conv mem_Collect_eq)
    with None eq show thesis by (simp add: missing)
  next
    case (Some a)
    then have "a \<in> set (cs ?i)" "?P (the (heap ht a))"
      by (auto simp: find_Some_iff intro: nth_mem)
    with cset key Some eq show thesis by (auto intro!: found)
  qed
qed

section \<open>Linking a bucket into its chain\<close>

text \<open>What pushing \<open>a\<close> in front of chain \<open>i\<close> does to the heap.\<close>

definition chain_pushed :: "addr \<Rightarrow> addr option \<Rightarrow> (addr \<Rightarrow> 'v Bucket option) \<Rightarrow> addr \<Rightarrow> 'v Bucket option" where
  "chain_pushed a p0 hp x =
     map_option (\<lambda>b. b\<lparr>b_pNext := if x = a then p0 else b_pNext b,
                       b_pLast := if x = a then None else if p0 = Some x then Some a else b_pLast b\<rparr>)
       (hp x)"

lemma connect_to_bucket_dllist_eq:
  assumes "i < length (arBuckets ht)" and "heap ht a \<noteq> None"
    and "\<forall>x. arBuckets ht ! i = Some x \<longrightarrow> heap ht x \<noteq> None \<and> x \<noteq> a"
  shows "connect_to_bucket_dllist a i ht =
    Some (ht\<lparr>heap := chain_pushed a (arBuckets ht ! i) (heap ht),
             arBuckets := (arBuckets ht)[i := Some a]\<rparr>)"
proof (cases "arBuckets ht ! i")
  case None
  obtain b where "heap ht a = Some b" using assms(2) by blast
  with None assms(1) show ?thesis
    by (auto simp: connect_to_bucket_dllist_def bucket_head_def set_bucket_def set_bucket_opt_def
        chain_pushed_def fun_eq_iff option.map_ident)
next
  case (Some y)
  with assms(3) obtain c where "heap ht y = Some c" "y \<noteq> a" by blast
  moreover obtain b where "heap ht a = Some b" using assms(2) by blast
  ultimately show ?thesis
    using Some assms(1)
    by (auto simp: connect_to_bucket_dllist_def bucket_head_def set_bucket_def set_bucket_opt_def
        chain_pushed_def fun_eq_iff option.map_ident)
qed

lemma chain_pushed_None [simp]: "chain_pushed a p0 hp x = None \<longleftrightarrow> hp x = None"
  by (simp add: chain_pushed_def)

lemma chain_pushed_keys [simp]:
  "bucket_key (chain_pushed a p0 hp) x = bucket_key hp x"
  "link b_pListNext (chain_pushed a p0 hp) x = link b_pListNext hp x"
  "link b_pListLast (chain_pushed a p0 hp) x = link b_pListLast hp x"
  by (cases "hp x"; simp add: chain_pushed_def bucket_key_def link_def)+

lemma chain_pushed_data: "hp x \<noteq> None \<Longrightarrow> b_pData (the (chain_pushed a p0 hp x)) = b_pData (the (hp x))"
  by (auto simp: chain_pushed_def)

lemma chain_pushed_links:
  "hp x \<noteq> None \<Longrightarrow> link b_pNext (chain_pushed a p0 hp) x = (if x = a then p0 else link b_pNext hp x)"
  "hp x \<noteq> None \<Longrightarrow> link b_pLast (chain_pushed a p0 hp) x =
     (if x = a then None else if p0 = Some x then Some a else link b_pLast hp x)"
  by (auto simp: chain_pushed_def link_def)

lemma chain_ok_push:
  assumes ok: "chain_ok ht S cs" and a: "a \<notin> S" "heap ht a \<noteq> None"
    and dom: "\<forall>x \<in> S. heap ht x \<noteq> None"
    and i: "i = bucket_index ht (fst (bucket_key (heap ht) a))" "i < length (arBuckets ht)"
  shows "connect_to_bucket_dllist a i ht =
      Some (ht\<lparr>heap := chain_pushed a (head_opt (cs i)) (heap ht),
               arBuckets := (arBuckets ht)[i := Some a]\<rparr>)"
    and "chain_ok (ht\<lparr>heap := chain_pushed a (head_opt (cs i)) (heap ht),
               arBuckets := (arBuckets ht)[i := Some a]\<rparr>) (insert a S) (cs(i := a # cs i))"
proof -
  have ci: "arBuckets ht ! j = head_opt (cs j)"
    "lseg (link b_pNext (heap ht)) (link b_pLast (heap ht)) None (cs j)"
    "distinct (cs j)"
    "set (cs j) = {x \<in> S. bucket_index ht (fst (bucket_key (heap ht) x)) = j}"
    if "j < length (arBuckets ht)" for j
    using ok that by (auto simp: chain_ok_def)
  have "heap ht x \<noteq> None \<and> x \<noteq> a" if "head_opt (cs i) = Some x" for x
    using head_opt_in [OF that] ci(4) [OF i(2)] dom a by auto
  then show "connect_to_bucket_dllist a i ht =
      Some (ht\<lparr>heap := chain_pushed a (head_opt (cs i)) (heap ht),
               arBuckets := (arBuckets ht)[i := Some a]\<rparr>)"
    using connect_to_bucket_dllist_eq [OF i(2) a(2)] ci(1) [OF i(2)] by simp
  let ?hp = "chain_pushed a (head_opt (cs i)) (heap ht)"
  let ?ht = "ht\<lparr>heap := ?hp, arBuckets := (arBuckets ht)[i := Some a]\<rparr>"
  have idx: "bucket_index ?ht = bucket_index ht" by (rule bucket_index_cong) simp
  have "lseg (link b_pNext ?hp) (link b_pLast ?hp) None (cs j)"
    if j: "j < length (arBuckets ht)" "j \<noteq> i" for j
  proof -
    have "x \<noteq> a \<and> head_opt (cs i) \<noteq> Some x \<and> heap ht x \<noteq> None" if "x \<in> set (cs j)" for x
      using that ci(4) [OF j(1)] ci(4) [OF i(2)] j(2) a dom head_opt_in by fastforce
    then have "lseg (link b_pNext ?hp) (link b_pLast ?hp) None (cs j)
        = lseg (link b_pNext (heap ht)) (link b_pLast (heap ht)) None (cs j)"
      by (intro lseg_cong) (auto simp: chain_pushed_links)
    with ci(2) [OF j(1)] show ?thesis by simp
  qed
  moreover have "lseg (link b_pNext ?hp) (link b_pLast ?hp) None (a # cs i)"
  proof (rule lseg_push [OF ci(2) [OF i(2)] _ ci(3) [OF i(2)]])
    show "a \<notin> set (cs i)" using ci(4) [OF i(2)] a by simp
  qed (use ci(4) [OF i(2)] a dom in \<open>auto simp: chain_pushed_links\<close>)
  ultimately show "chain_ok ?ht (insert a S) (cs(i := a # cs i))"
    using ci a i unfolding chain_ok_def idx by (auto simp: nth_list_update)
qed

section \<open>Rehashing and growing\<close>

text \<open>Two tables that differ only in their chains.\<close>

definition same_but_chains :: "'v HashTable \<Rightarrow> 'v HashTable \<Rightarrow> bool" where
  "same_but_chains ht ht' \<longleftrightarrow>
     ht'\<lparr>heap := heap ht, arBuckets := arBuckets ht\<rparr> = ht
     \<and> length (arBuckets ht') = length (arBuckets ht)
     \<and> (\<forall>x. (heap ht' x = None \<longleftrightarrow> heap ht x = None)
          \<and> bucket_key (heap ht') x = bucket_key (heap ht) x
          \<and> link b_pListNext (heap ht') x = link b_pListNext (heap ht) x
          \<and> link b_pListLast (heap ht') x = link b_pListLast (heap ht) x
          \<and> (heap ht x \<noteq> None \<longrightarrow> b_pData (the (heap ht' x)) = b_pData (the (heap ht x))))"

lemma same_but_chains_refl: "same_but_chains ht ht"
  by (simp add: same_but_chains_def)

lemma same_but_chains_fields:
  assumes "same_but_chains ht ht'"
  shows "nTableSize ht' = nTableSize ht" "nTableMask ht' = nTableMask ht"
    "nNumOfElements ht' = nNumOfElements ht" "nNextFreeElement ht' = nNextFreeElement ht"
    "pInternalPointer ht' = pInternalPointer ht" "pListHead ht' = pListHead ht"
    "pListTail ht' = pListTail ht" "pDestructor ht' = pDestructor ht" "brk ht' = brk ht"
    "destroyed ht' = destroyed ht"
  using assms unfolding same_but_chains_def
  by (cases ht; cases ht'; simp)+

lemma same_but_chains_trans:
  assumes "same_but_chains a b" and "same_but_chains b c"
  shows "same_but_chains a c"
  using assms unfolding same_but_chains_def
  by (cases a; cases b; cases c) simp

lemma same_but_chains_push:
  "same_but_chains ht (ht\<lparr>heap := chain_pushed a p0 (heap ht), arBuckets := (arBuckets ht)[i := x]\<rparr>)"
  by (simp add: same_but_chains_def chain_pushed_data)

lemma same_but_chains_entries:
  assumes "same_but_chains ht ht'" and "\<forall>a \<in> set gs. heap ht a \<noteq> None"
  shows "ht_entries ht' gs = ht_entries ht gs"
  using assms by (auto simp: ht_entries_def bucket_entry_def same_but_chains_def)

lemma same_but_chains_global:
  assumes "same_but_chains ht ht'" and "global_ok ht gs"
  shows "global_ok ht' gs"
proof -
  have "link b_pListNext (heap ht') = link b_pListNext (heap ht)"
    "link b_pListLast (heap ht') = link b_pListLast (heap ht)"
    using assms(1) by (auto simp: same_but_chains_def)
  with assms same_but_chains_fields [OF assms(1)] show ?thesis
    by (simp add: global_ok_def same_but_chains_def)
qed

lemma bucket_index_in_range:
  "length (arBuckets ht) = Suc (unat (nTableMask ht)) \<Longrightarrow> bucket_index ht h < length (arBuckets ht)"
  using word_and_le1 [of "ucast h :: uint" "nTableMask ht"]
  by (simp add: bucket_index_def word_le_nat_alt and.commute)

lemma rehash_loop_ok:
  assumes "lseg (link b_pListNext (heap ht)) (link b_pListLast (heap ht)) p ys"
    and "chain_ok ht S cs" and "S \<inter> set ys = {}" and "distinct ys"
    and "\<forall>x \<in> S \<union> set ys. heap ht x \<noteq> None"
    and "length (arBuckets ht) = Suc (unat (nTableMask ht))"
  shows "\<exists>ht' cs'. rehash_loop (head_opt ys) ht = Some ht'
    \<and> chain_ok ht' (S \<union> set ys) cs' \<and> same_but_chains ht ht'"
  using assms
proof (induction ys arbitrary: ht p S cs)
  case Nil
  then show ?case by (auto simp: rehash_loop.simps same_but_chains_refl)
next
  case (Cons a ys)
  obtain b where b: "heap ht a = Some b" using Cons.prems(5) by auto
  let ?i = "bucket_index ht (b_h b)"
  let ?ht = "ht\<lparr>heap := chain_pushed a (head_opt (cs ?i)) (heap ht),
               arBuckets := (arBuckets ht)[?i := Some a]\<rparr>"
  have key: "fst (bucket_key (heap ht) a) = b_h b" by (simp add: bucket_key_def b)
  have rng: "?i < length (arBuckets ht)" by (rule bucket_index_in_range [OF Cons.prems(6)])
  have push: "connect_to_bucket_dllist a ?i ht = Some ?ht"
    "chain_ok ?ht (insert a S) (cs(?i := a # cs ?i))"
    using chain_ok_push [OF Cons.prems(2), of a ?i] Cons.prems(3,5) b key rng
    by auto
  have nxt: "b_pListNext b = head_opt ys"
    using Cons.prems(1) b by (simp add: link_def)
  have "lseg (link b_pListNext (heap ?ht)) (link b_pListLast (heap ?ht)) (Some a) ys
      = lseg (link b_pListNext (heap ht)) (link b_pListLast (heap ht)) (Some a) ys"
    by (intro lseg_cong) simp
  then obtain ht' cs' where "rehash_loop (head_opt ys) ?ht = Some ht'"
    "chain_ok ht' (insert a S \<union> set ys) cs'" "same_but_chains ?ht ht'"
    using Cons.IH [OF _ push(2), of "Some a"] Cons.prems by auto
  moreover have "rehash_loop (head_opt (a # ys)) ht = rehash_loop (head_opt ys) ?ht"
    using b push(1) nxt by (simp add: rehash_loop.simps [of "Some a"])
  ultimately show ?case
    using same_but_chains_trans [OF same_but_chains_push] by auto
qed

lemma chain_ok_empty: "chain_ok (ht\<lparr>arBuckets := replicate n None\<rparr>) {} (\<lambda>_. [])"
  by (simp add: chain_ok_def)

text \<open>What a client can observe of a table, besides its size.\<close>

definition ht_view :: "'v HashTable \<Rightarrow> addr list \<Rightarrow>
    (bkey \<times> 'v) list \<times> addr option \<times> ulong \<times> bool \<times> 'v list" where
  "ht_view ht gs = (ht_entries ht gs, pInternalPointer ht, nNextFreeElement ht,
     pDestructor ht, destroyed ht)"

lemma same_but_chains_view:
  assumes "same_but_chains ht ht'" and "\<forall>a \<in> set gs. heap ht a \<noteq> None"
  shows "ht_view ht' gs = ht_view ht gs"
  using same_but_chains_entries [OF assms] same_but_chains_fields [OF assms(1)]
  by (simp add: ht_view_def)

lemma global_ok_dom: "global_ok ht gs \<Longrightarrow> \<forall>a \<in> set gs. heap ht a \<noteq> None"
  by (simp add: global_ok_def)

lemma unat_pred: "0 < (n::uint) \<Longrightarrow> unat n = Suc (unat (n - 1))"
  by (simp add: unat_minus_one unat_gt_0)

lemma word_gt_1: "0 < (n::uint) \<Longrightarrow> n \<noteq> 1 \<Longrightarrow> 1 < n"
  by (metis word_less_1 word_not_simps(1) linorder_less_linear)

lemma zend_hash_do_resize_ok:
  assumes rep: "ht_rep ht gs cs" and ne: "gs \<noteq> []"
  shows "\<exists>ht' cs'. zend_hash_do_resize ht = Some ht' \<and> ht_rep ht' gs cs' \<and> ht_view ht' gs = ht_view ht gs"
proof (cases "0 < push_bit 1 (nTableSize ht)")
  case False
  with rep show ?thesis by (auto simp: zend_hash_do_resize_def Let_def)
next
  case True
  define n where "n = push_bit 1 (nTableSize ht)"
  have "even n" by (simp add: n_def even_push_bit_iff)
  then have "n \<noteq> 1" by (metis odd_one)
  with True have two: "1 < n" unfolding n_def by (rule word_gt_1)
  define ht0 where "ht0 = ht\<lparr>arBuckets := arBuckets ht @ replicate (unat n - length (arBuckets ht)) None,
                 nTableSize := n, nTableMask := n - 1\<rparr>"
  define ht1 where "ht1 = ht0\<lparr>arBuckets := replicate (unat n) None\<rparr>"
  have g: "global_ok ht gs" using rep by (simp add: ht_rep_def)
  then have g1: "global_ok ht1 gs" by (simp add: global_ok_def ht1_def ht0_def)
  have len: "length (arBuckets ht1) = Suc (unat (nTableMask ht1))"
    using unat_pred [of n] True by (simp add: ht1_def ht0_def n_def)
  have cnt: "nNumOfElements ht0 \<noteq> 0" using rep ne by (auto simp: ht_rep_def ht0_def)
  have "chain_ok ht1 {} (\<lambda>_. [])" unfolding ht1_def by (rule chain_ok_empty)
  then obtain ht' cs' where loop: "rehash_loop (head_opt gs) ht1 = Some ht'"
    "chain_ok ht' ({} \<union> set gs) cs'" "same_but_chains ht1 ht'"
    using rehash_loop_ok [of ht1 None gs "{}" "\<lambda>_. []"] g1 len
    by (auto simp: global_ok_def dll_def)
  have "zend_hash_do_resize ht = zend_hash_rehash ht0"
    using True by (simp add: zend_hash_do_resize_def Let_def ht0_def n_def)
  also have "\<dots> = rehash_loop (pListHead ht0) ht1"
    using cnt by (simp add: zend_hash_rehash_def ht1_def ht0_def)
  also have "\<dots> = Some ht'"
    using loop(1) g by (simp add: ht0_def global_ok_def dll_def)
  finally have "zend_hash_do_resize ht = Some ht'" .
  moreover have "global_ok ht' gs" using same_but_chains_global [OF loop(3) g1] .
  moreover have "ht_view ht' gs = ht_view ht gs"
    using same_but_chains_view [OF loop(3) global_ok_dom [OF g1]]
    by (simp add: ht_view_def ht_entries_def ht1_def ht0_def)
  moreover have "bucket_key (heap ht') = bucket_key (heap ht)"
    using loop(3) by (auto simp: same_but_chains_def ht1_def ht0_def)
  moreover have "length (arBuckets ht') = length (arBuckets ht1)"
    using loop(3) by (simp add: same_but_chains_def)
  then have "table_ok ht' gs"
    using same_but_chains_fields [OF loop(3)] len two ne
    by (auto simp: table_ok_def ht1_def ht0_def)
  ultimately show ?thesis
    using rep loop(2) same_but_chains_fields [OF loop(3)]
    by (auto simp: ht_rep_def ht1_def ht0_def)
qed

lemma if_full_do_resize_ok:
  assumes "ht_rep ht gs cs" and "gs \<noteq> []"
  shows "\<exists>ht' cs'. if_full_do_resize ht = Some ht' \<and> ht_rep ht' gs cs' \<and> ht_view ht' gs = ht_view ht gs"
  using zend_hash_do_resize_ok [OF assms] assms by (auto simp: if_full_do_resize_def)

section \<open>Insertion is correct\<close>

text \<open>What appending \<open>a\<close> to the global element list does to the heap.\<close>

definition list_appended :: "addr \<Rightarrow> addr option \<Rightarrow> (addr \<Rightarrow> 'v Bucket option) \<Rightarrow> addr \<Rightarrow> 'v Bucket option" where
  "list_appended a l hp x =
     map_option (\<lambda>b. b\<lparr>b_pListLast := if x = a then l else b_pListLast b,
                       b_pListNext := if x = a then None else if l = Some x then Some a else b_pListNext b\<rparr>)
       (hp x)"

lemma list_appended_None [simp]: "list_appended a l hp x = None \<longleftrightarrow> hp x = None"
  by (simp add: list_appended_def)

lemma list_appended_keys [simp]:
  "bucket_key (list_appended a l hp) x = bucket_key hp x"
  "link b_pNext (list_appended a l hp) x = link b_pNext hp x"
  "link b_pLast (list_appended a l hp) x = link b_pLast hp x"
  by (cases "hp x"; simp add: list_appended_def bucket_key_def link_def)+

lemma list_appended_data: "hp x \<noteq> None \<Longrightarrow> b_pData (the (list_appended a l hp x)) = b_pData (the (hp x))"
  by (auto simp: list_appended_def)

lemma list_appended_links:
  "hp x \<noteq> None \<Longrightarrow> link b_pListLast (list_appended a l hp) x = (if x = a then l else link b_pListLast hp x)"
  "hp x \<noteq> None \<Longrightarrow> link b_pListNext (list_appended a l hp) x =
     (if x = a then None else if l = Some x then Some a else link b_pListNext hp x)"
  by (auto simp: list_appended_def link_def)

lemma connect_to_global_dllist_eq:
  assumes "heap ht a \<noteq> None" and "\<forall>x. pListTail ht = Some x \<longrightarrow> heap ht x \<noteq> None \<and> x \<noteq> a"
  shows "connect_to_global_dllist a ht =
    Some (ht\<lparr>heap := list_appended a (pListTail ht) (heap ht),
             pListHead := (if pListTail ht = None then Some a else pListHead ht),
             pListTail := Some a,
             pInternalPointer := (if pInternalPointer ht = None then Some a
                                  else pInternalPointer ht)\<rparr>)"
proof (cases "pListTail ht")
  case None
  obtain b where "heap ht a = Some b" using assms(1) by blast
  moreover from this None have "list_appended a (pListTail ht) (heap ht)
      = (heap ht)(a \<mapsto> b\<lparr>b_pListLast := None, b_pListNext := None\<rparr>)"
    by (auto simp: list_appended_def fun_eq_iff option.map_ident)
  ultimately show ?thesis
    using None by (simp add: connect_to_global_dllist_def connect_to_global_dllist_ex_def set_bucket_def)
next
  case (Some y)
  with assms(2) obtain c where c: "heap ht y = Some c" "y \<noteq> a" by blast
  obtain b where b: "heap ht a = Some b" using assms(1) by blast
  have "list_appended a (pListTail ht) (heap ht)
      = (heap ht)(a \<mapsto> b\<lparr>b_pListLast := Some y, b_pListNext := None\<rparr>,
                  y \<mapsto> c\<lparr>b_pListNext := Some a\<rparr>)"
    using Some b c by (auto simp: list_appended_def fun_eq_iff option.map_ident)
  with Some b c show ?thesis
    by (simp add: connect_to_global_dllist_def connect_to_global_dllist_ex_def set_bucket_def
        set_bucket_opt_def)
qed

lemma global_ok_append:
  assumes g: "dll (link b_pListNext (heap ht)) (link b_pListLast (heap ht)) (pListHead ht) (pListTail ht) gs"
    and dom: "\<forall>x. heap ht x \<noteq> None \<longleftrightarrow> x \<in> insert a (set gs)" and a: "a \<notin> set gs"
    and brk: "\<forall>x \<in> insert a (set gs). x < brk ht"
  shows "\<exists>ht'. connect_to_global_dllist a ht = Some ht' \<and> global_ok ht' (gs @ [a])
    \<and> heap ht' = list_appended a (last_opt gs) (heap ht)
    \<and> ht' = ht\<lparr>heap := heap ht', pListHead := pListHead ht', pListTail := pListTail ht',
              pInternalPointer := (if pInternalPointer ht = None then Some a else pInternalPointer ht)\<rparr>"
proof -
  have tl: "pListTail ht = last_opt gs" "pListHead ht = head_opt gs" "distinct gs"
    "lseg (link b_pListNext (heap ht)) (link b_pListLast (heap ht)) None gs"
    using g by (auto simp: dll_def)
  have "heap ht x \<noteq> None \<and> x \<noteq> a" if "last_opt gs = Some x" for x
    using last_opt_in [OF that] dom a by blast
  then have eq: "connect_to_global_dllist a ht =
    Some (ht\<lparr>heap := list_appended a (last_opt gs) (heap ht),
             pListHead := (if last_opt gs = None then Some a else head_opt gs),
             pListTail := Some a,
             pInternalPointer := (if pInternalPointer ht = None then Some a
                                  else pInternalPointer ht)\<rparr>)"
    using connect_to_global_dllist_eq [of ht a] dom tl by auto
  have "lseg (link b_pListNext (list_appended a (last_opt gs) (heap ht)))
      (link b_pListLast (list_appended a (last_opt gs) (heap ht))) None (gs @ [a])"
    by (rule lseg_snoc [OF tl(4) a tl(3)]) (use dom a in \<open>auto simp: list_appended_links\<close>)
  then show ?thesis
    unfolding eq using dom brk a tl(3)
    by (auto simp: global_ok_def dll_def head_opt_append simp del: not_None_eq)
qed

lemma chain_ok_list_appended:
  assumes "chain_ok ht S cs" and "heap ht' = list_appended a l (heap ht)"
    and "arBuckets ht' = arBuckets ht" and "nTableMask ht' = nTableMask ht"
  shows "chain_ok ht' S cs"
proof -
  have "link b_pNext (heap ht') = link b_pNext (heap ht)"
    "link b_pLast (heap ht') = link b_pLast (heap ht)"
    "bucket_key (heap ht') = bucket_key (heap ht)"
    by (auto simp: assms(2) fun_eq_iff)
  with assms(1,3) bucket_index_cong [OF assms(4)] show ?thesis by (simp add: chain_ok_def)
qed

lemma check_init_rep:
  assumes "ht_rep ht gs cs"
  shows "\<exists>cs'. ht_rep (check_init ht) gs cs'" and "ht_view (check_init ht) gs = ht_view ht gs"
    and "nTableMask (check_init ht) \<noteq> 0" and "heap (check_init ht) = heap ht"
proof -
  have size: "1 < nTableSize ht" and g: "global_ok ht gs"
    using assms by (auto simp: ht_rep_def table_ok_def)
  then have pos: "0 < nTableSize ht" and ne: "nTableSize ht - 1 \<noteq> 0"
    by (auto simp: word_less_nat_alt unat_gt_0)
  show "ht_view (check_init ht) gs = ht_view ht gs" "heap (check_init ht) = heap ht"
    by (simp_all add: check_init_def ht_view_def ht_entries_def)
  show "nTableMask (check_init ht) \<noteq> 0"
    using ne by (simp add: check_init_def)
  show "\<exists>cs'. ht_rep (check_init ht) gs cs'"
  proof (cases "nTableMask ht = 0")
    case False
    with assms show ?thesis by (auto simp: check_init_def)
  next
    case True
    with assms have gs: "gs = []" by (simp add: ht_rep_def table_ok_def)
    have "ht_rep (check_init ht) [] (\<lambda>_. [])"
      using assms True gs g size ne unat_pred [OF pos]
      by (auto simp: ht_rep_def check_init_def global_ok_def chain_ok_def table_ok_def nth_Cons')
    with gs show ?thesis by blast
  qed
qed

text \<open>A new bucket for \<open>(h, k)\<close>, linked into its chain and the element list, counted.\<close>

definition insert_bucket :: "ulong \<Rightarrow> string \<Rightarrow> 'v \<Rightarrow> 'v HashTable \<Rightarrow> 'v HashTable option" where
  "insert_bucket h k v ht = do {
     let (a, ht) = alloc_bucket h k v ht;
     ht \<leftarrow> connect_to_bucket_dllist a (bucket_index ht h) ht;
     connect_to_global_dllist a ht }"

lemma insert_bucket_ok:
  assumes rep: "ht_rep ht gs cs" and mask: "nTableMask ht \<noteq> 0"
    and new: "\<forall>a \<in> set gs. bucket_key (heap ht) a \<noteq> (h, k)"
    and room: "length gs + 1 < 2 ^ 32"
  shows "\<exists>ht' cs'. insert_bucket h k v ht = Some ht'
    \<and> ht_rep (ht'\<lparr>nNumOfElements := nNumOfElements ht' + 1\<rparr>) (gs @ [brk ht]) cs'
    \<and> ht_entries ht' (gs @ [brk ht]) = ht_entries ht gs @ [((h, k), v)]
    \<and> nNextFreeElement ht' = nNextFreeElement ht \<and> pDestructor ht' = pDestructor ht
    \<and> destroyed ht' = destroyed ht
    \<and> pInternalPointer ht' = (if pInternalPointer ht = None then Some (brk ht)
                               else pInternalPointer ht)"
proof -
  let ?a = "brk ht"
  define b :: "'a Bucket" where "b = \<lparr>b_h = h, b_arKey = k, b_pData = v, b_pListNext = None,
             b_pListLast = None, b_pNext = None, b_pLast = None\<rparr>"
  define ht0 where "ht0 = ht\<lparr>heap := (heap ht)(?a \<mapsto> b), brk := Suc ?a\<rparr>"
  have alloc: "alloc_bucket h k v ht = (?a, ht0)"
    by (simp add: alloc_bucket_def ht0_def b_def)
  have g: "global_ok ht gs" and c: "chain_ok ht (set gs) cs" and t: "table_ok ht gs"
    using rep by (auto simp: ht_rep_def)
  have a: "?a \<notin> set gs" using g by (auto simp: global_ok_def)
  have dom: "heap ht x \<noteq> None \<longleftrightarrow> x \<in> set gs" for x using g by (simp add: global_ok_def)
  have other: "x \<noteq> ?a \<Longrightarrow> heap ht0 x = heap ht x" for x by (simp add: ht0_def)
  have same: "link f (heap ht0) x = link f (heap ht) x" "bucket_key (heap ht0) x = bucket_key (heap ht) x"
    if "x \<in> set gs" for f x
  proof -
    have "x \<noteq> ?a" using a that by auto
    then show "link f (heap ht0) x = link f (heap ht) x"
      "bucket_key (heap ht0) x = bucket_key (heap ht) x"
      using other [of x] by (auto simp: link_def bucket_key_def)
  qed
  have idx: "bucket_index ht0 = bucket_index ht" by (rule bucket_index_cong) (simp add: ht0_def)
  have c0: "chain_ok ht0 (set gs) cs"
  proof -
    have "lseg (link b_pNext (heap ht0)) (link b_pLast (heap ht0)) None (cs i)
        = lseg (link b_pNext (heap ht)) (link b_pLast (heap ht)) None (cs i)"
      if "i < length (arBuckets ht)" for i
      using c that same by (intro lseg_cong) (auto simp: chain_ok_def)
    moreover have "{x \<in> set gs. bucket_index ht0 (fst (bucket_key (heap ht0) x)) = i}
        = {x \<in> set gs. bucket_index ht (fst (bucket_key (heap ht) x)) = i}" for i
      using same idx by auto
    ultimately show ?thesis using c by (simp add: chain_ok_def ht0_def)
  qed
  let ?i = "bucket_index ht0 h"
  have key: "bucket_key (heap ht0) ?a = (h, k)" by (simp add: bucket_key_def ht0_def b_def)
  have rng: "?i < length (arBuckets ht0)"
    using bucket_index_bound [OF t, of h] idx by (simp add: ht0_def)
  define ht1 where "ht1 = ht0\<lparr>heap := chain_pushed ?a (head_opt (cs ?i)) (heap ht0),
               arBuckets := (arBuckets ht0)[?i := Some ?a]\<rparr>"
  have push: "connect_to_bucket_dllist ?a ?i ht0 = Some ht1"
    "chain_ok ht1 (insert ?a (set gs)) (cs(?i := ?a # cs ?i))"
    using chain_ok_push [OF c0 a _ _ _ rng] key other dom a unfolding ht1_def
    by (auto simp: ht0_def)
  have dom1: "heap ht1 x \<noteq> None \<longleftrightarrow> x \<in> insert ?a (set gs)" for x
    using dom [of x] by (auto simp: ht1_def ht0_def simp del: not_None_eq)
  have seg: "dll (link b_pListNext (heap ht1)) (link b_pListLast (heap ht1)) (pListHead ht1) (pListTail ht1) gs"
  proof -
    have "lseg (link b_pListNext (heap ht1)) (link b_pListLast (heap ht1)) None gs
        = lseg (link b_pListNext (heap ht)) (link b_pListLast (heap ht)) None gs"
      by (intro lseg_cong) (simp add: ht1_def same)
    with g show ?thesis by (simp add: global_ok_def dll_def ht1_def ht0_def)
  qed
  have brk1: "\<forall>x \<in> insert ?a (set gs). x < brk ht1"
    using g by (auto simp: global_ok_def ht1_def ht0_def less_SucI)
  obtain ht2 where ht2: "connect_to_global_dllist ?a ht1 = Some ht2" "global_ok ht2 (gs @ [?a])"
    "heap ht2 = list_appended ?a (last_opt gs) (heap ht1)"
    "ht2 = ht1\<lparr>heap := heap ht2, pListHead := pListHead ht2, pListTail := pListTail ht2,
       pInternalPointer := (if pInternalPointer ht1 = None then Some ?a else pInternalPointer ht1)\<rparr>"
    using global_ok_append [OF seg _ a brk1] dom1 by blast
  have f2: "arBuckets ht2 = arBuckets ht1" "nTableMask ht2 = nTableMask ht1"
    "nTableSize ht2 = nTableSize ht1" "nNumOfElements ht2 = nNumOfElements ht1"
    "nNextFreeElement ht2 = nNextFreeElement ht1" "pDestructor ht2 = pDestructor ht1"
    "destroyed ht2 = destroyed ht1"
    "pInternalPointer ht2 = (if pInternalPointer ht1 = None then Some ?a else pInternalPointer ht1)"
    by (subst ht2(4), simp)+
  have c2: "chain_ok ht2 (insert ?a (set gs)) (cs(?i := ?a # cs ?i))"
    by (rule chain_ok_list_appended [OF push(2) ht2(3) f2(1,2)])
  have keys: "map (bucket_key (heap ht2)) (gs @ [?a]) = map (bucket_key (heap ht)) gs @ [(h, k)]"
    using same(2) key by (simp add: ht2(3) ht1_def)
  let ?ht3 = "ht2\<lparr>nNumOfElements := nNumOfElements ht2 + 1\<rparr>"
  have ins: "insert_bucket h k v ht = Some ht2"
    using push(1) ht2(1) by (simp add: insert_bucket_def alloc)
  have g3: "global_ok ?ht3 (gs @ [?a])" using ht2(2) by (simp add: global_ok_def)
  have "chain_ok ?ht3 (insert ?a (set gs)) (cs(?i := ?a # cs ?i))"
    using c2 bucket_index_cong [of ?ht3 ht2] by (simp add: chain_ok_def)
  then have c3: "chain_ok ?ht3 (set (gs @ [?a])) (cs(?i := ?a # cs ?i))" by simp
  have t3: "table_ok ?ht3 (gs @ [?a])"
    using t mask by (simp add: table_ok_def f2 ht1_def ht0_def)
  have d3: "distinct (map (bucket_key (heap ?ht3)) (gs @ [?a]))"
  proof -
    have "distinct (map (bucket_key (heap ht)) gs @ [(h, k)])"
      using rep new by (auto simp: ht_rep_def)
    then show ?thesis unfolding keys [symmetric] by simp
  qed
  have n: "unat (nNumOfElements ht) = length gs" using rep by (simp add: ht_rep_def)
  then have "unat (nNumOfElements ht + 1) = length gs + 1"
    using room by (simp add: unat_word_ariths)
  then have n3: "unat (nNumOfElements ?ht3) = length (gs @ [?a])"
    by (simp add: f2 ht1_def ht0_def)
  have p3: "\<forall>x. pInternalPointer ?ht3 = Some x \<longrightarrow> x \<in> set (gs @ [?a])"
    using rep by (auto simp: f2 ht1_def ht0_def ht_rep_def split: if_splits)
  have rep3: "ht_rep ?ht3 (gs @ [?a]) (cs(?i := ?a # cs ?i))"
    unfolding ht_rep_def using g3 c3 t3 d3 n3 p3 by blast
  have "b_pData (the (heap ht2 x)) = b_pData (the (heap ht0 x))" if "x \<in> insert ?a (set gs)" for x
    using that dom1 [of x] dom [of x]
    by (simp add: ht2(3) ht1_def list_appended_data chain_pushed_data)
  then have "ht_entries ht2 (gs @ [?a]) = ht_entries ht gs @ [((h, k), v)]"
    using same(2) key other a
    by (auto simp: ht_entries_def bucket_entry_def ht2(3) ht1_def ht0_def b_def)
  then show ?thesis using ins rep3 f2 by (auto simp: ht1_def ht0_def)
qed

end
