(* ===== verification/Ordered_Map.thy ===== *)
theory Ordered_Map
  imports PHP_Prelude "HOL-Library.Multiset"
begin

text \<open>
  What a PHP array promises: a finite map whose entries keep the order in which their keys were
  first inserted. The specification is an association list with distinct keys; the interface is a
  locale whose operations may be undefined (\<open>None\<close>), so that an implementation also has to
  show that they never are. The lemmas proved from the interface alone are used by the clients of
  the hash table.
\<close>

section \<open>The specification\<close>

definition om_replace :: "'k \<Rightarrow> 'v \<Rightarrow> ('k \<times> 'v) list \<Rightarrow> ('k \<times> 'v) list" where
  "om_replace k v xs = map (\<lambda>e. if fst e = k then (k, v) else e) xs"

definition om_update :: "'k \<Rightarrow> 'v \<Rightarrow> ('k \<times> 'v) list \<Rightarrow> ('k \<times> 'v) list" where
  "om_update k v xs = (if k \<in> fst ` set xs then om_replace k v xs else xs @ [(k, v)])"

definition om_delete :: "'k \<Rightarrow> ('k \<times> 'v) list \<Rightarrow> ('k \<times> 'v) list" where
  "om_delete k xs = filter (\<lambda>e. fst e \<noteq> k) xs"

lemma map_of_om_update: "map_of (om_update k v xs) = (map_of xs)(k \<mapsto> v)"
proof -
  have r: "map_of (om_replace k v xs) = (\<lambda>x. if x = k \<and> k \<in> fst ` set xs then Some v else map_of xs x)"
    by (induction xs) (auto simp: om_replace_def fun_eq_iff)
  show ?thesis
    by (force simp: om_update_def r fun_eq_iff map_add_def map_of_eq_None_iff [symmetric]
        split: option.splits)
qed

lemma map_of_om_delete: "map_of (om_delete k xs) = (map_of xs)(k := None)"
  by (induction xs) (auto simp: om_delete_def)

lemma om_update_keys:
  "map fst (om_update k v xs) = (if k \<in> fst ` set xs then map fst xs else map fst xs @ [k])"
  by (auto simp: om_update_def om_replace_def)

lemma length_om_update: "length (om_update k v xs) \<le> Suc (length xs)"
  by (simp add: om_update_def om_replace_def)

lemma length_om_delete: "length (om_delete k xs) \<le> length xs"
  by (simp add: om_delete_def)

text \<open>The values a map loses when a key is overwritten or deleted.\<close>

definition om_dropped :: "'k \<Rightarrow> ('k \<times> 'v) list \<Rightarrow> 'v list" where
  "om_dropped k xs = map snd (filter (\<lambda>e. fst e = k) xs)"

lemma om_dropped_distinct:
  "distinct (map fst xs) \<Longrightarrow> om_dropped k xs = (if k \<in> fst ` set xs then [the (map_of xs k)] else [])"
proof (induction xs)
  case (Cons x xs)
  have "filter (\<lambda>e. fst e = fst x) xs = []" using Cons.prems by (simp add: filter_empty_conv) (metis imageI)
  with Cons show ?case by (auto simp: om_dropped_def)
qed (simp add: om_dropped_def)

lemma mset_om_delete: "image_mset snd (mset xs) = mset (om_dropped k xs) + image_mset snd (mset (om_delete k xs))"
  by (induction xs) (auto simp: om_dropped_def om_delete_def)

lemma mset_om_update:
  assumes "distinct (map fst xs)"
  shows "mset (om_dropped k xs) + image_mset snd (mset (om_update k v xs))
    = add_mset v (image_mset snd (mset xs))"
proof (cases "k \<in> fst ` set xs")
  case True
  with assms have "mset (om_dropped k xs) + image_mset snd (mset (om_replace k v xs))
      = add_mset v (image_mset snd (mset xs))"
  proof (induction xs)
    case (Cons x xs)
    show ?case
    proof (cases "fst x = k")
      case True
      with Cons.prems have "k \<notin> fst ` set xs" by auto
      then have "filter (\<lambda>e. fst e = k) xs = []" "om_replace k v xs = xs"
        by (force simp: filter_empty_conv om_replace_def intro: map_idI)+
      with True show ?thesis by (simp add: om_dropped_def om_replace_def)
    next
      case False
      with Cons show ?thesis by (auto simp: om_dropped_def om_replace_def)
    qed
  qed simp
  with True show ?thesis by (simp add: om_update_def)
next
  case False
  then have "om_dropped k xs = []" by (force simp: om_dropped_def filter_empty_conv)
  with False show ?thesis by (simp add: om_update_def)
qed

section \<open>Sequences of operations\<close>

datatype ('k, 'v) map_op = Put 'k 'v | Del 'k

fun om_run :: "('k, 'v) map_op list \<Rightarrow> ('k \<times> 'v) list \<Rightarrow> ('k \<times> 'v) list" where
  "om_run [] es = es"
| "om_run (Put k v # ops) es = om_run ops (om_update k v es)"
| "om_run (Del k # ops) es = om_run ops (om_delete k es)"

fun run_ops ::
  "('k \<Rightarrow> 'v \<Rightarrow> 'm \<Rightarrow> 'm option) \<Rightarrow> ('k \<Rightarrow> 'm \<Rightarrow> 'm option) \<Rightarrow> ('k, 'v) map_op list \<Rightarrow> 'm \<Rightarrow> 'm option"
where
  "run_ops upd del [] m = Some m"
| "run_ops upd del (Put k v # ops) m =
     (case upd k v m of None \<Rightarrow> None | Some m' \<Rightarrow> run_ops upd del ops m')"
| "run_ops upd del (Del k # ops) m =
     (case del k m of None \<Rightarrow> None | Some m' \<Rightarrow> run_ops upd del ops m')"

fun op_key :: "('k, 'v) map_op \<Rightarrow> 'k" where
  "op_key (Put k v) = k"
| "op_key (Del k) = k"

fun put_values :: "('k, 'v) map_op list \<Rightarrow> 'v list" where
  "put_values [] = []"
| "put_values (Put k v # ops) = v # put_values ops"
| "put_values (Del k # ops) = put_values ops"

section \<open>The interface\<close>

text \<open>
  \<open>released m\<close> lists the values the map has given back to their owner so far; \<open>capacity\<close> is the
  number of entries the implementation can hold.
\<close>

locale ordered_map =
  fixes invar :: "'m \<Rightarrow> bool"
    and entries :: "'m \<Rightarrow> ('k \<times> 'v) list option"
    and lookup :: "'k \<Rightarrow> 'm \<Rightarrow> 'v option option"
    and update :: "'k \<Rightarrow> 'v \<Rightarrow> 'm \<Rightarrow> 'm option"
    and delete :: "'k \<Rightarrow> 'm \<Rightarrow> 'm option"
    and released :: "'m \<Rightarrow> 'v list"
    and valid :: "'k \<Rightarrow> bool"
    and capacity :: nat
  assumes entries_defined: "invar m \<Longrightarrow> \<exists>es. entries m = Some es \<and> distinct (map fst es)"
    and lookup_ok: "invar m \<Longrightarrow> valid k \<Longrightarrow> entries m = Some es \<Longrightarrow> lookup k m = Some (map_of es k)"
    and update_ok: "invar m \<Longrightarrow> valid k \<Longrightarrow> entries m = Some es \<Longrightarrow> length es < capacity \<Longrightarrow>
      \<exists>m'. update k v m = Some m' \<and> invar m' \<and> entries m' = Some (om_update k v es)
        \<and> released m' = released m @ om_dropped k es"
    and delete_ok: "invar m \<Longrightarrow> valid k \<Longrightarrow> entries m = Some es \<Longrightarrow>
      \<exists>m'. delete k m = Some m' \<and> invar m' \<and> entries m' = Some (om_delete k es)
        \<and> released m' = released m @ om_dropped k es"
begin

lemma entries_distinct: "invar m \<Longrightarrow> entries m = Some es \<Longrightarrow> distinct (map fst es)"
  using entries_defined by fastforce

lemma run_refines:
  assumes "invar m" "entries m = Some es" "\<forall>p \<in> set ops. valid (op_key p)"
    "length es + length ops \<le> capacity"
  shows "\<exists>m'. run_ops update delete ops m = Some m' \<and> invar m' \<and> entries m' = Some (om_run ops es)"
  using assms
proof (induction ops arbitrary: m es)
  case Nil
  then show ?case by simp
next
  case (Cons p ops)
  show ?case
  proof (cases p)
    case (Put k v)
    then obtain m' where "update k v m = Some m'" "invar m'" "entries m' = Some (om_update k v es)"
      using update_ok [OF Cons.prems(1) _ Cons.prems(2), of k v] Cons.prems by auto
    with Put Cons.prems Cons.IH [of m' "om_update k v es"] length_om_update [of k v es] show ?thesis
      by auto
  next
    case (Del k)
    then obtain m' where "delete k m = Some m'" "invar m'" "entries m' = Some (om_delete k es)"
      using delete_ok [OF Cons.prems(1) _ Cons.prems(2), of k] Cons.prems by auto
    with Del Cons.prems Cons.IH [of m' "om_delete k es"] length_om_delete [of k es] show ?thesis
      by auto
  qed
qed

text \<open>No value is lost and none is given back twice.\<close>

lemma run_conserves:
  assumes "invar m" "entries m = Some es" "\<forall>p \<in> set ops. valid (op_key p)"
    "length es + length ops \<le> capacity" "run_ops update delete ops m = Some m'" "entries m' = Some es'"
  shows "mset (released m') + image_mset snd (mset es')
    = mset (released m) + image_mset snd (mset es) + mset (put_values ops)"
  using assms
proof (induction ops arbitrary: m es)
  case Nil
  then show ?case by simp
next
  case (Cons p ops)
  note d = entries_distinct [OF Cons.prems(1,2)]
  show ?case
  proof (cases p)
    case (Put k v)
    then obtain m1 where m1: "update k v m = Some m1" "invar m1" "entries m1 = Some (om_update k v es)"
      "released m1 = released m @ om_dropped k es"
      using update_ok [OF Cons.prems(1) _ Cons.prems(2), of k v] Cons.prems by auto
    have "mset (released m') + image_mset snd (mset es')
        = mset (released m1) + image_mset snd (mset (om_update k v es)) + mset (put_values ops)"
      using Put m1 Cons.prems length_om_update [of k v es] by (intro Cons.IH) auto
    with m1(4) Put mset_om_update [OF d, of k v] show ?thesis by (simp add: ac_simps)
  next
    case (Del k)
    then obtain m1 where m1: "delete k m = Some m1" "invar m1" "entries m1 = Some (om_delete k es)"
      "released m1 = released m @ om_dropped k es"
      using delete_ok [OF Cons.prems(1) _ Cons.prems(2), of k] Cons.prems by auto
    have "mset (released m') + image_mset snd (mset es')
        = mset (released m1) + image_mset snd (mset (om_delete k es)) + mset (put_values ops)"
      using Del m1 Cons.prems length_om_delete [of k es] by (intro Cons.IH) auto
    with m1(4) Del mset_om_delete [of es k] show ?thesis by (simp add: ac_simps)
  qed
qed

lemma lookup_after_update:
  assumes "invar m" "valid k" "valid k'" "entries m = Some es" "length es < capacity" "update k v m = Some m'"
  shows "lookup k' m' = (if k' = k then Some (Some v) else lookup k' m)"
  using update_ok [OF assms(1,2,4,5), of v] assms lookup_ok
  by (auto simp: map_of_om_update)

lemma lookup_after_delete:
  assumes "invar m" "valid k" "valid k'" "delete k m = Some m'"
  shows "lookup k' m' = (if k' = k then Some None else lookup k' m)"
proof -
  obtain es where "entries m = Some es" using entries_defined [OF assms(1)] by blast
  with delete_ok [OF assms(1,2)] assms lookup_ok show ?thesis
    by (fastforce simp: map_of_om_delete)
qed

end

end
