(* ===== verification/Zend_Hash_Correct.thy ===== *)
theory Zend_Hash_Correct
  imports Zend_Hash Ordered_Map
begin

text \<open>
  Correctness of the hash table: every operation, started on a well-formed table, returns,
  keeps the table well formed and acts on the ordered list of its entries as the
  corresponding operation on association lists (theory Ordered\_Map) does.
\<close>

section \<open>Entries of a table\<close>

lemma ht_entries_keys: "map fst (ht_entries ht gs) = map (bucket_key (heap ht)) gs"
  by (simp add: ht_entries_def bucket_entry_def comp_def)

lemma ht_rep_distinct: "ht_rep ht gs cs \<Longrightarrow> distinct (map fst (ht_entries ht gs))"
  by (simp add: ht_entries_keys ht_rep_def)

lemma ht_entries_mem: "k \<in> fst ` set (ht_entries ht gs) \<longleftrightarrow> (\<exists>a \<in> set gs. bucket_key (heap ht) a = k)"
  by (auto simp: ht_entries_def bucket_entry_def image_iff)

lemma map_of_ht_entries:
  assumes "ht_rep ht gs cs" and "a \<in> set gs" and "bucket_key (heap ht) a = k"
  shows "map_of (ht_entries ht gs) k = Some (b_pData (the (heap ht a)))"
  using assms ht_rep_distinct [OF assms(1)]
  by (intro map_of_is_SomeI) (auto simp: ht_entries_def bucket_entry_def)

lemma map_of_ht_entries_None:
  "\<forall>a \<in> set gs. bucket_key (heap ht) a \<noteq> k \<Longrightarrow> map_of (ht_entries ht gs) k = None"
  by (auto simp: map_of_eq_None_iff ht_entries_mem)

section \<open>Lookup\<close>

lemma quick_find_ok:
  assumes "ht_rep ht gs cs"
  shows "zend_hash_quick_find ht k h = Some (map_of (ht_entries ht gs) (h, k))"
  using assms
proof (cases rule: hash_lookup_spec [where h = h and k = k])
  case (found a)
  moreover have "heap ht a \<noteq> None" using assms found(2) by (simp add: ht_rep_def global_ok_def)
  ultimately show ?thesis
    using map_of_ht_entries [OF assms found(2,3)] by (auto simp: zend_hash_quick_find_def)
next
  case missing
  then show ?thesis
    using map_of_ht_entries_None [of gs ht "(h, k)"] by (simp add: zend_hash_quick_find_def)
qed

lemma quick_exists_ok:
  assumes "ht_rep ht gs cs"
  shows "zend_hash_quick_exists ht k h = Some ((h, k) \<in> fst ` set (ht_entries ht gs))"
  using assms
proof (cases rule: hash_lookup_spec [where h = h and k = k])
  case (found a)
  then show ?thesis by (auto simp: zend_hash_quick_exists_def ht_entries_mem)
next
  case missing
  then show ?thesis by (auto simp: zend_hash_quick_exists_def ht_entries_mem)
qed

section \<open>Replacing a value\<close>

definition data_set :: "addr \<Rightarrow> 'v \<Rightarrow> (addr \<Rightarrow> 'v Bucket option) \<Rightarrow> addr \<Rightarrow> 'v Bucket option" where
  "data_set a v hp x = map_option (\<lambda>b. if x = a then b\<lparr>b_pData := v\<rparr> else b) (hp x)"

lemma data_set_simps [simp]:
  "data_set a v hp x = None \<longleftrightarrow> hp x = None"
  "bucket_key (data_set a v hp) x = bucket_key hp x"
  "link b_pNext (data_set a v hp) x = link b_pNext hp x"
  "link b_pLast (data_set a v hp) x = link b_pLast hp x"
  "link b_pListNext (data_set a v hp) x = link b_pListNext hp x"
  "link b_pListLast (data_set a v hp) x = link b_pListLast hp x"
  by (cases "hp x"; simp add: data_set_def bucket_key_def link_def)+

lemma data_set_data:
  "hp x \<noteq> None \<Longrightarrow> b_pData (the (data_set a v hp x)) = (if x = a then v else b_pData (the (hp x)))"
  by (auto simp: data_set_def)

lemma update_data_eq:
  assumes "heap ht a \<noteq> None"
  shows "update_data a v ht = Some (ht\<lparr>heap := data_set a v (heap ht),
    destroyed := destroyed ht @ (if pDestructor ht then [b_pData (the (heap ht a))] else [])\<rparr>)"
proof -
  obtain b where b: "heap ht a = Some b" using assms by blast
  then have "data_set a v (heap ht) = (heap ht)(a \<mapsto> b\<lparr>b_pData := v\<rparr>)"
    by (auto simp: data_set_def fun_eq_iff option.map_ident)
  with b show ?thesis
    by (simp add: update_data_def set_bucket_def call_destructor_def)
qed

lemma ht_rep_cong:
  assumes "ht_rep ht gs cs"
    and "\<And>x. heap ht' x = None \<longleftrightarrow> heap ht x = None"
    and "bucket_key (heap ht') = bucket_key (heap ht)"
    and "link b_pNext (heap ht') = link b_pNext (heap ht)"
    and "link b_pLast (heap ht') = link b_pLast (heap ht)"
    and "link b_pListNext (heap ht') = link b_pListNext (heap ht)"
    and "link b_pListLast (heap ht') = link b_pListLast (heap ht)"
    and "nTableSize ht' = nTableSize ht" "nTableMask ht' = nTableMask ht"
    and "nNumOfElements ht' = nNumOfElements ht" "arBuckets ht' = arBuckets ht"
    and "pListHead ht' = pListHead ht" "pListTail ht' = pListTail ht" "brk ht' = brk ht"
    and "pInternalPointer ht' = pInternalPointer ht"
  shows "ht_rep ht' gs cs"
  using assms bucket_index_cong [OF assms(9)]
  by (simp add: ht_rep_def global_ok_def chain_ok_def table_ok_def)

lemma update_data_ok:
  assumes rep: "ht_rep ht gs cs" and a: "a \<in> set gs" "bucket_key (heap ht) a = k"
  shows "\<exists>ht'. update_data a v ht = Some ht' \<and> ht_rep ht' gs cs
    \<and> ht_entries ht' gs = om_replace k v (ht_entries ht gs)
    \<and> destroyed ht' = destroyed ht @
        (if pDestructor ht then [the (map_of (ht_entries ht gs) k)] else [])
    \<and> nNextFreeElement ht' = nNextFreeElement ht \<and> pDestructor ht' = pDestructor ht"
proof -
  have dom: "\<forall>x \<in> set gs. heap ht x \<noteq> None" using rep by (simp add: ht_rep_def global_ok_def)
  let ?ht = "ht\<lparr>heap := data_set a v (heap ht),
    destroyed := destroyed ht @ (if pDestructor ht then [b_pData (the (heap ht a))] else [])\<rparr>"
  have "ht_rep ?ht gs cs"
    by (rule ht_rep_cong [OF rep]) (auto simp: fun_eq_iff)
  moreover have "bucket_entry (heap ?ht) x
      = (if bucket_key (heap ht) x = k then (k, v) else bucket_entry (heap ht) x)"
    if "x \<in> set gs" for x
  proof -
    have "bucket_key (heap ht) x = k \<longleftrightarrow> x = a"
      using rep a that by (auto simp: ht_rep_def distinct_map inj_on_def)
    with dom that show ?thesis by (auto simp: bucket_entry_def data_set_data)
  qed
  then have "ht_entries ?ht gs = om_replace k v (ht_entries ht gs)"
    by (simp add: ht_entries_def om_replace_def) (simp add: bucket_entry_def)
  ultimately show ?thesis
    using update_data_eq [of ht a v] dom a map_of_ht_entries [OF rep a]
    by (intro exI [of _ ?ht]) auto
qed

section \<open>Adding and updating\<close>

lemma quick_add_or_update_ok:
  assumes rep: "ht_rep ht gs cs" and room: "length gs + 1 < 2 ^ 32" and k: "k \<noteq> []"
  defines "es \<equiv> ht_entries ht gs"
  shows "\<exists>r ht' gs' cs'. zend_hash_quick_add_or_update ht k h v flag = Some (r, ht')
    \<and> ht_rep ht' gs' cs' \<and> pDestructor ht' = pDestructor ht
    \<and> nNextFreeElement ht' = nNextFreeElement ht
    \<and> (if (h, k) \<in> fst ` set es \<and> flag = HASH_ADD
       then r = FAILURE \<and> ht_entries ht' gs' = es \<and> destroyed ht' = destroyed ht
       else r = SUCCESS \<and> ht_entries ht' gs' = om_update (h, k) v es
         \<and> destroyed ht' = destroyed ht @
             (if pDestructor ht \<and> (h, k) \<in> fst ` set es then [the (map_of es (h, k))] else []))"
proof -
  let ?ht0 = "check_init ht"
  obtain cs0 where rep0: "ht_rep ?ht0 gs cs0" using check_init_rep(1) [OF rep] by blast
  have v0: "ht_entries ?ht0 gs = es" "destroyed ?ht0 = destroyed ht" "pDestructor ?ht0 = pDestructor ht"
    "nNextFreeElement ?ht0 = nNextFreeElement ht"
    using check_init_rep(2) [OF rep] by (auto simp: ht_view_def es_def)
  from rep0 show ?thesis
  proof (cases rule: hash_lookup_spec [where h = h and k = k])
    case (found a)
    have mem: "(h, k) \<in> fst ` set es" using found v0(1) ht_entries_mem by metis
    show ?thesis
    proof (cases "flag = HASH_ADD")
      case True
      with found k mem rep0 v0 show ?thesis
        by (auto simp: zend_hash_quick_add_or_update_def)
    next
      case False
      obtain ht' where "update_data a v ?ht0 = Some ht'" "ht_rep ht' gs cs0"
        "ht_entries ht' gs = om_replace (h, k) v es" "pDestructor ht' = pDestructor ht"
        "nNextFreeElement ht' = nNextFreeElement ht"
        "destroyed ht' = destroyed ht @ (if pDestructor ht then [the (map_of es (h, k))] else [])"
        using update_data_ok [OF rep0 found(2,3), of v] v0 by auto
      with found k mem False show ?thesis
        by (auto simp: zend_hash_quick_add_or_update_def om_update_def)
    qed
  next
    case missing
    have mem: "(h, k) \<notin> fst ` set es" using missing v0(1) ht_entries_mem by metis
    let ?gs = "gs @ [brk ?ht0]"
    obtain ht1 cs1 where ins: "insert_bucket h k v ?ht0 = Some ht1"
      "ht_rep (ht1\<lparr>nNumOfElements := nNumOfElements ht1 + 1\<rparr>) ?gs cs1"
      "ht_entries ht1 ?gs = es @ [((h, k), v)]"
      "pDestructor ht1 = pDestructor ht" "destroyed ht1 = destroyed ht"
      "nNextFreeElement ht1 = nNextFreeElement ht"
      using insert_bucket_ok [OF rep0 check_init_rep(3) [OF rep] missing(2) room, of v] v0 by auto
    obtain ht2 cs2 where res: "if_full_do_resize (ht1\<lparr>nNumOfElements := nNumOfElements ht1 + 1\<rparr>) = Some ht2"
      "ht_rep ht2 ?gs cs2" "ht_view ht2 ?gs = ht_view (ht1\<lparr>nNumOfElements := nNumOfElements ht1 + 1\<rparr>) ?gs"
      using if_full_do_resize_ok [OF ins(2)] by auto
    have "zend_hash_quick_add_or_update ht k h v flag = Some (SUCCESS, ht2)"
      using missing k ins(1) res(1)
      by (auto simp: zend_hash_quick_add_or_update_def insert_bucket_def Let_def bind_eq_Some_conv
          split: prod.splits)
    moreover have "ht_entries ht2 ?gs = om_update (h, k) v es" "pDestructor ht2 = pDestructor ht"
      "destroyed ht2 = destroyed ht" "nNextFreeElement ht2 = nNextFreeElement ht"
      using res(3) ins mem by (auto simp: ht_view_def om_update_def ht_entries_def)
    ultimately show ?thesis using res(2) mem by auto
  qed
qed

section \<open>Numeric indices\<close>

text \<open>The index \<open>nNextFreeElement\<close> after storing at \<open>h\<close>.\<close>

definition next_free :: "ulong \<Rightarrow> ulong \<Rightarrow> ulong" where
  "next_free h n =
     (if sint n \<le> sint h
      then if h < 0x7FFFFFFFFFFFFFFF then h + 1 else 0x7FFFFFFFFFFFFFFF else n)"

lemma ht_rep_nfe: "ht_rep (ht\<lparr>nNextFreeElement := n\<rparr>) gs cs \<longleftrightarrow> ht_rep ht gs cs"
  using bucket_index_cong [of "ht\<lparr>nNextFreeElement := n\<rparr>" ht]
  by (simp add: ht_rep_def global_ok_def chain_ok_def table_ok_def)

lemma next_free_after_eq: "next_free_after h ht = ht\<lparr>nNextFreeElement := next_free h (nNextFreeElement ht)\<rparr>"
  by (simp add: next_free_after_def next_free_def)

lemma index_update_or_next_insert_ok:
  fixes h :: ulong and flag :: hash_flag
  assumes rep: "ht_rep ht gs cs" and room: "length gs + 1 < 2 ^ 32"
  defines "es \<equiv> ht_entries ht gs"
    and "i \<equiv> if flag = HASH_NEXT_INSERT then nNextFreeElement ht else h"
  shows "\<exists>r ht' gs' cs'. zend_hash_index_update_or_next_insert ht h v flag = Some (r, ht')
    \<and> ht_rep ht' gs' cs' \<and> pDestructor ht' = pDestructor ht
    \<and> (if (i, []) \<in> fst ` set es
       then nNextFreeElement ht' = nNextFreeElement ht
         \<and> (if flag = HASH_UPDATE
            then r = SUCCESS \<and> ht_entries ht' gs' = om_replace (i, []) v es
              \<and> destroyed ht' = destroyed ht @
                  (if pDestructor ht then [the (map_of es (i, []))] else [])
            else r = FAILURE \<and> ht_entries ht' gs' = es \<and> destroyed ht' = destroyed ht)
       else r = SUCCESS \<and> ht_entries ht' gs' = es @ [((i, []), v)]
         \<and> destroyed ht' = destroyed ht
         \<and> nNextFreeElement ht' = next_free i (nNextFreeElement ht))"
proof -
  let ?ht0 = "check_init ht"
  obtain cs0 where rep0: "ht_rep ?ht0 gs cs0" using check_init_rep(1) [OF rep] by blast
  have v0: "ht_entries ?ht0 gs = es" "destroyed ?ht0 = destroyed ht" "pDestructor ?ht0 = pDestructor ht"
    "nNextFreeElement ?ht0 = nNextFreeElement ht"
    using check_init_rep(2) [OF rep] by (auto simp: ht_view_def es_def)
  have i0: "(if flag = HASH_NEXT_INSERT then nNextFreeElement ?ht0 else h) = i"
    by (simp add: i_def v0)
  from rep0 show ?thesis
  proof (cases rule: hash_lookup_spec [where h = i and k = "[]"])
    case (found a)
    have mem: "(i, []) \<in> fst ` set es" using found v0(1) ht_entries_mem by metis
    show ?thesis
    proof (cases "flag = HASH_UPDATE")
      case False
      then have "flag = HASH_NEXT_INSERT \<or> flag = HASH_ADD" by (cases flag) auto
      with found mem rep0 v0 i0 False show ?thesis
        by (auto simp: zend_hash_index_update_or_next_insert_def Let_def)
    next
      case True
      obtain ht' where "update_data a v ?ht0 = Some ht'" "ht_rep ht' gs cs0"
        "ht_entries ht' gs = om_replace (i, []) v es" "pDestructor ht' = pDestructor ht"
        "nNextFreeElement ht' = nNextFreeElement ht"
        "destroyed ht' = destroyed ht @ (if pDestructor ht then [the (map_of es (i, []))] else [])"
        using update_data_ok [OF rep0 found(2,3), of v] v0 by auto
      with found mem True i0 show ?thesis
        by (auto simp: zend_hash_index_update_or_next_insert_def Let_def)
    qed
  next
    case missing
    have mem: "(i, []) \<notin> fst ` set es" using missing v0(1) ht_entries_mem by metis
    let ?gs = "gs @ [brk ?ht0]"
    obtain ht1 cs1 where ins: "insert_bucket i [] v ?ht0 = Some ht1"
      "ht_rep (ht1\<lparr>nNumOfElements := nNumOfElements ht1 + 1\<rparr>) ?gs cs1"
      "ht_entries ht1 ?gs = es @ [((i, []), v)]"
      "pDestructor ht1 = pDestructor ht" "destroyed ht1 = destroyed ht"
      "nNextFreeElement ht1 = nNextFreeElement ht"
      using insert_bucket_ok [OF rep0 check_init_rep(3) [OF rep] missing(2) room, of v] v0 by auto
    let ?ht2 = "(next_free_after i ht1)\<lparr>nNumOfElements := nNumOfElements (next_free_after i ht1) + 1\<rparr>"
    have "?ht2 = (ht1\<lparr>nNumOfElements := nNumOfElements ht1 + 1\<rparr>)
        \<lparr>nNextFreeElement := next_free i (nNextFreeElement ht1)\<rparr>"
      by (simp add: next_free_after_eq)
    then have rep2: "ht_rep ?ht2 ?gs cs1" using ins(2) ht_rep_nfe by metis
    obtain ht3 cs3 where res: "if_full_do_resize ?ht2 = Some ht3"
      "ht_rep ht3 ?gs cs3" "ht_view ht3 ?gs = ht_view ?ht2 ?gs"
      using if_full_do_resize_ok [OF rep2] by auto
    have "zend_hash_index_update_or_next_insert ht h v flag = Some (SUCCESS, ht3)"
      using missing ins(1) res(1) i0
      by (auto simp: zend_hash_index_update_or_next_insert_def insert_bucket_def Let_def
          bind_eq_Some_conv split: prod.splits)
    moreover have "ht_entries ht3 ?gs = es @ [((i, []), v)]" "pDestructor ht3 = pDestructor ht"
      "destroyed ht3 = destroyed ht"
      "nNextFreeElement ht3 = next_free i (nNextFreeElement ht)"
      using res(3) ins by (auto simp: ht_view_def ht_entries_def next_free_after_eq)
    ultimately show ?thesis using res(2) mem by auto
  qed
qed

section \<open>Deleting a bucket\<close>

text \<open>What unlinking the bucket \<open>b\<close> at \<open>p\<close> does to the rest of the heap.\<close>

definition unlinked :: "'v Bucket \<Rightarrow> (addr \<Rightarrow> 'v Bucket option) \<Rightarrow> addr \<Rightarrow> 'v Bucket option" where
  "unlinked b hp x =
     map_option (\<lambda>c. c\<lparr>b_pNext := if b_pLast b = Some x then b_pNext b else b_pNext c,
                       b_pLast := if b_pNext b = Some x then b_pLast b else b_pLast c,
                       b_pListNext := if b_pListLast b = Some x then b_pListNext b else b_pListNext c,
                       b_pListLast := if b_pListNext b = Some x then b_pListLast b else b_pListLast c\<rparr>)
       (hp x)"

lemma unlinked_simps [simp]:
  "unlinked b hp x = None \<longleftrightarrow> hp x = None"
  "bucket_key (unlinked b hp) x = bucket_key hp x"
  by (cases "hp x"; simp add: unlinked_def bucket_key_def)+

lemma unlinked_data: "hp x \<noteq> None \<Longrightarrow> b_pData (the (unlinked b hp x)) = b_pData (the (hp x))"
  by (auto simp: unlinked_def)

lemma unlinked_links:
  assumes "hp x \<noteq> None"
  shows "link b_pNext (unlinked b hp) x = (if b_pLast b = Some x then b_pNext b else link b_pNext hp x)"
    "link b_pLast (unlinked b hp) x = (if b_pNext b = Some x then b_pLast b else link b_pLast hp x)"
    "link b_pListNext (unlinked b hp) x = (if b_pListLast b = Some x then b_pListNext b else link b_pListNext hp x)"
    "link b_pListLast (unlinked b hp) x = (if b_pListNext b = Some x then b_pListLast b else link b_pListLast hp x)"
  using assms by (auto simp: unlinked_def link_def)

text \<open>A pointer update of the heap, as a function.\<close>

definition heap_map :: "addr option \<Rightarrow> ('v Bucket \<Rightarrow> 'v Bucket) \<Rightarrow> (addr \<Rightarrow> 'v Bucket option) \<Rightarrow> addr \<Rightarrow> 'v Bucket option" where
  "heap_map p f hp x = (if p = Some x then map_option f (hp x) else hp x)"

lemma set_bucket_heap_map:
  "heap ht a \<noteq> None \<Longrightarrow> set_bucket a f ht = Some (ht\<lparr>heap := heap_map (Some a) f (heap ht)\<rparr>)"
proof -
  assume "heap ht a \<noteq> None"
  then obtain b where b: "heap ht a = Some b" by blast
  then have "heap_map (Some a) f (heap ht) = (heap ht)(a \<mapsto> f b)"
    by (auto simp: heap_map_def fun_eq_iff)
  with b show ?thesis by (simp add: set_bucket_def)
qed

lemma heap_map_None [simp]: "heap_map p f hp x = None \<longleftrightarrow> hp x = None" "heap_map None f hp = hp"
  by (auto simp: heap_map_def fun_eq_iff)

lemma set_bucket_opt_heap_map:
  "(\<forall>a. p = Some a \<longrightarrow> heap ht a \<noteq> None) \<Longrightarrow>
    set_bucket_opt p f ht = Some (ht\<lparr>heap := heap_map p f (heap ht)\<rparr>)"
  by (cases p) (auto simp: set_bucket_opt_def set_bucket_heap_map)

lemma unlinked_heap_map:
  "unlinked b hp =
     heap_map (b_pListNext b) (\<lambda>x. x\<lparr>b_pListLast := b_pListLast b\<rparr>)
      (heap_map (b_pListLast b) (\<lambda>x. x\<lparr>b_pListNext := b_pListNext b\<rparr>)
       (heap_map (b_pNext b) (\<lambda>x. x\<lparr>b_pLast := b_pLast b\<rparr>)
        (heap_map (b_pLast b) (\<lambda>x. x\<lparr>b_pNext := b_pNext b\<rparr>) hp)))"
proof
  fix x
  show "unlinked b hp x = heap_map (b_pListNext b) (\<lambda>x. x\<lparr>b_pListLast := b_pListLast b\<rparr>)
      (heap_map (b_pListLast b) (\<lambda>x. x\<lparr>b_pListNext := b_pListNext b\<rparr>)
       (heap_map (b_pNext b) (\<lambda>x. x\<lparr>b_pLast := b_pLast b\<rparr>)
        (heap_map (b_pLast b) (\<lambda>x. x\<lparr>b_pNext := b_pNext b\<rparr>) hp))) x"
    by (cases "hp x") (auto simp: unlinked_def heap_map_def)
qed

definition bucket_deleted :: "addr \<Rightarrow> 'v Bucket \<Rightarrow> 'v HashTable \<Rightarrow> 'v HashTable" where
  "bucket_deleted p b ht = ht\<lparr>
      heap := (unlinked b (heap ht))(p := None),
      arBuckets := (if b_pLast b = None then (arBuckets ht)[bucket_index ht (b_h b) := b_pNext b]
                    else arBuckets ht),
      pListHead := (if b_pListLast b = None then b_pListNext b else pListHead ht),
      pListTail := (if b_pListNext b = None then b_pListLast b else pListTail ht),
      pInternalPointer := (if pInternalPointer ht = Some p then b_pListNext b else pInternalPointer ht),
      nNumOfElements := nNumOfElements ht - 1,
      destroyed := destroyed ht @ (if pDestructor ht then [b_pData b] else [])\<rparr>"

lemma zend_hash_bucket_delete_eq:
  assumes "heap ht p = Some b" and "bucket_index ht (b_h b) < length (arBuckets ht)"
    and "\<forall>x. x \<in> {b_pNext b, b_pLast b, b_pListNext b, b_pListLast b} \<longrightarrow>
          (\<forall>a. x = Some a \<longrightarrow> heap ht a \<noteq> None)"
  shows "zend_hash_bucket_delete ht p = Some (bucket_deleted p b ht)"
proof -
  have n: "b_pNext b = Some a \<Longrightarrow> heap ht a \<noteq> None" "b_pLast b = Some a \<Longrightarrow> heap ht a \<noteq> None"
    "b_pListNext b = Some a \<Longrightarrow> heap ht a \<noteq> None" "b_pListLast b = Some a \<Longrightarrow> heap ht a \<noteq> None" for a
    using assms(3) by auto
  show ?thesis
    unfolding unlinked_heap_map zend_hash_bucket_delete_def bucket_deleted_def
    using assms(1,2) n
    by (cases "b_pLast b"; cases "b_pListLast b"; cases "b_pListNext b")
       (simp_all add: bucket_head_def set_bucket_heap_map set_bucket_opt_heap_map
         call_destructor_def Let_def del: not_None_eq)
qed

lemma link_outside: "x \<noteq> p \<Longrightarrow> link f (hp(p := None)) x = link f hp x"
  by (simp add: link_def)

lemma key_outside: "x \<noteq> p \<Longrightarrow> bucket_key (hp(p := None)) x = bucket_key hp x"
  by (simp add: bucket_key_def)

lemma global_ok_deleted:
  assumes ok: "global_ok ht (xs @ p # ys)" and b: "heap ht p = Some b"
  shows "b_pListNext b = head_opt ys" "b_pListLast b = last_opt xs"
    "global_ok (bucket_deleted p b ht) (xs @ ys)"
proof -
  let ?nx = "link b_pListNext (heap ht)" and ?pv = "link b_pListLast (heap ht)"
  have seg: "lseg ?nx ?pv None (xs @ p # ys)" and dist: "distinct (xs @ p # ys)"
    and dom: "\<forall>a. heap ht a \<noteq> None \<longleftrightarrow> a \<in> set (xs @ p # ys)"
    using ok by (auto simp: global_ok_def dll_def)
  show n: "b_pListNext b = head_opt ys" and l: "b_pListLast b = last_opt xs"
    using lseg_nx [OF seg] lseg_pv [OF seg] b by (auto simp: link_def split: if_splits)
  let ?hp = "(unlinked b (heap ht))(p := None)"
  have x: "x \<noteq> p \<and> heap ht x \<noteq> None" if "x \<in> set xs \<union> set ys" for x
    using that dist dom by auto
  have "lseg (link b_pListNext ?hp) (link b_pListLast ?hp) None (xs @ ys)"
    by (rule lseg_remove [OF seg dist]) (use x n l in \<open>auto simp: link_outside unlinked_links\<close>)
  moreover have "?hp a \<noteq> None \<longleftrightarrow> a \<in> set (xs @ ys)" for a
    using dom dist by (auto simp del: not_None_eq)
  ultimately show "global_ok (bucket_deleted p b ht) (xs @ ys)"
    using ok n l dist
    by (auto simp: global_ok_def dll_def bucket_deleted_def head_opt_append last_opt_append
        last_opt_Cons
        simp del: not_None_eq)
qed


lemma chain_ok_deleted:
  assumes ok: "chain_ok ht (set (xs @ p # ys)) cs" and b: "heap ht p = Some b"
    and dist: "distinct (xs @ p # ys)" and dom: "\<forall>a \<in> set (xs @ p # ys). heap ht a \<noteq> None"
    and i: "bucket_index ht (b_h b) = i" "i < length (arBuckets ht)"
  obtains us vs where "cs i = us @ p # vs" "b_pNext b = head_opt vs" "b_pLast b = last_opt us"
    "chain_ok (bucket_deleted p b ht) (set (xs @ ys)) (cs(i := us @ vs))"
proof -
  let ?S = "set (xs @ p # ys)" and ?hp = "(unlinked b (heap ht))(p := None)"
  have c: "arBuckets ht ! j = head_opt (cs j)"
    "lseg (link b_pNext (heap ht)) (link b_pLast (heap ht)) None (cs j)" "distinct (cs j)"
    "set (cs j) = {a \<in> ?S. bucket_index ht (fst (bucket_key (heap ht) a)) = j}"
    if "j < length (arBuckets ht)" for j
    using ok that by (auto simp: chain_ok_def)
  have "p \<in> set (cs i)" using c(4) [OF i(2)] b i(1) by (simp add: bucket_key_def)
  then obtain us vs where cs: "cs i = us @ p # vs" by (meson split_list)
  note seg = c(2) [OF i(2), unfolded cs] and d = c(3) [OF i(2), unfolded cs]
  have n: "b_pNext b = head_opt vs" and l: "b_pLast b = last_opt us"
    using lseg_nx [OF seg] lseg_pv [OF seg] b by (auto simp: link_def split: if_splits)
  have x: "x \<noteq> p \<and> heap ht x \<noteq> None" if "x \<in> set us \<union> set vs" for x
    using that d dom c(4) [OF i(2)] cs by auto
  have segi: "lseg (link b_pNext ?hp) (link b_pLast ?hp) None (us @ vs)"
    by (rule lseg_remove [OF seg d]) (use x n l in \<open>auto simp: link_outside unlinked_links\<close>)
  have segj: "lseg (link b_pNext ?hp) (link b_pLast ?hp) None (cs j)"
    if j: "j < length (arBuckets ht)" "j \<noteq> i" for j
  proof -
    have "x \<noteq> p \<and> heap ht x \<noteq> None \<and> b_pLast b \<noteq> Some x \<and> b_pNext b \<noteq> Some x" if "x \<in> set (cs j)" for x
    proof -
      have "x \<notin> set (cs i)" "x \<in> ?S" using that c(4) [OF j(1)] c(4) [OF i(2)] j(2) by auto
      moreover have "b_pNext b = Some x \<Longrightarrow> x \<in> set (cs i)" "b_pLast b = Some x \<Longrightarrow> x \<in> set (cs i)"
        using cs n l head_opt_in [of vs x] last_opt_in [of us x] by auto
      ultimately show ?thesis using cs dom by auto
    qed
    then have "lseg (link b_pNext ?hp) (link b_pLast ?hp) None (cs j)
        = lseg (link b_pNext (heap ht)) (link b_pLast (heap ht)) None (cs j)"
      by (intro lseg_cong) (auto simp: link_outside unlinked_links)
    then show ?thesis using c(2) [OF j(1)] by simp
  qed
  have idx: "bucket_index (bucket_deleted p b ht) = bucket_index ht"
    by (rule bucket_index_cong) (simp add: bucket_deleted_def)
  have len: "length (arBuckets (bucket_deleted p b ht)) = length (arBuckets ht)"
    and hd': "j < length (arBuckets ht) \<Longrightarrow>
      arBuckets (bucket_deleted p b ht) ! j = head_opt ((cs(i := us @ vs)) j)" for j
    using c(1) [of j] i n l cs
    by (auto simp: bucket_deleted_def nth_list_update head_opt_append)
  have mem: "set ((cs(i := us @ vs)) j)
      = {a \<in> set (xs @ ys). bucket_index ht (fst (bucket_key ?hp a)) = j}"
    if j: "j < length (arBuckets ht)" for j
  proof -
    have "set ((cs(i := us @ vs)) j) = set (cs j) - {p}"
      using d cs c(4) [OF j] b i(1) by (auto simp: bucket_key_def)
    also have "\<dots> = {a \<in> set (xs @ ys). bucket_index ht (fst (bucket_key (heap ht) a)) = j}"
      using c(4) [OF j] dist by auto
    also have "\<dots> = {a \<in> set (xs @ ys). bucket_index ht (fst (bucket_key ?hp a)) = j}"
    proof (intro Collect_cong conj_cong refl)
      fix a assume "a \<in> set (xs @ ys)"
      then have "a \<noteq> p" using dist by auto
      then show "(bucket_index ht (fst (bucket_key (heap ht) a)) = j)
          = (bucket_index ht (fst (bucket_key ?hp a)) = j)" by (simp add: key_outside)
    qed
    finally show ?thesis .
  qed
  have "chain_ok (bucket_deleted p b ht) (set (xs @ ys)) (cs(i := us @ vs))"
    unfolding chain_ok_def len idx
  proof (intro allI impI conjI)
    fix j assume j: "j < length (arBuckets ht)"
    show "arBuckets (bucket_deleted p b ht) ! j = head_opt ((cs(i := us @ vs)) j)"
      by (rule hd' [OF j])
    show "lseg (link b_pNext (heap (bucket_deleted p b ht))) (link b_pLast (heap (bucket_deleted p b ht)))
        None ((cs(i := us @ vs)) j)"
      using segi segj [OF j] by (simp add: bucket_deleted_def)
    show "distinct ((cs(i := us @ vs)) j)" using c(3) [OF j] d by simp
    show "set ((cs(i := us @ vs)) j)
      = {a \<in> set (xs @ ys). bucket_index ht (fst (bucket_key (heap (bucket_deleted p b ht)) a)) = j}"
      using mem [OF j] by (simp add: bucket_deleted_def)
  qed
  with cs n l show thesis by (rule that)
qed

lemma bucket_delete_ok:
  assumes rep: "ht_rep ht (xs @ p # ys) cs"
  obtains b cs' where "heap ht p = Some b"
    "zend_hash_bucket_delete ht p = Some (bucket_deleted p b ht)"
    "ht_rep (bucket_deleted p b ht) (xs @ ys) cs'"
    "ht_entries (bucket_deleted p b ht) (xs @ ys) = ht_entries ht xs @ ht_entries ht ys"
proof -
  let ?gs = "xs @ p # ys"
  have g: "global_ok ht ?gs" and c: "chain_ok ht (set ?gs) cs" and tb: "table_ok ht ?gs"
    and dk: "distinct (map (bucket_key (heap ht)) ?gs)"
    and n: "unat (nNumOfElements ht) = length ?gs"
    and ip: "\<forall>a. pInternalPointer ht = Some a \<longrightarrow> a \<in> set ?gs"
    using rep by (auto simp: ht_rep_def)
  have dom: "\<forall>a. heap ht a \<noteq> None \<longleftrightarrow> a \<in> set ?gs" and dist: "distinct ?gs"
    using g by (auto simp: global_ok_def dll_def)
  obtain b where b: "heap ht p = Some b" using dom by fastforce
  have i: "bucket_index ht (b_h b) < length (arBuckets ht)" by (rule bucket_index_bound [OF tb])
  note gd = global_ok_deleted [OF g b]
  obtain us vs where cs: "cs (bucket_index ht (b_h b)) = us @ p # vs" "b_pNext b = head_opt vs"
      "b_pLast b = last_opt us"
      "chain_ok (bucket_deleted p b ht) (set (xs @ ys)) (cs(bucket_index ht (b_h b) := us @ vs))"
    using chain_ok_deleted [OF c b dist _ refl i] dom by metis
  have us: "a \<in> set ?gs" if "a \<in> set (us @ vs)" for a
  proof -
    have "set (cs (bucket_index ht (b_h b))) \<subseteq> set ?gs" using c i by (auto simp: chain_ok_def)
    with that cs(1) show ?thesis by auto
  qed
  have "\<forall>a. x = Some a \<longrightarrow> heap ht a \<noteq> None"
    if "x \<in> {b_pNext b, b_pLast b, b_pListNext b, b_pListLast b}" for x
  proof (intro allI impI)
    fix a assume "x = Some a"
    with that gd(1,2) cs(2,3) have "a \<in> set (us @ vs) \<union> set (xs @ ys)"
      using head_opt_in [of _ a] last_opt_in [of _ a] by auto
    then show "heap ht a \<noteq> None" using us dom by auto
  qed
  then have del: "zend_hash_bucket_delete ht p = Some (bucket_deleted p b ht)"
    by (intro zend_hash_bucket_delete_eq [OF b i]) auto
  have key: "bucket_key (heap (bucket_deleted p b ht)) x = bucket_key (heap ht) x"
    and ent: "bucket_entry (heap (bucket_deleted p b ht)) x = bucket_entry (heap ht) x"
    if "x \<in> set (xs @ ys)" for x
  proof -
    have "x \<noteq> p" "heap ht x \<noteq> None" using that dist dom by auto
    then show "bucket_key (heap (bucket_deleted p b ht)) x = bucket_key (heap ht) x"
      and "bucket_entry (heap (bucket_deleted p b ht)) x = bucket_entry (heap ht) x"
      by (simp_all add: bucket_deleted_def key_outside bucket_entry_def unlinked_data)
  qed
  have "map (bucket_key (heap (bucket_deleted p b ht))) (xs @ ys) = map (bucket_key (heap ht)) (xs @ ys)"
    using key by (intro map_cong) auto
  then have "distinct (map (bucket_key (heap (bucket_deleted p b ht))) (xs @ ys))"
    using dk by (simp only:) auto
  moreover have "unat (nNumOfElements (bucket_deleted p b ht)) = length (xs @ ys)"
    using n unat_pred [of "nNumOfElements ht"] by (auto simp: bucket_deleted_def word_less_nat_alt)
  moreover have "table_ok (bucket_deleted p b ht) (xs @ ys)"
    using tb by (auto simp: table_ok_def bucket_deleted_def split: if_splits)
  moreover have "\<forall>a. pInternalPointer (bucket_deleted p b ht) = Some a \<longrightarrow> a \<in> set (xs @ ys)"
    using ip gd(1) head_opt_in [of ys] by (auto simp: bucket_deleted_def)
  ultimately have "ht_rep (bucket_deleted p b ht) (xs @ ys) (cs(bucket_index ht (b_h b) := us @ vs))"
    using gd(3) cs(4) by (simp add: ht_rep_def)
  moreover have "ht_entries (bucket_deleted p b ht) (xs @ ys) = ht_entries ht xs @ ht_entries ht ys"
    using ent by (auto simp: ht_entries_def)
  ultimately show thesis using that b del by blast
qed

lemma ht_entries_split:
  assumes "ht_rep ht (xs @ p # ys) cs" and "bucket_key (heap ht) p = k"
  shows "ht_entries ht xs @ ht_entries ht ys = om_delete k (ht_entries ht (xs @ p # ys))"
proof -
  have "bucket_key (heap ht) x \<noteq> k" if "x \<in> set xs \<union> set ys" for x
  proof
    assume "bucket_key (heap ht) x = k"
    then have "x = p"
      using assms that by (auto simp: ht_rep_def distinct_map inj_on_def)
    then show False using that assms(1) by (auto simp: ht_rep_def distinct_map)
  qed
  then show ?thesis
    using assms(2) by (auto simp: ht_entries_def om_delete_def bucket_entry_def filter_map comp_def
        intro!: filter_True [symmetric])
qed

lemma del_key_or_index_ok:
  fixes h :: ulong and flag :: hash_del_flag and k :: string
  assumes rep: "ht_rep ht gs cs"
  defines "es \<equiv> ht_entries ht gs"
    and "i \<equiv> if flag = HASH_DEL_KEY then zend_inline_hash_func k else h"
  shows "\<exists>r ht' gs' cs'. zend_hash_del_key_or_index ht k h flag = Some (r, ht')
    \<and> ht_rep ht' gs' cs' \<and> pDestructor ht' = pDestructor ht
    \<and> nNextFreeElement ht' = nNextFreeElement ht
    \<and> ht_entries ht' gs' = om_delete (i, k) es
    \<and> (if (i, k) \<in> fst ` set es
       then r = SUCCESS \<and> destroyed ht' = destroyed ht @
              (if pDestructor ht then [the (map_of es (i, k))] else [])
       else r = FAILURE \<and> destroyed ht' = destroyed ht)"
  using rep
proof (cases rule: hash_lookup_spec [where h = i and k = k])
  case (found a)
  then obtain xs ys where gs: "gs = xs @ a # ys" by (meson split_list)
  obtain b cs' where d: "heap ht a = Some b"
    "zend_hash_bucket_delete ht a = Some (bucket_deleted a b ht)"
    "ht_rep (bucket_deleted a b ht) (xs @ ys) cs'"
    "ht_entries (bucket_deleted a b ht) (xs @ ys) = ht_entries ht xs @ ht_entries ht ys"
    using bucket_delete_ok rep gs by metis
  have "ht_entries (bucket_deleted a b ht) (xs @ ys) = om_delete (i, k) es"
    using d(4) ht_entries_split rep gs found(3) es_def by metis
  moreover have "map_of es (i, k) = Some (b_pData b)" "(i, k) \<in> fst ` set es"
    using map_of_ht_entries [OF rep found(2,3)] found d(1) ht_entries_mem [of "(i, k)" ht gs]
    by (auto simp: es_def)
  moreover have "zend_hash_del_key_or_index ht k h flag = Some (SUCCESS, bucket_deleted a b ht)"
    using found d by (simp add: zend_hash_del_key_or_index_def i_def Let_def)
  moreover have "destroyed (bucket_deleted a b ht) = destroyed ht @ (if pDestructor ht then [b_pData b] else [])"
    "pDestructor (bucket_deleted a b ht) = pDestructor ht"
    "nNextFreeElement (bucket_deleted a b ht) = nNextFreeElement ht"
    by (simp_all add: bucket_deleted_def)
  ultimately show ?thesis using d(3) by auto
next
  case missing
  have mem: "(i, k) \<notin> fst ` set es" using missing ht_entries_mem es_def by metis
  then have "om_delete (i, k) es = es" by (force simp: om_delete_def filter_id_conv)
  moreover have "zend_hash_del_key_or_index ht k h flag = Some (FAILURE, ht)"
    using missing by (simp add: zend_hash_del_key_or_index_def i_def Let_def)
  ultimately show ?thesis using rep mem es_def by auto
qed

section \<open>Emptying a table\<close>

lemma free_loop_ok:
  assumes "lseg (link b_pListNext (heap ht)) pv p xs" and "distinct xs"
    and "\<forall>a \<in> set xs. heap ht a \<noteq> None"
  shows "free_loop (head_opt xs) ht = Some (ht\<lparr>heap := (\<lambda>a. if a \<in> set xs then None else heap ht a),
    destroyed := destroyed ht @ (if pDestructor ht then map snd (ht_entries ht xs) else [])\<rparr>)"
  using assms
proof (induction xs arbitrary: ht p)
  case Nil
  then show ?case by (simp add: free_loop.simps ht_entries_def)
next
  case (Cons a xs)
  then obtain b where b: "heap ht a = Some b" by auto
  let ?ht = "(call_destructor (b_pData b) ht)\<lparr>heap := (heap ht)(a := None)\<rparr>"
  have out: "link b_pListNext (heap ?ht) x = link b_pListNext (heap ht) x" "heap ?ht x = heap ht x"
    if "x \<in> set xs" for x
    using that Cons.prems(2) by (auto simp: link_def)
  have "lseg (link b_pListNext (heap ?ht)) pv (Some a) xs"
    using Cons.prems(1) out lseg_cong [of xs "link b_pListNext (heap ?ht)" "link b_pListNext (heap ht)" pv pv]
    by simp
  from Cons.IH [OF this] have "free_loop (head_opt xs) ?ht =
      Some (?ht\<lparr>heap := (\<lambda>x. if x \<in> set xs then None else heap ?ht x),
        destroyed := destroyed ?ht @ (if pDestructor ?ht then map snd (ht_entries ?ht xs) else [])\<rparr>)"
    using Cons.prems(2,3) out by auto
  moreover have "map snd (ht_entries ?ht xs) = map snd (ht_entries ht xs)"
    using out by (auto simp: ht_entries_def bucket_entry_def)
  moreover have "b_pListNext b = head_opt xs" using Cons.prems(1) b by (simp add: link_def)
  ultimately show ?case
    using b Cons.prems(2)
    by (auto simp: free_loop.simps [of "Some a"] call_destructor_def ht_entries_def bucket_entry_def
        fun_eq_iff intro!: arg_cong [where f = "\<lambda>h. ht\<lparr>heap := h, destroyed := _\<rparr>"])
qed

lemma ht_rep_free_loop:
  assumes "ht_rep ht gs cs"
  shows "lseg (link b_pListNext (heap ht)) (link b_pListLast (heap ht)) None gs"
    "distinct gs" "\<forall>a \<in> set gs. heap ht a \<noteq> None" "pListHead ht = head_opt gs"
    "(\<lambda>a. if a \<in> set gs then None else heap ht a) = Map.empty"
  using assms by (auto simp: ht_rep_def global_ok_def dll_def fun_eq_iff)

lemma ht_rep_empty:
  assumes "heap ht = Map.empty" "pListHead ht = None" "pListTail ht = None"
    "pInternalPointer ht = None" "nNumOfElements ht = 0" "table_ok ht []"
    "\<forall>i < length (arBuckets ht). arBuckets ht ! i = None"
  shows "ht_rep ht [] (\<lambda>_. [])" "ht_entries ht [] = []"
  using assms by (auto simp: ht_rep_def global_ok_def dll_def chain_ok_def ht_entries_def)

lemma zend_hash_clean_ok:
  assumes rep: "ht_rep ht gs cs"
  shows "\<exists>ht'. zend_hash_clean ht = Some ht' \<and> ht_rep ht' [] (\<lambda>_. [])
    \<and> nNextFreeElement ht' = 0 \<and> pDestructor ht' = pDestructor ht
    \<and> destroyed ht' = destroyed ht @ (if pDestructor ht then map snd (ht_entries ht gs) else [])"
proof -
  define ht0 where "ht0 = ht\<lparr>arBuckets := (if nTableMask ht \<noteq> 0 then replicate (unat (nTableSize ht)) None
                         else arBuckets ht),
           pListHead := None, pListTail := None, nNumOfElements := 0,
           nNextFreeElement := 0, pInternalPointer := None\<rparr>"
  have h: "heap ht0 = heap ht" "destroyed ht0 = destroyed ht" "pDestructor ht0 = pDestructor ht"
    and e: "ht_entries ht0 gs = ht_entries ht gs" by (simp_all add: ht0_def ht_entries_def)
  note f = ht_rep_free_loop [OF rep]
  have "free_loop (head_opt gs) ht0 = Some (ht0\<lparr>heap := Map.empty,
    destroyed := destroyed ht @ (if pDestructor ht then map snd (ht_entries ht gs) else [])\<rparr>)"
    using free_loop_ok [of ht0 "link b_pListLast (heap ht)" None gs, unfolded h e f(5), OF f(1-3)] .
  then have clean: "zend_hash_clean ht = Some (ht0\<lparr>heap := Map.empty,
    destroyed := destroyed ht @ (if pDestructor ht then map snd (ht_entries ht gs) else [])\<rparr>)"
    by (simp add: zend_hash_clean_def f(4) ht0_def)
  have tab: "table_ok ht0 []"
    using rep unat_pred [of "nTableSize ht"]
    by (auto simp: ht_rep_def table_ok_def ht0_def word_less_nat_alt split: if_splits)
  have "\<forall>i < length (arBuckets ht0). arBuckets ht0 ! i = None"
  proof (cases "nTableMask ht = 0")
    case True
    then have "gs = []" "length (arBuckets ht) = 1"
      using rep by (auto simp: ht_rep_def table_ok_def)
    with True rep show ?thesis by (auto simp: ht_rep_def chain_ok_def ht0_def)
  qed (simp add: ht0_def)
  with tab clean show ?thesis by (auto simp: table_ok_def ht0_def intro!: ht_rep_empty(1))
qed

lemma zend_hash_destroy_ok:
  assumes rep: "ht_rep ht gs cs"
  shows "\<exists>ht'. zend_hash_destroy ht = Some ht' \<and> heap ht' = Map.empty
    \<and> destroyed ht' = destroyed ht @ (if pDestructor ht then map snd (ht_entries ht gs) else [])"
  using free_loop_ok [OF ht_rep_free_loop(1-3) [OF rep]] ht_rep_free_loop(4,5) [OF rep]
  by (simp add: zend_hash_destroy_def)

lemma graceful_loop_ok:
  assumes "ht_rep ht gs cs"
  shows "\<exists>ht' cs'. graceful_loop ht = Some ht' \<and> ht_rep ht' [] cs' \<and> pDestructor ht' = pDestructor ht
    \<and> destroyed ht' = destroyed ht @ (if pDestructor ht then map snd (ht_entries ht gs) else [])"
  using assms
proof (induction gs arbitrary: ht cs)
  case Nil
  then have "pListHead ht = None" by (simp add: ht_rep_free_loop(4))
  with Nil show ?case by (auto simp: graceful_loop.simps ht_entries_def)
next
  case (Cons a gs)
  obtain b cs' where d: "heap ht a = Some b"
    "zend_hash_bucket_delete ht a = Some (bucket_deleted a b ht)"
    "ht_rep (bucket_deleted a b ht) gs cs'"
    "ht_entries (bucket_deleted a b ht) gs = ht_entries ht gs"
    using bucket_delete_ok [of ht "[]" a gs cs] Cons.prems by (auto simp: ht_entries_def)
  have "pListHead ht = Some a" using Cons.prems by (simp add: ht_rep_free_loop(4))
  with Cons.IH [OF d(3)] d show ?case
    by (auto simp: graceful_loop.simps [of ht] bucket_deleted_def ht_entries_def bucket_entry_def)
qed

lemma zend_hash_graceful_destroy_ok:
  assumes rep: "ht_rep ht gs cs"
  shows "\<exists>ht'. zend_hash_graceful_destroy ht = Some ht' \<and> heap ht' = Map.empty
    \<and> destroyed ht' = destroyed ht @ (if pDestructor ht then map snd (ht_entries ht gs) else [])"
  using graceful_loop_ok [OF rep]
  by (auto simp: zend_hash_graceful_destroy_def ht_rep_def global_ok_def fun_eq_iff simp del: not_None_eq)

section \<open>Creation\<close>

lemma hash_init_exp_bounds: "i \<le> hash_init_exp i n \<and> (i \<le> k \<and> n \<le> 2 ^ k \<longrightarrow> hash_init_exp i n \<le> k)
    \<and> n \<le> 2 ^ hash_init_exp i n"
proof (induction i n rule: hash_init_exp.induct)
  case (1 i n)
  show ?case
  proof (cases "2 ^ i < n")
    case True
    have "Suc i \<le> k" if "i \<le> k" "n \<le> 2 ^ k"
      using that True by (cases "i = k") auto
    with 1 [OF True] True show ?thesis by (auto simp: hash_init_exp.simps [of i])
  qed (simp add: hash_init_exp.simps [of i])
qed

lemma zend_hash_init_size:
  "unat nSize \<le> unat (nTableSize (zend_hash_init nSize dtor)) \<or> 0x80000000 < nSize"
  "1 < nTableSize (zend_hash_init nSize dtor :: 'v HashTable)"
proof -
  define e where "e = hash_init_exp 3 (unat nSize)"
  have s: "nTableSize (zend_hash_init nSize dtor :: 'v HashTable)
      = (if 0x80000000 \<le> nSize then 0x80000000 else 2 ^ e)"
    by (simp add: zend_hash_init_def e_def push_bit_eq_mult)
  have "unat nSize \<le> 2 ^ 31" if "\<not> 0x80000000 \<le> nSize"
    using that by (simp add: word_le_nat_alt)
  then have e: "\<not> 0x80000000 \<le> nSize \<Longrightarrow> e \<le> 31" "3 \<le> e" "unat nSize \<le> 2 ^ e"
    using hash_init_exp_bounds [of 3 "unat nSize" 31] by (auto simp: e_def)
  have u: "unat (2 ^ e :: uint) = 2 ^ e" if "\<not> 0x80000000 \<le> nSize"
    using e(1) [OF that] power_increasing [of e 31 "2::nat"]
    by (simp add: unat_of_nat [of "2 ^ e", unfolded of_nat_power of_nat_numeral] take_bit_nat_eq_self)
  show "1 < nTableSize (zend_hash_init nSize dtor :: 'v HashTable)"
    using u e power_increasing [OF e(2), of "2::nat"] by (auto simp: s word_less_nat_alt)
  show "unat nSize \<le> unat (nTableSize (zend_hash_init nSize dtor)) \<or> 0x80000000 < nSize"
    using u e by (cases "0x80000000 \<le> nSize") (auto simp: zend_hash_init_def e_def [symmetric] push_bit_eq_mult)
qed

lemma zend_hash_init_ok: "ht_rep (zend_hash_init nSize dtor :: 'v HashTable) [] (\<lambda>_. [])"
  using zend_hash_init_size(2) [where 'v = 'v, of nSize dtor]
  by (intro ht_rep_empty) (auto simp: zend_hash_init_def table_ok_def)

section \<open>Traversal\<close>

text \<open>
  The loop every client writes: reset the position, and while the position has data, use its key and
  data and move forward.
\<close>

partial_function (option) hash_walk :: "'v HashTable \<Rightarrow> HashPosition \<Rightarrow> (hash_key \<times> 'v) list option" where
  "hash_walk ht pos = do {
     d \<leftarrow> zend_hash_get_current_data_ex ht pos;
     (case d of
        None \<Rightarrow> Some []
      | Some v \<Rightarrow> do {
          k \<leftarrow> zend_hash_get_current_key_ex ht pos;
          r \<leftarrow> zend_hash_move_forward_ex ht pos;
          rest \<leftarrow> hash_walk ht (snd r);
          (case k of None \<Rightarrow> None | Some k \<Rightarrow> Some ((k, v) # rest)) }) }"

declare hash_walk.simps [code]

text \<open>How a client sees the key of a bucket.\<close>

definition user_key :: "bkey \<Rightarrow> hash_key" where
  "user_key k = (if snd k \<noteq> [] then HKStr (snd k) else HKIdx (fst k))"

lemma hash_walk_ok:
  assumes "lseg (link b_pListNext (heap ht)) pv p xs" and "\<forall>a \<in> set xs. heap ht a \<noteq> None"
  shows "hash_walk ht (head_opt xs) = Some (map (\<lambda>(k, v). (user_key k, v)) (ht_entries ht xs))"
  using assms
proof (induction xs arbitrary: p)
  case Nil
  then show ?case by (simp add: hash_walk.simps zend_hash_get_current_data_ex_def ht_entries_def)
next
  case (Cons a xs)
  then obtain b where b: "heap ht a = Some b" by auto
  have n: "b_pListNext b = head_opt xs" using Cons.prems(1) b by (simp add: link_def)
  have "hash_walk ht (head_opt xs) = Some (map (\<lambda>(k, v). (user_key k, v)) (ht_entries ht xs))"
    using Cons.prems by (intro Cons.IH [of "Some a"]) auto
  with b n show ?case
    by (simp add: hash_walk.simps [of ht "Some a"] zend_hash_get_current_data_ex_def
        zend_hash_get_current_key_ex_def zend_hash_move_forward_ex_def ht_entries_def
        bucket_entry_def bucket_key_def user_key_def)
qed

section \<open>The table as an ordered map\<close>

text \<open>
  The interface PHP arrays are programmed against: string keys (with their NUL) and numeric
  indices. A string key is always stored under its own hash.
\<close>

definition hash_put :: "hash_key \<Rightarrow> 'v \<Rightarrow> 'v HashTable \<Rightarrow> 'v HashTable option" where
  "hash_put k v ht =
     (case k of
        HKStr s \<Rightarrow> map_option snd (zend_hash_add_or_update ht s v HASH_UPDATE)
      | HKIdx i \<Rightarrow> map_option snd (zend_hash_index_update_or_next_insert ht i v HASH_UPDATE))"

definition hash_unset :: "hash_key \<Rightarrow> 'v HashTable \<Rightarrow> 'v HashTable option" where
  "hash_unset k ht =
     (case k of
        HKStr s \<Rightarrow> map_option snd (zend_hash_del_key_or_index ht s 0 HASH_DEL_KEY)
      | HKIdx i \<Rightarrow> map_option snd (zend_hash_del_key_or_index ht [] i HASH_DEL_INDEX))"

definition hash_get :: "hash_key \<Rightarrow> 'v HashTable \<Rightarrow> 'v option option" where
  "hash_get k ht = (case k of HKStr s \<Rightarrow> zend_hash_find ht s | HKIdx i \<Rightarrow> zend_hash_index_find ht i)"

definition hash_entries :: "'v HashTable \<Rightarrow> (hash_key \<times> 'v) list option" where
  "hash_entries ht = hash_walk ht (zend_hash_internal_pointer_reset_ex ht)"

definition hash_key_ok :: "hash_key \<Rightarrow> bool" where
  "hash_key_ok k = (k \<noteq> HKStr [])"

fun bkey_of :: "hash_key \<Rightarrow> bkey" where
  "bkey_of (HKStr s) = (zend_inline_hash_func s, s)"
| "bkey_of (HKIdx i) = (i, [])"

definition keys_ok :: "(bkey \<times> 'v) list \<Rightarrow> bool" where
  "keys_ok es \<longleftrightarrow> (\<forall>e \<in> set es. bkey_of (user_key (fst e)) = fst e)"

definition user_entries :: "(bkey \<times> 'v) list \<Rightarrow> (hash_key \<times> 'v) list" where
  "user_entries es = map (\<lambda>(k, v). (user_key k, v)) es"

definition array_inv :: "'v HashTable \<Rightarrow> bool" where
  "array_inv ht \<longleftrightarrow> pDestructor ht \<and> (\<exists>gs cs. ht_rep ht gs cs \<and> keys_ok (ht_entries ht gs))"

lemma user_key_bkey_of: "hash_key_ok k \<Longrightarrow> user_key (bkey_of k) = k"
  by (cases k) (auto simp: hash_key_ok_def user_key_def)

lemma user_key_iff:
  "keys_ok es \<Longrightarrow> e \<in> set es \<Longrightarrow> hash_key_ok k \<Longrightarrow> user_key (fst e) = k \<longleftrightarrow> fst e = bkey_of k"
  using user_key_bkey_of by (auto simp: keys_ok_def)

lemma keys_ok_ConsD: "keys_ok (e # es) \<Longrightarrow> keys_ok es"
  by (simp add: keys_ok_def)

lemma user_entries_ops:
  assumes "keys_ok es" "hash_key_ok k"
  shows "map_of (user_entries es) k = map_of es (bkey_of k)"
    "k \<in> fst ` set (user_entries es) \<longleftrightarrow> bkey_of k \<in> fst ` set es"
    "om_replace k v (user_entries es) = user_entries (om_replace (bkey_of k) v es)"
    "om_delete k (user_entries es) = user_entries (om_delete (bkey_of k) es)"
    "om_dropped k (user_entries es) = om_dropped (bkey_of k) es"
proof -
  note iff = user_key_iff [OF assms(1) _ assms(2)]
  show "map_of (user_entries es) k = map_of es (bkey_of k)"
    using assms(1)
  proof (induction es)
    case (Cons e es)
    with user_key_iff [OF Cons.prems _ assms(2), of e] keys_ok_ConsD [OF Cons.prems] show ?case
      by (cases e) (auto simp: user_entries_def)
  qed (simp add: user_entries_def)
  show "k \<in> fst ` set (user_entries es) \<longleftrightarrow> bkey_of k \<in> fst ` set es"
    using iff by (force simp: user_entries_def image_iff split: prod.splits)
  show "om_replace k v (user_entries es) = user_entries (om_replace (bkey_of k) v es)"
    unfolding om_replace_def user_entries_def map_map
  proof (rule map_cong [OF refl])
    fix e assume "e \<in> set es"
    from iff [OF this] user_key_bkey_of [OF assms(2)]
    show "((\<lambda>e. if fst e = k then (k, v) else e) \<circ> (\<lambda>(k, v). (user_key k, v))) e
        = ((\<lambda>(k, v). (user_key k, v)) \<circ> (\<lambda>e. if fst e = bkey_of k then (bkey_of k, v) else e)) e"
      by (cases e) simp
  qed
  show "om_delete k (user_entries es) = user_entries (om_delete (bkey_of k) es)"
    using iff by (auto simp: om_delete_def user_entries_def filter_map comp_def split_beta
        intro!: arg_cong [where f = "map _"] filter_cong)
  show "om_dropped k (user_entries es) = om_dropped (bkey_of k) es"
    using iff by (auto simp: om_dropped_def user_entries_def filter_map comp_def split_beta
        intro!: arg_cong [where f = "map _"] filter_cong)
qed

lemma om_update_user_entries:
  assumes "keys_ok es" "hash_key_ok k"
  shows "om_update k v (user_entries es) = user_entries (om_update (bkey_of k) v es)"
  using user_entries_ops [OF assms] user_key_bkey_of [OF assms(2)]
  by (simp add: om_update_def) (simp add: user_entries_def)

lemma keys_ok_ops:
  assumes "keys_ok es"
  shows "hash_key_ok k \<Longrightarrow> keys_ok (om_update (bkey_of k) v es)" "keys_ok (om_delete k' es)"
  using assms user_key_bkey_of [of k]
  by (auto simp: keys_ok_def om_update_def om_replace_def om_delete_def)

lemma distinct_user_entries:
  assumes "keys_ok es" "distinct (map fst es)"
  shows "distinct (map fst (user_entries es))"
proof -
  have "inj_on user_key (fst ` set es)"
    using assms(1) by (intro inj_on_inverseI [where g = bkey_of]) (auto simp: keys_ok_def)
  then have "distinct (map user_key (map fst es))"
    using assms(2) by (simp add: distinct_map comp_inj_on_iff image_image)
  then show ?thesis by (simp add: user_entries_def comp_def split_beta)
qed

lemma hash_entries_rep: "ht_rep ht gs cs \<Longrightarrow> hash_entries ht = Some (user_entries (ht_entries ht gs))"
  using hash_walk_ok [OF ht_rep_free_loop(1,3), of ht gs cs cs] ht_rep_free_loop(4) [of ht gs cs]
  by (simp add: hash_entries_def zend_hash_internal_pointer_reset_ex_def user_entries_def)

lemma array_inv_entries:
  "array_inv ht \<Longrightarrow> \<exists>gs cs. ht_rep ht gs cs \<and> keys_ok (ht_entries ht gs)
     \<and> hash_entries ht = Some (user_entries (ht_entries ht gs)) \<and> pDestructor ht"
  by (auto simp: array_inv_def hash_entries_rep)

lemma array_invI:
  "pDestructor ht \<Longrightarrow> ht_rep ht gs cs \<Longrightarrow> keys_ok (ht_entries ht gs) \<Longrightarrow>
    array_inv ht \<and> hash_entries ht = Some (user_entries (ht_entries ht gs))"
  by (auto simp: array_inv_def hash_entries_rep)

lemma hash_put_ok:
  assumes inv: "array_inv ht" and k: "hash_key_ok k" and es: "hash_entries ht = Some es"
    and room: "length es < 4294967295"
  shows "\<exists>ht'. hash_put k v ht = Some ht' \<and> array_inv ht' \<and> hash_entries ht' = Some (om_update k v es)
    \<and> destroyed ht' = destroyed ht @ om_dropped k es"
proof -
  obtain gs cs where rep: "ht_rep ht gs cs" and ok: "keys_ok (ht_entries ht gs)"
    and e: "es = user_entries (ht_entries ht gs)" and d: "pDestructor ht"
    using array_inv_entries [OF inv] es by auto
  have len: "length gs + 1 < 2 ^ 32" using room e by (simp add: user_entries_def ht_entries_def)
  have drop: "om_dropped k es = (if bkey_of k \<in> fst ` set (ht_entries ht gs)
      then [the (map_of (ht_entries ht gs) (bkey_of k))] else [])"
    unfolding e user_entries_ops(5) [OF ok k] by (rule om_dropped_distinct [OF ht_rep_distinct [OF rep]])
  have "\<exists>ht' gs' cs'. hash_put k v ht = Some ht' \<and> ht_rep ht' gs' cs' \<and> pDestructor ht'
      \<and> ht_entries ht' gs' = om_update (bkey_of k) v (ht_entries ht gs)
      \<and> destroyed ht' = destroyed ht @ om_dropped k es"
  proof (cases k)
    case (HKStr s)
    with k have "s \<noteq> []" by (simp add: hash_key_ok_def)
    obtain r ht' gs' cs' where
      "zend_hash_quick_add_or_update ht s (zend_inline_hash_func s) v HASH_UPDATE = Some (r, ht')"
      "ht_rep ht' gs' cs'" "pDestructor ht'"
      "ht_entries ht' gs' = om_update (zend_inline_hash_func s, s) v (ht_entries ht gs)"
      "destroyed ht' = destroyed ht @ om_dropped k es"
      using quick_add_or_update_ok [OF rep len \<open>s \<noteq> []\<close>, of "zend_inline_hash_func s" v HASH_UPDATE] d
      unfolding HKStr drop [unfolded HKStr bkey_of.simps] by simp blast
    with HKStr show ?thesis unfolding hash_put_def zend_hash_add_or_update_def by simp blast
  next
    case (HKIdx i)
    obtain r ht' gs' cs' where
      "zend_hash_index_update_or_next_insert ht i v HASH_UPDATE = Some (r, ht')"
      "ht_rep ht' gs' cs'" "pDestructor ht'"
      "ht_entries ht' gs' = om_update (i, []) v (ht_entries ht gs)"
      "destroyed ht' = destroyed ht @ om_dropped k es"
      using index_update_or_next_insert_ok [OF rep len, where h = i and v = v and flag = HASH_UPDATE] d
      unfolding HKIdx drop [unfolded HKIdx bkey_of.simps] om_update_def by (cases "(i, []) \<in> fst ` set (ht_entries ht gs)"; simp; blast)
    with HKIdx show ?thesis unfolding hash_put_def by simp blast
  qed
  then show ?thesis
    using keys_ok_ops(1) [OF ok k, of v] om_update_user_entries [OF ok k, of v] array_invI
    unfolding e by metis
qed

lemma hash_unset_ok:
  assumes inv: "array_inv ht" and k: "hash_key_ok k" and es: "hash_entries ht = Some es"
  shows "\<exists>ht'. hash_unset k ht = Some ht' \<and> array_inv ht' \<and> hash_entries ht' = Some (om_delete k es)
    \<and> destroyed ht' = destroyed ht @ om_dropped k es"
proof -
  obtain gs cs where rep: "ht_rep ht gs cs" and ok: "keys_ok (ht_entries ht gs)"
    and e: "es = user_entries (ht_entries ht gs)" and d: "pDestructor ht"
    using array_inv_entries [OF inv] es by auto
  have drop: "om_dropped k es = (if bkey_of k \<in> fst ` set (ht_entries ht gs)
      then [the (map_of (ht_entries ht gs) (bkey_of k))] else [])"
    unfolding e user_entries_ops(5) [OF ok k] by (rule om_dropped_distinct [OF ht_rep_distinct [OF rep]])
  have "\<exists>ht' gs' cs'. hash_unset k ht = Some ht' \<and> ht_rep ht' gs' cs' \<and> pDestructor ht'
      \<and> ht_entries ht' gs' = om_delete (bkey_of k) (ht_entries ht gs)
      \<and> destroyed ht' = destroyed ht @ om_dropped k es"
  proof (cases k)
    case (HKStr s)
    show ?thesis
      using del_key_or_index_ok [OF rep, where k = s and h = 0 and flag = HASH_DEL_KEY] d
      unfolding HKStr drop [unfolded HKStr] hash_unset_def bkey_of.simps
      by (cases "(zend_inline_hash_func s, s) \<in> fst ` set (ht_entries ht gs)"; simp; blast)
  next
    case (HKIdx i)
    show ?thesis
      using del_key_or_index_ok [OF rep, where k = "[]" and h = i and flag = HASH_DEL_INDEX] d
      unfolding HKIdx drop [unfolded HKIdx] hash_unset_def bkey_of.simps
      by (cases "(i, []) \<in> fst ` set (ht_entries ht gs)"; simp; blast)
  qed
  then show ?thesis
    using keys_ok_ops(2) [OF ok] user_entries_ops(4) [OF ok k] array_invI
    unfolding e by metis
qed

lemma hash_get_ok:
  assumes inv: "array_inv ht" and k: "hash_key_ok k" and es: "hash_entries ht = Some es"
  shows "hash_get k ht = Some (map_of es k)"
proof -
  obtain gs cs where rep: "ht_rep ht gs cs" and ok: "keys_ok (ht_entries ht gs)"
    and e: "es = user_entries (ht_entries ht gs)"
    using array_inv_entries [OF inv] es by auto
  have "hash_get k ht = Some (map_of (ht_entries ht gs) (bkey_of k))"
    using quick_find_ok [OF rep]
    by (cases k) (simp_all add: hash_get_def zend_hash_find_def zend_hash_index_find_def)
  then show ?thesis by (simp add: e user_entries_ops(1) [OF ok k])
qed

interpretation php_array: ordered_map array_inv hash_entries hash_get hash_put hash_unset
  destroyed hash_key_ok 4294967295
proof
  fix ht :: "'v HashTable"
  assume "array_inv ht"
  from array_inv_entries [OF this] obtain gs cs where
    "ht_rep ht gs cs" "keys_ok (ht_entries ht gs)" "hash_entries ht = Some (user_entries (ht_entries ht gs))"
    by auto
  then show "\<exists>es. hash_entries ht = Some es \<and> distinct (map fst es)"
    using distinct_user_entries ht_rep_distinct by auto
qed (auto intro: hash_get_ok hash_put_ok hash_unset_ok)

lemma array_inv_init:
  "array_inv (zend_hash_init nSize True :: 'v HashTable)"
  "hash_entries (zend_hash_init nSize True :: 'v HashTable) = Some []"
proof -
  have "pDestructor (zend_hash_init nSize True :: 'v HashTable)" by (simp add: zend_hash_init_def)
  from array_invI [OF this zend_hash_init_ok]
  show "array_inv (zend_hash_init nSize True :: 'v HashTable)"
    "hash_entries (zend_hash_init nSize True :: 'v HashTable) = Some []"
    by (simp_all add: keys_ok_def ht_entries_def user_entries_def)
qed

lemma hash_destroy_releases:
  assumes "array_inv ht" "hash_entries ht = Some es"
  shows "\<exists>ht'. zend_hash_destroy ht = Some ht' \<and> heap ht' = Map.empty \<and> destroyed ht' = destroyed ht @ map snd es"
proof -
  obtain gs cs where "ht_rep ht gs cs" "es = user_entries (ht_entries ht gs)" "pDestructor ht"
    using array_inv_entries [OF assms(1)] assms(2) by auto
  moreover from this have "map snd es = map snd (ht_entries ht gs)"
    by (simp add: user_entries_def comp_def split_beta)
  ultimately show ?thesis using zend_hash_destroy_ok by fastforce
qed

section \<open>Properties\<close>

text \<open>
  (C3) Refinement of the hash table: starting from \<open>zend_hash_init\<close>, any sequence of updates
  and deletions (string keys and numeric indices, fewer than \<open>2\<^sup>32\<close> of them) runs to its end without
  following a bad pointer, through every rehash on the way; afterwards the traversal yields exactly the
  entries of the insertion-ordered map that the sequence describes, and every lookup returns the
  value this map has.
\<close>

theorem hash_table_refines_ordered_map:
  assumes "\<forall>p \<in> set ops. hash_key_ok (op_key p)" and "length ops \<le> 4294967295"
  shows "\<exists>ht. run_ops hash_put hash_unset ops (zend_hash_init nSize True) = Some ht
    \<and> hash_entries ht = Some (om_run ops [])
    \<and> (\<forall>k. hash_key_ok k \<longrightarrow> hash_get k ht = Some (map_of (om_run ops []) k))"
  using php_array.run_refines [OF array_inv_init assms(1)] assms(2) hash_get_ok by fastforce

theorem hash_table_refines_ordered_map_witness:
  "\<exists>ht. run_ops hash_put hash_unset [Put (HKStr ''id'') 1, Put (HKIdx 7) 2, Put (HKStr ''id'') (3::nat)]
      (zend_hash_init 8 True) = Some ht
    \<and> hash_entries ht = Some [(HKStr ''id'', 3), (HKIdx 7, 2)]"
  using hash_table_refines_ordered_map
    [of "[Put (HKStr ''id'') 1, Put (HKIdx 7) 2, Put (HKStr ''id'') (3::nat)]" 8]
  by (auto simp: hash_key_ok_def om_update_def om_replace_def)

text \<open>
  (C11) Ownership: when such a sequence is followed by \<open>zend_hash_destroy\<close>, every bucket has
  been freed and the destructor has been called exactly once for every value ever stored, whether it
  was overwritten, deleted or still in the table: no value is leaked and none is destroyed twice.
\<close>

theorem hash_table_destroys_each_value_once:
  assumes "\<forall>p \<in> set ops. hash_key_ok (op_key p)" and "length ops \<le> 4294967295"
  shows "\<exists>ht ht'. run_ops hash_put hash_unset ops (zend_hash_init nSize True) = Some ht
    \<and> zend_hash_destroy ht = Some ht' \<and> heap ht' = Map.empty
    \<and> mset (destroyed ht') = mset (put_values ops)"
proof -
  obtain ht where run: "run_ops hash_put hash_unset ops (zend_hash_init nSize True) = Some ht"
    and ht: "array_inv ht" "hash_entries ht = Some (om_run ops [])"
    using php_array.run_refines [OF array_inv_init assms(1)] assms(2) by auto
  have "mset (destroyed ht) + image_mset snd (mset (om_run ops [])) = mset (put_values ops)"
    using php_array.run_conserves [OF array_inv_init assms(1) _ run ht(2)] assms(2)
    by (simp add: zend_hash_init_def)
  with run hash_destroy_releases [OF ht] show ?thesis by fastforce
qed

theorem hash_table_destroys_each_value_once_witness:
  "\<exists>ht ht'. run_ops hash_put hash_unset [Put (HKStr ''a'') 1, Put (HKStr ''a'') 2, Del (HKIdx 5), Put (HKIdx 5) (3::nat)]
      (zend_hash_init 8 True) = Some ht
    \<and> zend_hash_destroy ht = Some ht' \<and> heap ht' = Map.empty \<and> mset (destroyed ht') = {#1, 2, 3#}"
  using hash_table_destroys_each_value_once
    [of "[Put (HKStr ''a'') 1, Put (HKStr ''a'') 2, Del (HKIdx 5), Put (HKIdx 5) (3::nat)]" 8]
  by (auto simp: hash_key_ok_def)

end
