(* ===== verification/Zend_List.thy ===== *)
theory Zend_List
  imports Zend_Hash_Correct
begin

text \<open>
  The resource list of a request (Zend/zend_list.c): reference-counted entries kept in a hash
  table under numeric ids (\<open>EG (regular_list)\<close>). A resource pointer is a natural number. The
  table's destructor (\<open>list_entry_destructor\<close>) is recorded by the table itself, so the sequence of
  closed resources can be read off \<open>destroyed\<close>.
\<close>

record zend_rsrc_list_entry =
  le_ptr :: nat
  le_type :: int
  le_refcount :: int

type_synonym rsrc_list = "zend_rsrc_list_entry HashTable"

text \<open>An \<open>int\<close> id used as a \<open>ulong\<close> index (sign extension), and back (truncation).\<close>

definition id_index :: "int \<Rightarrow> ulong" where
  "id_index rid = word_of_int rid"

definition index_id :: "ulong \<Rightarrow> int" where
  "index_id h = to_int32 (uint h)"

definition zend_list_insert :: "nat \<Rightarrow> int \<Rightarrow> rsrc_list \<Rightarrow> (int \<times> rsrc_list) option" where
  "zend_list_insert ptr type ht = do {
     let index = index_id (zend_hash_next_free_element ht);
     r \<leftarrow> zend_hash_index_update_or_next_insert ht (id_index index)
           \<lparr>le_ptr = ptr, le_type = type, le_refcount = 1\<rparr> HASH_UPDATE;
     Some (index, snd r) }"

text \<open>\<open>zend_hash_index_find\<close> yields a pointer into the bucket, through which \<open>refcount\<close> is changed.\<close>

definition set_refcount :: "addr \<Rightarrow> int \<Rightarrow> rsrc_list \<Rightarrow> rsrc_list option" where
  "set_refcount a n ht = set_bucket a (\<lambda>b. b\<lparr>b_pData := (b_pData b)\<lparr>le_refcount := n\<rparr>\<rparr>) ht"

definition zend_list_delete :: "int \<Rightarrow> rsrc_list \<Rightarrow> (zresult \<times> rsrc_list) option" where
  "zend_list_delete rid ht = do {
     p \<leftarrow> hash_lookup ht (id_index rid) [];
     (case p of
        None \<Rightarrow> Some (FAILURE, ht)
      | Some a \<Rightarrow>
          do { b \<leftarrow> heap ht a;
               let n = to_int32 (le_refcount (b_pData b) - 1);
               ht \<leftarrow> set_refcount a n ht;
               (if n \<le> 0 then zend_hash_del_key_or_index ht [] (id_index rid) HASH_DEL_INDEX
                else Some (SUCCESS, ht)) }) }"

definition zend_list_find :: "int \<Rightarrow> rsrc_list \<Rightarrow> (nat option \<times> int) option" where
  "zend_list_find rid ht = do {
     r \<leftarrow> zend_hash_index_find ht (id_index rid);
     Some (case r of Some le \<Rightarrow> (Some (le_ptr le), le_type le) | None \<Rightarrow> (None, -1)) }"

definition zend_list_addref :: "int \<Rightarrow> rsrc_list \<Rightarrow> (zresult \<times> rsrc_list) option" where
  "zend_list_addref rid ht = do {
     p \<leftarrow> hash_lookup ht (id_index rid) [];
     (case p of
        None \<Rightarrow> Some (FAILURE, ht)
      | Some a \<Rightarrow>
          do { b \<leftarrow> heap ht a;
               ht \<leftarrow> set_refcount a (to_int32 (le_refcount (b_pData b) + 1)) ht;
               Some (SUCCESS, ht) }) }"

definition zend_register_resource :: "nat \<Rightarrow> int \<Rightarrow> rsrc_list \<Rightarrow> (int \<times> rsrc_list) option" where
  "zend_register_resource rsrc_pointer rsrc_type ht = zend_list_insert rsrc_pointer rsrc_type ht"

section \<open>Changing a count in place\<close>

lemma set_refcount_ok:
  assumes rep: "ht_rep ht gs cs" and a: "a \<in> set gs" "bucket_key (heap ht) a = k" "heap ht a = Some b"
  shows "\<exists>ht'. set_refcount a n ht = Some ht' \<and> ht_rep ht' gs cs
    \<and> ht_entries ht' gs = om_replace k ((b_pData b)\<lparr>le_refcount := n\<rparr>) (ht_entries ht gs)
    \<and> destroyed ht' = destroyed ht \<and> nNextFreeElement ht' = nNextFreeElement ht
    \<and> pDestructor ht' = pDestructor ht"
proof -
  define ht0 where "ht0 = ht\<lparr>pDestructor := False\<rparr>"
  have rep0: "ht_rep ht0 gs cs" by (rule ht_rep_cong [OF rep]) (simp_all add: ht0_def)
  have e0: "ht_entries ht0 gs = ht_entries ht gs" by (simp add: ht0_def ht_entries_def)
  have k0: "bucket_key (heap ht0) a = k" using a by (simp add: ht0_def)
  obtain ht' where u: "update_data a ((b_pData b)\<lparr>le_refcount := n\<rparr>) ht0 = Some ht'" "ht_rep ht' gs cs"
      "ht_entries ht' gs = om_replace k ((b_pData b)\<lparr>le_refcount := n\<rparr>) (ht_entries ht gs)"
      "destroyed ht' = destroyed ht" "nNextFreeElement ht' = nNextFreeElement ht"
    using update_data_ok [OF rep0 a(1) k0] e0 by (auto simp: ht0_def)
  let ?ht = "ht'\<lparr>pDestructor := pDestructor ht\<rparr>"
  have "set_refcount a n ht = Some ?ht"
    using u(1) a(3) by (auto simp: set_refcount_def update_data_def set_bucket_def ht0_def call_destructor_def)
  moreover have "ht_rep ?ht gs cs" by (rule ht_rep_cong [OF u(2)]) simp_all
  moreover have "ht_entries ?ht gs = ht_entries ht' gs" by (simp add: ht_entries_def)
  ultimately show ?thesis using u by auto
qed

section \<open>Reference counting\<close>

lemma rsrc_lookup:
  assumes inv: "array_inv ht" and es: "hash_entries ht = Some es"
    and le: "map_of es (HKIdx (id_index rid)) = Some le"
  obtains gs cs a b where "ht_rep ht gs cs" "keys_ok (ht_entries ht gs)" "pDestructor ht"
    "es = user_entries (ht_entries ht gs)" "hash_lookup ht (id_index rid) [] = Some (Some a)"
    "a \<in> set gs" "bucket_key (heap ht) a = (id_index rid, [])" "heap ht a = Some b" "b_pData b = le"
proof -
  obtain gs cs where rep: "ht_rep ht gs cs" and ok: "keys_ok (ht_entries ht gs)" and d: "pDestructor ht"
    and e: "es = user_entries (ht_entries ht gs)"
    using array_inv_entries [OF inv] es by auto
  have "hash_key_ok (HKIdx (id_index rid))" by (simp add: hash_key_ok_def)
  then have m: "map_of (ht_entries ht gs) (id_index rid, []) = Some le"
    using le user_entries_ops(1) [OF ok, of "HKIdx (id_index rid)"] by (simp add: e)
  from rep show thesis
  proof (cases rule: hash_lookup_spec [where h = "id_index rid" and k = "[]"])
    case (found a)
    have "heap ht a \<noteq> None" using found(2) rep by (simp add: ht_rep_def global_ok_def del: not_None_eq)
    then obtain b where b: "heap ht a = Some b" by blast
    with map_of_ht_entries [OF rep found(2,3)] m have "b_pData b = le" by simp
    with that rep ok d e found b show ?thesis by blast
  next
    case missing
    then show ?thesis using map_of_ht_entries_None m by fastforce
  qed
qed

lemma set_refcount_array:
  assumes inv: "array_inv ht" and es: "hash_entries ht = Some es"
    and le: "map_of es (HKIdx (id_index rid)) = Some le"
  shows "\<exists>a b ht'. hash_lookup ht (id_index rid) [] = Some (Some a) \<and> heap ht a = Some b \<and> b_pData b = le
    \<and> set_refcount a n ht = Some ht' \<and> array_inv ht'
    \<and> hash_entries ht' = Some (om_replace (HKIdx (id_index rid)) (le\<lparr>le_refcount := n\<rparr>) es)
    \<and> destroyed ht' = destroyed ht"
proof -
  let ?k = "HKIdx (id_index rid)"
  obtain gs cs a b where l: "ht_rep ht gs cs" "keys_ok (ht_entries ht gs)" "pDestructor ht"
    "es = user_entries (ht_entries ht gs)" "hash_lookup ht (id_index rid) [] = Some (Some a)"
    "a \<in> set gs" "bucket_key (heap ht) a = (id_index rid, [])" "heap ht a = Some b" "b_pData b = le"
    by (rule rsrc_lookup [OF inv es le])
  obtain ht' where s: "set_refcount a n ht = Some ht'" "ht_rep ht' gs cs"
    "ht_entries ht' gs = om_replace (id_index rid, []) (le\<lparr>le_refcount := n\<rparr>) (ht_entries ht gs)"
    "destroyed ht' = destroyed ht" "pDestructor ht' = pDestructor ht"
    using set_refcount_ok [OF l(1,6,7,8), of n] l(9) by auto
  have k: "hash_key_ok ?k" by (simp add: hash_key_ok_def)
  have "keys_ok (ht_entries ht' gs)"
    using l(2) unfolding s(3) by (auto simp: keys_ok_def om_replace_def user_key_def)
  then have "array_inv ht'" "hash_entries ht' = Some (user_entries (ht_entries ht' gs))"
    using array_invI [of ht' gs cs] s(2,5) l(3) by auto
  moreover have "user_entries (ht_entries ht' gs) = om_replace ?k (le\<lparr>le_refcount := n\<rparr>) es"
    unfolding s(3) l(4) using user_entries_ops(3) [OF l(2) k] by simp
  ultimately show ?thesis using l s by auto
qed

lemma del_index_success:
  assumes "array_inv ht" "hash_entries ht = Some es" "HKIdx i \<in> fst ` set es"
  shows "\<exists>ht'. zend_hash_del_key_or_index ht [] i HASH_DEL_INDEX = Some (SUCCESS, ht')"
proof -
  obtain gs cs where rep: "ht_rep ht gs cs" and ok: "keys_ok (ht_entries ht gs)"
    and e: "es = user_entries (ht_entries ht gs)"
    using array_inv_entries [OF assms(1)] assms(2) by auto
  have "(i, []) \<in> fst ` set (ht_entries ht gs)"
    using assms(3) user_entries_ops(2) [OF ok, of "HKIdx i"] by (simp add: e hash_key_ok_def)
  then show ?thesis
    using del_key_or_index_ok [OF rep, where k = "[]" and h = i and flag = HASH_DEL_INDEX] by auto
qed

lemma om_delete_replace: "om_delete k (om_replace k v es) = om_delete k es"
  by (induction es) (auto simp: om_delete_def om_replace_def)

lemma om_dropped_replace: "k \<in> fst ` set es \<Longrightarrow> distinct (map fst es) \<Longrightarrow> om_dropped k (om_replace k v es) = [v]"
proof -
  assume k: "k \<in> fst ` set es" and d: "distinct (map fst es)"
  have "map fst (om_replace k v es) = map fst es" by (simp add: om_replace_def)
  moreover have "om_replace k v es = om_update k v es" using k by (simp add: om_update_def)
  ultimately show ?thesis
    using om_dropped_distinct [of "om_replace k v es" k] k d map_of_om_update [of k v es]
    by (metis fun_upd_same list.set_map option.sel)
qed

text \<open>
  Reference counting of resources: on a well-formed resource list, \<open>zend_list_addref\<close> on a live
  id adds one reference and closes nothing; \<open>zend_list_delete\<close> takes one away, and closes the
  resource, exactly once, precisely when that was the last reference. All other resources stay as
  they are.
\<close>

lemma list_refcount:
  assumes inv: "array_inv ht" and es: "hash_entries ht = Some es"
    and le: "map_of es (HKIdx (id_index rid)) = Some le"
    and n: "0 < le_refcount le" "le_refcount le < 2147483647"
  shows "(\<exists>ht'. zend_list_addref rid ht = Some (SUCCESS, ht') \<and> array_inv ht'
      \<and> hash_entries ht' = Some (om_replace (HKIdx (id_index rid)) (le\<lparr>le_refcount := le_refcount le + 1\<rparr>) es)
      \<and> destroyed ht' = destroyed ht)
    \<and> (\<exists>ht'. zend_list_delete rid ht = Some (SUCCESS, ht') \<and> array_inv ht'
      \<and> (if le_refcount le = 1
         then hash_entries ht' = Some (om_delete (HKIdx (id_index rid)) es)
           \<and> destroyed ht' = destroyed ht @ [le\<lparr>le_refcount := 0\<rparr>]
         else hash_entries ht' =
             Some (om_replace (HKIdx (id_index rid)) (le\<lparr>le_refcount := le_refcount le - 1\<rparr>) es)
           \<and> destroyed ht' = destroyed ht))"
proof
  let ?k = "HKIdx (id_index rid)"
  have w: "to_int32 (le_refcount le + 1) = le_refcount le + 1" "to_int32 (le_refcount le - 1) = le_refcount le - 1"
    using n by (auto intro!: to_int32_id)
  show "\<exists>ht'. zend_list_addref rid ht = Some (SUCCESS, ht') \<and> array_inv ht'
      \<and> hash_entries ht' = Some (om_replace ?k (le\<lparr>le_refcount := le_refcount le + 1\<rparr>) es)
      \<and> destroyed ht' = destroyed ht"
    using set_refcount_array [OF inv es le, of "le_refcount le + 1"] w by (auto simp: zend_list_addref_def)
  obtain a b ht1 where s: "hash_lookup ht (id_index rid) [] = Some (Some a)" "heap ht a = Some b" "b_pData b = le"
    "set_refcount a (le_refcount le - 1) ht = Some ht1" "array_inv ht1"
    "hash_entries ht1 = Some (om_replace ?k (le\<lparr>le_refcount := le_refcount le - 1\<rparr>) es)"
    "destroyed ht1 = destroyed ht"
    using set_refcount_array [OF inv es le, of "le_refcount le - 1"] by auto
  show "\<exists>ht'. zend_list_delete rid ht = Some (SUCCESS, ht') \<and> array_inv ht'
      \<and> (if le_refcount le = 1
         then hash_entries ht' = Some (om_delete ?k es) \<and> destroyed ht' = destroyed ht @ [le\<lparr>le_refcount := 0\<rparr>]
         else hash_entries ht' = Some (om_replace ?k (le\<lparr>le_refcount := le_refcount le - 1\<rparr>) es)
           \<and> destroyed ht' = destroyed ht)"
  proof (cases "le_refcount le = 1")
    case False
    with s w n show ?thesis by (auto simp: zend_list_delete_def)
  next
    case True
    let ?es = "om_replace ?k (le\<lparr>le_refcount := 0\<rparr>) es"
    have k: "?k \<in> fst ` set es" using le by (metis domI dom_map_of_conv_image_fst)
    then have "?k \<in> set (map fst ?es)" by (simp add: om_replace_def comp_def if_distrib [of fst] cong: if_cong)
    then have "?k \<in> fst ` set ?es" by simp
    then have m: "?k \<in> fst ` set (om_replace ?k (le\<lparr>le_refcount := le_refcount le - 1\<rparr>) es)" using True by simp
    obtain ht2 where d: "zend_hash_del_key_or_index ht1 [] (id_index rid) HASH_DEL_INDEX = Some (SUCCESS, ht2)"
      using del_index_success [OF s(5,6) m] by blast
    moreover have "array_inv ht2 \<and> hash_entries ht2 = Some (om_delete ?k ?es)
        \<and> destroyed ht2 = destroyed ht1 @ om_dropped ?k ?es"
      using hash_unset_ok [OF s(5), of ?k ?es] s(6) d True by (simp add: hash_unset_def hash_key_ok_def)
    ultimately show ?thesis
      using s w True om_dropped_replace [OF k php_array.entries_distinct [OF inv es]]
      by (simp add: zend_list_delete_def om_delete_replace)
  qed
qed

end
