(* ===== verification/Request_State.thy ===== *)
theory Request_State
  imports Zend_List
begin

text \<open>
  The state of one PHP worker as far as the sandbox touches it, and everything outside the
  repository as parameters. \<open>php_state\<close> collects the module globals of the sandbox, mysql, daemon
  and blog extensions, the core setting \<open>open_basedir\<close>, the resource list of the request, the static
  variables of the buffered row reader and the log of reported errors. \<open>externals\<close> holds the
  functions of the operating system, the MySQL client library and the FastCGI layer that the sources
  call; each acts on an opaque \<open>world\<close>. Reporting an \<open>E_ERROR\<close> logs it and leaves the request
  through \<open>zend_bailout\<close> (main/main.c, \<open>php_error_cb\<close>).
\<close>

type_synonym conn = nat
type_synonym row = "string option list"

record conn_params =
  cp_host :: "string option"
  cp_user :: "string option"
  cp_passwd :: string
  cp_dbname :: string
  cp_port :: int
  cp_socket :: "string option"

record 'w externals =
  x_fcgi_getenv :: "'w \<Rightarrow> string \<Rightarrow> string option"
  x_mysqlnd_init :: "'w \<Rightarrow> bool" \<comment> \<open>whether the connection object can be allocated\<close>
  x_mysqlnd_connect :: "conn_params \<Rightarrow> 'w \<Rightarrow> conn option \<times> 'w"
  x_mysql_real_query :: "conn \<Rightarrow> string \<Rightarrow> 'w \<Rightarrow> bool \<times> 'w" \<comment> \<open>whether the query failed\<close>
  x_mysql_store_result :: "conn \<Rightarrow> 'w \<Rightarrow> row list option \<times> 'w"
  x_mysql_error :: "conn \<Rightarrow> 'w \<Rightarrow> string"
  x_mysql_errno :: "conn \<Rightarrow> 'w \<Rightarrow> int"
  x_mysql_insert_id :: "conn \<Rightarrow> 'w \<Rightarrow> int"
  x_mysql_close :: "conn \<Rightarrow> 'w \<Rightarrow> 'w"
  x_getservbyname_mysql :: "'w \<Rightarrow> int option"
  x_getenv :: "'w \<Rightarrow> string \<Rightarrow> string option"
  x_gettimeofday :: "'w \<Rightarrow> (int \<times> int) \<times> 'w"
  x_time :: "'w \<Rightarrow> int"
  x_rand :: "'w \<Rightarrow> int \<times> 'w"
  x_gethostbyname :: "'w \<Rightarrow> string \<Rightarrow> string option"
  x_connect :: "string \<Rightarrow> int \<Rightarrow> 'w \<Rightarrow> nat option \<times> 'w"
  x_send :: "nat \<Rightarrow> string \<Rightarrow> 'w \<Rightarrow> 'w"
  x_recv :: "nat \<Rightarrow> int \<Rightarrow> 'w \<Rightarrow> string \<times> 'w" \<comment> \<open>at most the given number of bytes; none at the end\<close>
  x_close :: "nat \<Rightarrow> 'w \<Rightarrow> 'w"
  x_getcwd :: "'w \<Rightarrow> string option"
  x_expand_filepath :: "'w \<Rightarrow> string \<Rightarrow> string option"
  x_realpath :: "'w \<Rightarrow> string \<Rightarrow> string option"
  x_readlink :: "'w \<Rightarrow> string \<Rightarrow> string option"
  x_ini_set_callable :: bool \<comment> \<open>whether \<open>call_user_function_ex\<close> can call \<open>ini_set\<close>\<close>

text \<open>
  The string settings are C strings set by \<open>OnUpdateString\<close>; those the code compares with the
  null pointer are optional.
\<close>

record 'w php_state =
  sapi_name :: string
  admindb_host :: string
  admindb_port :: int
  admindb_filesock :: string
  admindb_name :: string
  admindb_user :: string
  admindb_pass :: string
  chroot_basedir :: string
  chroot_basedir_peruser :: "string option"
  trusted_code_dir :: "string option"
  user_upload_dir :: "string option"
  hostname_for_subdomain :: string
  admindb_sock :: "conn option"
  appid :: int
  appname :: "string option"
  start_time :: "int \<times> int"
  query_num :: ulong
  default_port :: int
  default_socket :: "string option"
  max_links :: int
  num_links :: int
  connect_timeout :: int
  connect_error :: "string option"
  connect_errno :: int
  default_link :: int
  le_link :: int
  regular_list :: rsrc_list
  daemon_hostname :: string
  daemon_port :: int
  allowed_hosts :: string
  userdb_prefix :: string
  max_blogs_per_email :: int
  open_basedir :: "string option"
  br_buffered :: uint
  br_start :: uint
  br_query :: "string option"
  br_sock :: "conn option"
  br_res :: "row list option"
  errors :: "(severity \<times> string) list"
  world :: 'w

type_synonym ('w, 'a) php = "('w php_state, 'a) cprog"

section \<open>Reporting errors\<close>

definition php_error_docref :: "severity \<Rightarrow> string \<Rightarrow> ('w, unit) php" where
  "php_error_docref sev msg = (\<lambda>s.
     (if sev = E_ERROR then Bailout else Ret (), s\<lparr>errors := errors s @ [(sev, msg)]\<rparr>))"

text \<open>A call of an external function that may change the world.\<close>

definition xcall :: "('w \<Rightarrow> 'a \<times> 'w) \<Rightarrow> ('w, 'a) php" where
  "xcall f = (\<lambda>s. case f (world s) of (x, w) \<Rightarrow> (Ret x, s\<lparr>world := w\<rparr>))"

definition xread :: "('w \<Rightarrow> 'a) \<Rightarrow> ('w, 'a) php" where
  "xread f = (\<lambda>s. (Ret (f (world s)), s))"

text \<open>The value a null-pointer or short-array access would read.\<close>

definition deref :: "'a option \<Rightarrow> ('w, 'a) php" where
  "deref p = (case p of None \<Rightarrow> cundef | Some x \<Rightarrow> cret x)"

definition column :: "row \<Rightarrow> nat \<Rightarrow> ('w, string option) php" where
  "column r i = (if i < length r then cret (r ! i) else cundef)"

lemma php_error_warning [simp, cprog_simps]:
  "sev \<noteq> E_ERROR \<Longrightarrow> cseq (php_error_docref sev msg) k s = k (s\<lparr>errors := errors s @ [(sev, msg)]\<rparr>)"
  by (simp add: php_error_docref_def cseq_def cbind_def)

lemma php_error_fatal [simp, cprog_simps]:
  "cseq (php_error_docref E_ERROR msg) k s = (Bailout, s\<lparr>errors := errors s @ [(E_ERROR, msg)]\<rparr>)"
  by (simp add: php_error_docref_def cseq_def cbind_def)

lemma xcall_bind [cprog_simps]:
  "cbind (xcall f) k s = (case f (world s) of (x, w) \<Rightarrow> k x (s\<lparr>world := w\<rparr>))"
  by (auto simp: xcall_def cbind_def split: prod.splits)

lemma xread_bind [simp, cprog_simps]: "cbind (xread f) k s = k (f (world s)) s"
  by (simp add: xread_def cbind_def)

lemma deref_simps [simp, cprog_simps]: "deref (Some x) = cret x" "deref None s = (Undef, s)"
  by (simp_all add: deref_def cundef_def)

lemma column_in [simp, cprog_simps]: "i < length r \<Longrightarrow> column r i = cret (r ! i)"
  by (simp add: column_def)

section \<open>Concrete instances\<close>

text \<open>
  A small environment on which the theorems are instantiated: a file system with three existing paths, a
  database that answers every query with the two rows of its world, and no network.
\<close>

record sample_world =
  sw_rows :: "row list"
  sw_log :: "string list"
  sw_env :: "(string \<times> string) list"
  sw_up :: bool

definition sample_ext :: "sample_world externals" where
  "sample_ext =
     \<lparr> x_fcgi_getenv = (\<lambda>w. map_of (sw_env w)),
       x_mysqlnd_init = (\<lambda>w. True),
       x_mysqlnd_connect = (\<lambda>p w. (if sw_up w then Some 7 else None, w)),
       x_mysql_real_query = (\<lambda>c q w. (\<not> sw_up w, w\<lparr>sw_log := sw_log w @ [q]\<rparr>)),
       x_mysql_store_result = (\<lambda>c w. (Some (sw_rows w), w)),
       x_mysql_error = (\<lambda>c w. ''server has gone away''),
       x_mysql_errno = (\<lambda>c w. 2006),
       x_mysql_insert_id = (\<lambda>c w. 42),
       x_mysql_close = (\<lambda>c w. w),
       x_getservbyname_mysql = (\<lambda>w. Some 3306),
       x_getenv = (\<lambda>w n. None),
       x_gettimeofday = (\<lambda>w. ((100, 250), w)),
       x_time = (\<lambda>w. 1400000000),
       x_rand = (\<lambda>w. (61, w)),
       x_gethostbyname = (\<lambda>w h. Some h),
       x_connect = (\<lambda>a p w. (if sw_up w then Some 3 else None, w)),
       x_send = (\<lambda>sd m w. w\<lparr>sw_log := sw_log w @ [m]\<rparr>),
       x_recv = (\<lambda>sd n w. ([], w)),
       x_close = (\<lambda>sd w. w),
       x_getcwd = (\<lambda>w. None),
       x_expand_filepath = (\<lambda>w p. if p = [] \<or> 4000 < length p \<or> (last p = CHR ''/'' \<and> p \<noteq> ''/'') then None else Some p),
       x_realpath = (\<lambda>w p. if p \<in> {''/'', ''/srv'', ''/srv/app'', ''/srv/app/x''} then Some p else None),
       x_readlink = (\<lambda>w p. None),
       x_ini_set_callable = True \<rparr>"

definition sample_state :: "sample_world php_state" where
  "sample_state =
     \<lparr> sapi_name = ''fpm-fcgi'', admindb_host = ''127.0.0.1'', admindb_port = 3306,
       admindb_filesock = [], admindb_name = ''admin'', admindb_user = ''root'', admindb_pass = [],
       chroot_basedir = ''/tmp'', chroot_basedir_peruser = Some ''/srv'',
       trusted_code_dir = Some ''/core:/lib/'', user_upload_dir = Some ''up'',
       hostname_for_subdomain = ''blog.org'', admindb_sock = Some 7, appid = 0, appname = None,
       start_time = (0, 0), query_num = 0, default_port = -1, default_socket = None, max_links = -1,
       num_links = 0, connect_timeout = 60, connect_error = None, connect_errno = 0,
       default_link = -1, le_link = 5, regular_list = zend_hash_init 8 True,
       daemon_hostname = ''127.0.0.1'', daemon_port = 7777, allowed_hosts = ''example.org'',
       userdb_prefix = ''ub_'', max_blogs_per_email = 5, open_basedir = None,
       br_buffered = 0, br_start = 0, br_query = None, br_sock = None, br_res = None,
       errors = [],
       world = \<lparr> sw_rows = [[Some ''1'', Some ''localhost'', Some ''ub_1'', Some ''secret'', Some ''ub_1'']],
                 sw_log = [], sw_env = [(''SERVER_NAME'', ''alice.blog.org''), (''SCRIPT_NAME'', ''/a.php'')],
                 sw_up = True \<rparr> \<rparr>"

end
