(* ===== verification/Mysql_Connect.thy ===== *)
theory Mysql_Connect
  imports Request_State
begin

text \<open>
  The connection the sandbox opens on behalf of an application (ext/mysql/php_mysql.c,
  \<open>sandbox_mysql_do_connect\<close> and \<open>php_mysql_set_default_link\<close>): resolving the default port,
  taking \<open>host:port:socket\<close> apart, the limit on open links, and making the new link the default
  one of the request.
\<close>

definition MYSQL_PORT :: int where
  "MYSQL_PORT = 0"

text \<open>\<open>if (MySG (default_port) < 0) ...\<close>; the assignments go through \<open>uint\<close>.\<close>

definition resolve_default_port :: "'w externals \<Rightarrow> ('w, unit) php" where
  "resolve_default_port E =
     cbind (cget default_port) (\<lambda>p.
       if p < 0 then
         cbind (xread (x_getservbyname_mysql E)) (\<lambda>serv.
         cbind (xread (\<lambda>w. x_getenv E w ''MYSQL_TCP_PORT'')) (\<lambda>env.
           let p1 = (case serv of None \<Rightarrow> MYSQL_PORT | Some port \<Rightarrow> port mod 2 ^ 16);
               p2 = (case env of None \<Rightarrow> p1 | Some e \<Rightarrow> atoi e mod 2 ^ 32)
           in cmodify (\<lambda>s. s\<lparr>default_port := p2\<rparr>)))
       else cret ())"

text \<open>Host, port and socket of a server description.\<close>

definition split_host ::
  "string option \<Rightarrow> int \<Rightarrow> string option \<Rightarrow> string option \<times> int \<times> string option" where
  "split_host host_and_port dport dsocket =
     (case host_and_port of
        None \<Rightarrow> (None, to_int32 dport, dsocket)
      | Some hp \<Rightarrow>
          (case strchr hp (CHR '':'') of
             None \<Rightarrow> (Some hp, to_int32 dport, dsocket)
           | Some i \<Rightarrow>
               (let host = take i hp; tmp = drop (Suc i) hp in
                if cstr_at tmp 0 \<noteq> CHR ''/'' then
                  (Some host, atoi tmp,
                   case strchr tmp (CHR '':'') of None \<Rightarrow> dsocket | Some j \<Rightarrow> Some (drop (Suc j) tmp))
                else (Some host, MYSQL_PORT, Some tmp))))"

definition php_mysql_set_default_link :: "int \<Rightarrow> ('w, unit) php" where
  "php_mysql_set_default_link rid =
     cseq (cmodify (\<lambda>s. s\<lparr>default_link := rid\<rparr>))
     (cbind (cget regular_list) (\<lambda>l.
        case zend_list_addref rid l of
          None \<Rightarrow> cundef
        | Some (_, l') \<Rightarrow> cmodify (\<lambda>s. s\<lparr>regular_list := l'\<rparr>)))"

text \<open>
  \<open>passwd\<close> and \<open>dbname\<close> are given to \<open>strlen\<close>, so a null pointer there is an invalid access. The
  result is the connection, \<open>None\<close> the null pointer.
\<close>

definition sandbox_mysql_do_connect ::
  "'w externals \<Rightarrow> string option \<Rightarrow> string option \<Rightarrow> string option \<Rightarrow> string option \<Rightarrow> ('w, conn option) php" where
  "sandbox_mysql_do_connect E user passwd host_and_port dbname =
     cseq (resolve_default_port E)
     (cbind (cget id) (\<lambda>s.
       let (host, port, socket) = split_host host_and_port (default_port s) (default_socket s) in
       if max_links s \<noteq> -1 \<and> max_links s \<le> num_links s then
         cseq (php_error_docref E_WARNING
                 (vsprintf ''Too many open links (%ld)'' [FInt (num_links s)]))
              (cret None)
       else
         cbind (xread (x_mysqlnd_init E)) (\<lambda>allocated.
         if \<not> allocated then
           cseq (cmodify (\<lambda>s. s\<lparr>connect_error := Some ''OOM''\<rparr>))
           (cseq (php_error_docref E_WARNING ''OOM'') (cret None))
         else
         cbind (deref passwd) (\<lambda>pw.
         cbind (deref dbname) (\<lambda>db.
         cbind (xcall (x_mysqlnd_connect E
                  \<lparr>cp_host = host, cp_user = user, cp_passwd = pw, cp_dbname = db,
                   cp_port = port, cp_socket = socket\<rparr>)) (\<lambda>c.
           case c of
             None \<Rightarrow>
               cbind (xread (x_mysql_error E 0)) (\<lambda>msg.
               cbind (xread (x_mysql_errno E 0)) (\<lambda>no.
                 cseq (cmodify (\<lambda>s. s\<lparr>connect_error := Some msg\<rparr>))
                 (cseq (php_error_docref E_WARNING msg)
                 (cseq (cmodify (\<lambda>s. s\<lparr>connect_errno := no\<rparr>))
                       (cret None)))))
           | Some conn \<Rightarrow>
               cbind (cget regular_list) (\<lambda>l.
               case zend_register_resource conn (le_link s) l of
                 None \<Rightarrow> cundef
               | Some (rid, l') \<Rightarrow>
                   cseq (cmodify (\<lambda>s. s\<lparr>regular_list := l', num_links := to_int64 (num_links s + 1)\<rparr>))
                   (cseq (php_mysql_set_default_link rid)
                         (cret (Some conn))))))))))"

end
