(* ===== verification/Open_Basedir.thy ===== *)
theory Open_Basedir
  imports Mysql_Connect
begin

text \<open>
  The \<open>open_basedir\<close> restriction (main/fopen_wrappers.c), which the sandbox uses to confine an
  application to its own directories: the test of a path against one directory and against the
  configured list, and the handler that lets a running script only tighten the setting. Path
  resolution (\<open>expand_filepath\<close>, \<open>VCWD_REALPATH\<close>, \<open>readlink\<close>, \<open>getcwd\<close>) is a parameter with the contract
  \<open>resolver_ok\<close>; \<open>Path_Resolver\<close> shows that the engine's own functions keep it.
\<close>

text \<open>The offset of the last occurrence of a character.\<close>

fun strrchr :: "string \<Rightarrow> char \<Rightarrow> nat option" where
  "strrchr [] x = None"
| "strrchr (c # s) x =
     (case strrchr s x of Some i \<Rightarrow> Some (Suc i) | None \<Rightarrow> if c = x then Some 0 else None)"

lemma strrchr_Some: "strrchr s x = Some i \<Longrightarrow> i < length s \<and> s ! i = x"
proof (induction s arbitrary: i)
  case (Cons c s)
  then show ?case by (cases "strrchr s x") (auto split: if_splits)
qed simp

text \<open>
  \<open>while (VCWD_REALPATH (path_tmp, resolved_name) == NULL)\<close> from the second iteration on: cut
  the last component off. The result is the resolved name with the final \<open>path_tmp\<close> and
  \<open>path_len\<close>; \<open>None\<close> is the early return \<open>-1\<close>.
\<close>

function resolve_parents ::
  "(string \<Rightarrow> string option) \<Rightarrow> string \<Rightarrow> nat \<Rightarrow> (string \<times> string \<times> nat) option" where
  "resolve_parents rp path_tmp path_len =
     (case rp path_tmp of
        Some resolved_name \<Rightarrow> Some (resolved_name, path_tmp, path_len)
      | None \<Rightarrow>
          (case strrchr path_tmp (CHR ''/'') of
             None \<Rightarrow> None
           | Some i \<Rightarrow> resolve_parents rp (take i path_tmp) (i + 1)))"
  by pat_completeness auto
termination
proof (relation "measure (\<lambda>(rp, p, n). length p)", goal_cases)
  case (2 rp p n i)
  then show ?case using strrchr_Some [of p _ i] by simp
qed auto

declare resolve_parents.simps [simp del]

text \<open>The whole loop; the first iteration looks for a broken symbolic link.\<close>

definition resolve_name ::
  "'w externals \<Rightarrow> 'w \<Rightarrow> string \<Rightarrow> (string \<times> string \<times> nat) option" where
  "resolve_name E w name =
     (case x_realpath E w name of
        Some resolved_name \<Rightarrow> Some (resolved_name, name, length name)
      | None \<Rightarrow>
          (let path_tmp = (case x_readlink E w name of
                             None \<Rightarrow> name | Some buf \<Rightarrow> take (MAXPATHLEN - 1) buf)
           in case strrchr path_tmp (CHR ''/'') of
                None \<Rightarrow> None
              | Some i \<Rightarrow> resolve_parents (x_realpath E w) (take i path_tmp) (i + 1)))"

text \<open>\<open>s[len] = '/'; s[len + 1] = 0\<close> in a buffer of \<open>MAXPATHLEN\<close> bytes.\<close>

definition append_slash :: "string \<Rightarrow> string outcome" where
  "append_slash s = (if length s + 1 < MAXPATHLEN then Ret (s @ ''/'') else Undef)"

text \<open>\<open>local_open_basedir\<close>: the directory ''.'' stands for the working directory.\<close>

definition basedir_dir :: "'w externals \<Rightarrow> 'w \<Rightarrow> string \<Rightarrow> string" where
  "basedir_dir E w basedir =
     (case (basedir = ''.'', x_getcwd E w) of
        (True, Some cwd) \<Rightarrow> cwd | _ \<Rightarrow> take (MAXPATHLEN - 1) basedir)"

definition php_check_specific_open_basedir ::
  "'w externals \<Rightarrow> 'w \<Rightarrow> string \<Rightarrow> string \<Rightarrow> int outcome" where
  "php_check_specific_open_basedir E w basedir path =
     (if MAXPATHLEN - 1 < length path then Ret (-1)
      else case x_expand_filepath E w path of
        None \<Rightarrow> Ret (-1)
      | Some name \<Rightarrow>
          if name = [] then Undef
          else case resolve_name E w name of
            None \<Rightarrow> Ret (-1)
          | Some (resolved_name, path_tmp, path_len) \<Rightarrow>
              (case x_expand_filepath E w (basedir_dir E w basedir) of
                 None \<Rightarrow> Ret (-1)
               | Some rb \<Rightarrow>
                   if rb = [] \<or> basedir = [] \<or> resolved_name = [] then Undef
                   else
                     (case (if last basedir = CHR ''/'' \<and> last rb = CHR ''/'' then Ret rb
                            else append_slash rb) of
                        Undef \<Rightarrow> Undef
                      | Bailout \<Rightarrow> Bailout
                      | Ret resolved_basedir \<Rightarrow>
                          (case (if cstr_at path_tmp (path_len - 1) = CHR ''/''
                                   \<and> last resolved_name \<noteq> CHR ''/''
                                 then append_slash resolved_name else Ret resolved_name) of
                             Undef \<Rightarrow> Undef
                           | Bailout \<Rightarrow> Bailout
                           | Ret resolved_name \<Rightarrow>
                               if strncmp0 resolved_basedir resolved_name (length resolved_basedir) then
                                 if length resolved_basedir < length resolved_name
                                    \<and> resolved_name ! (length resolved_basedir - 1) \<noteq> CHR ''/''
                                 then Ret (-1) else Ret 0
                               else if length resolved_basedir = length resolved_name + 1
                                    \<and> last resolved_basedir = CHR ''/''
                                    \<and> strncmp0 resolved_basedir resolved_name (length resolved_name)
                               then Ret 0 else Ret (-1)))))"

text \<open>\<open>while (ptr && *ptr)\<close> over the list of directories.\<close>

function basedir_loop :: "'w externals \<Rightarrow> 'w \<Rightarrow> string \<Rightarrow> string \<Rightarrow> int outcome" where
  "basedir_loop E w ptr path =
     (if ptr = [] then Ret (-1)
      else
        (let e = strchr ptr (CHR '':''); part = (case e of None \<Rightarrow> ptr | Some i \<Rightarrow> take i ptr) in
         case php_check_specific_open_basedir E w part path of
           Ret r \<Rightarrow>
             if r = 0 then Ret 0
             else (case e of None \<Rightarrow> Ret (-1) | Some i \<Rightarrow> basedir_loop E w (drop (Suc i) ptr) path)
         | Bailout \<Rightarrow> Bailout
         | Undef \<Rightarrow> Undef))"
  by pat_completeness auto
termination
  by (relation "measure (\<lambda>(E, w, ptr, path). length ptr)") auto

declare basedir_loop.simps [simp del]

definition php_check_open_basedir_ex :: "'w externals \<Rightarrow> string \<Rightarrow> bool \<Rightarrow> ('w, int) php" where
  "php_check_open_basedir_ex E path warn =
     cbind (cget id) (\<lambda>s.
       case open_basedir s of
         None \<Rightarrow> cret 0
       | Some dirs \<Rightarrow>
           if dirs = [] then cret 0
           else if MAXPATHLEN - 1 < length path then
             cseq (php_error_docref E_WARNING
                     (vsprintf ''File name is longer than the maximum allowed path length on this platform (%d): %s''
                        [FInt (int MAXPATHLEN), FStr path]))
                  (cret (-1))
           else
             cbind (clift (basedir_loop E (world s) dirs path)) (\<lambda>r.
               if r = 0 then cret 0
               else if warn then
                 cseq (php_error_docref E_WARNING
                         (vsprintf ''open_basedir restriction in effect. File(%s) is not within the allowed path(s): (%s)''
                            [FStr path, FStr dirs]))
                      (cret (-1))
               else cret (-1)))"

definition php_check_open_basedir :: "'w externals \<Rightarrow> string \<Rightarrow> ('w, int) php" where
  "php_check_open_basedir E path = php_check_open_basedir_ex E path True"

section \<open>Changing the setting\<close>

datatype ini_stage =
  INI_STAGE_STARTUP | INI_STAGE_SHUTDOWN | INI_STAGE_ACTIVATE | INI_STAGE_DEACTIVATE
  | INI_STAGE_RUNTIME | INI_STAGE_HTACCESS

function tighter_loop :: "'w externals \<Rightarrow> string \<Rightarrow> ('w, zresult) php" where
  "tighter_loop E ptr =
     (if ptr = [] then cret SUCCESS
      else
        (let e = strchr ptr (CHR '':''); part = (case e of None \<Rightarrow> ptr | Some i \<Rightarrow> take i ptr) in
         cbind (php_check_open_basedir_ex E part False) (\<lambda>r.
           if r \<noteq> 0 then cret FAILURE
           else (case e of None \<Rightarrow> cret SUCCESS | Some i \<Rightarrow> tighter_loop E (drop (Suc i) ptr)))))"
  by pat_completeness auto
termination
  by (relation "measure (\<lambda>(E, ptr). length ptr)") auto

declare tighter_loop.simps [simp del]

definition OnUpdateBaseDir :: "'w externals \<Rightarrow> string option \<Rightarrow> ini_stage \<Rightarrow> ('w, zresult) php" where
  "OnUpdateBaseDir E new_value stage =
     (if stage \<in> {INI_STAGE_STARTUP, INI_STAGE_SHUTDOWN, INI_STAGE_ACTIVATE, INI_STAGE_DEACTIVATE}
      then cseq (cmodify (\<lambda>s. s\<lparr>open_basedir := new_value\<rparr>)) (cret SUCCESS)
      else
        cbind (cget open_basedir) (\<lambda>p.
          if p = None \<or> p = Some []
          then cseq (cmodify (\<lambda>s. s\<lparr>open_basedir := new_value\<rparr>)) (cret SUCCESS)
          else
            (case new_value of
               None \<Rightarrow> cret FAILURE
             | Some v \<Rightarrow>
                 if v = [] then cret FAILURE
                 else
                   cbind (tighter_loop E v) (\<lambda>r.
                     if r = SUCCESS
                     then cseq (cmodify (\<lambda>s. s\<lparr>open_basedir := new_value\<rparr>)) (cret SUCCESS)
                     else cret FAILURE))))"

text \<open>
  \<open>ini_set ("open_basedir", value)\<close>: \<open>zend_alter_ini_entry_ex\<close> runs the handler in the runtime
  stage (the entry is \<open>PHP_INI_ALL\<close>). The result says whether the call returned \<open>false\<close>.
\<close>

definition ini_set_open_basedir :: "'w externals \<Rightarrow> string \<Rightarrow> ('w, zresult) php" where
  "ini_set_open_basedir E value = OnUpdateBaseDir E (Some value) INI_STAGE_RUNTIME"

section \<open>The test of one directory\<close>

text \<open>Reference notion: a resolved path is a directory or lies below it.\<close>

definition in_tree :: "string \<Rightarrow> string \<Rightarrow> bool" where
  "in_tree d p \<longleftrightarrow> p = d \<or> prefix (d @ ''/'') p"

lemma in_tree_prefix: "in_tree d p \<longleftrightarrow> prefix (d @ ''/'') (p @ ''/'')"
  by (auto simp: in_tree_def prefix_append prefix_Cons)

lemma in_tree_trans: "in_tree a b \<Longrightarrow> in_tree b c \<Longrightarrow> in_tree a c"
  unfolding in_tree_prefix by (metis prefix_order.trans)

lemma strncmp0_slash:
  "strncmp0 (b @ ''/'') n (length (b @ ''/'')) \<longleftrightarrow> prefix (b @ ''/'') n"
proof
  assume "strncmp0 (b @ ''/'') n (length (b @ ''/''))"
  then have eq: "b @ ''/'' = take (Suc (length b)) (n @ [NUL])" by (simp add: strncmp0_def)
  show "prefix (b @ ''/'') n"
  proof (cases "length b < length n")
    case True
    then have "b @ ''/'' = take (Suc (length b)) n" using eq by simp
    then show ?thesis by (metis take_is_prefix)
  next
    case False
    then have "b @ ''/'' = n @ [NUL]" using eq by simp
    then show ?thesis by (simp add: NUL_def)
  qed
next
  assume "prefix (b @ ''/'') n"
  then show "strncmp0 (b @ ''/'') n (length (b @ ''/''))" by (auto simp: strncmp0_def prefix_def)
qed

text \<open>
  The directory a setting stands for: the code appends a slash to the expanded name unless both the setting and the
  expanded name end in one.
\<close>

definition base_of :: "string \<Rightarrow> string \<Rightarrow> string" where
  "base_of basedir rb = (if last basedir = CHR ''/'' \<and> last rb = CHR ''/'' then butlast rb else rb)"

definition plain_path :: "string \<Rightarrow> bool" where
  "plain_path n \<longleftrightarrow> n \<noteq> [] \<and> (last n = CHR ''/'' \<longrightarrow> n = ''/'') \<and> length n + 1 < MAXPATHLEN"

lemma plain_pathD: "plain_path n \<Longrightarrow> n \<noteq> []" "plain_path n \<Longrightarrow> last n = CHR ''/'' \<Longrightarrow> n = ''/''"
    "plain_path n \<Longrightarrow> length n + 1 < MAXPATHLEN"
  by (simp_all add: plain_path_def)

lemma check_specific_eq:
  assumes path: "length path < MAXPATHLEN" "x_expand_filepath E w path = Some name" "name \<noteq> []"
    and res: "resolve_name E w name = Some (rn, path_tmp, path_len)" "plain_path rn"
    and base: "x_expand_filepath E w (basedir_dir E w basedir) = Some rb" "rb \<noteq> []" "basedir \<noteq> []"
      "last (base_of basedir rb) = CHR ''/'' \<longrightarrow> base_of basedir rb \<in> {[], ''/''}"
      "base_of basedir rb = rb \<longrightarrow> length rb + 1 < MAXPATHLEN"
  shows "php_check_specific_open_basedir E w basedir path = Ret (if in_tree (base_of basedir rb) rn then 0 else -1)"
proof -
  define B where "B = base_of basedir rb"
  have rn: "rn \<noteq> []" "last rn = CHR ''/'' \<longrightarrow> rn = ''/''" "length rn + 1 < MAXPATHLEN"
    using res(2) by (simp_all add: plain_path_def)
  define N where "N = (if cstr_at path_tmp (path_len - 1) = CHR ''/'' \<and> last rn \<noteq> CHR ''/''
                       then rn @ ''/'' else rn)"
  have "rn @ ''/'' \<noteq> B" using base(4) rn(1) last_snoc [of rn "CHR ''/''"] unfolding B_def [symmetric] by auto
  then have N: "prefix (B @ ''/'') (N @ ''/'') \<longleftrightarrow> in_tree B rn"
    by (auto simp: N_def in_tree_prefix prefix_append prefix_Cons)
  have app: "(if cstr_at path_tmp (path_len - 1) = CHR ''/'' \<and> last rn \<noteq> CHR ''/''
        then append_slash rn else Ret rn) = Ret N"
    using rn(3) by (auto simp: N_def append_slash_def)
  have bas: "(if last basedir = CHR ''/'' \<and> last rb = CHR ''/'' then Ret rb else append_slash rb) = Ret (B @ ''/'')"
  proof (cases "last basedir = CHR ''/'' \<and> last rb = CHR ''/''")
    case True
    then show ?thesis using base(2) append_butlast_last_id [of rb] by (simp add: B_def base_of_def)
  next
    case False
    with base(5) show ?thesis by (auto simp: B_def base_of_def append_slash_def)
  qed
  have "(if strncmp0 (B @ ''/'') N (length (B @ ''/'')) then
           if length (B @ ''/'') < length N \<and> N ! (length (B @ ''/'') - 1) \<noteq> CHR ''/''
           then Ret (-1) else Ret 0
         else if length (B @ ''/'') = length N + 1 \<and> last (B @ ''/'') = CHR ''/''
              \<and> strncmp0 (B @ ''/'') N (length N)
         then Ret 0 else Ret (-1 :: int)) = Ret (if prefix (B @ ''/'') (N @ ''/'') then 0 else -1)"
  proof (cases "prefix (B @ ''/'') N")
    case True
    then have "N ! length B = CHR ''/''" by (auto simp: prefix_def)
    with True show ?thesis unfolding strncmp0_slash by (auto intro: prefix_order.trans)
  next
    case False
    then show ?thesis
      unfolding strncmp0_slash
      by (auto simp: strncmp0_def prefix_append prefix_Cons)
  qed
  moreover have "\<not> MAXPATHLEN - 1 < length path" using path(1) by simp
  ultimately show ?thesis
    using app bas N path res(1) rn(1) base(1-3)
    unfolding php_check_specific_open_basedir_def B_def [symmetric]
    by simp
qed

section \<open>Lists of directories\<close>

text \<open>
  What the rest relies on of path resolution. Expansion fails on the empty path and yields a bounded name without a
  trailing slash (the root directory aside), or such a name with the slash the given path ended in.
  \<open>realpath\<close> yields such names without exception, and a directory above a result is resolved to itself, also when
  it is written with a trailing slash, which never names a symbolic link. The root directory
  is resolved to itself, and \<open>.\<close> is expanded like the working directory.
\<close>

definition resolver_ok :: "'w externals \<Rightarrow> 'w \<Rightarrow> bool" where
  "resolver_ok E w \<longleftrightarrow>
     x_expand_filepath E w [] = None \<and>
     (\<forall>p q. x_expand_filepath E w p = Some q \<longrightarrow>
        length p + 1 < MAXPATHLEN \<and>
        (\<exists>n. plain_path n \<and> (q = n \<or> last p = CHR ''/'' \<and> n \<noteq> ''/'' \<and> q = n @ ''/''))) \<and>
     (\<forall>a r. x_realpath E w a = Some r \<longrightarrow>
        plain_path r \<and>
        (\<forall>b. b \<noteq> [] \<and> in_tree b r \<longrightarrow> x_realpath E w b = Some b \<and>
          (x_realpath E w (b @ ''/'') = Some b \<or> x_realpath E w (b @ ''/'') = None \<and> x_readlink E w (b @ ''/'') = None))) \<and>
     x_realpath E w ''/'' = Some ''/'' \<and>
     (\<forall>cwd. x_getcwd E w = Some cwd \<longrightarrow> x_expand_filepath E w ''.'' = x_expand_filepath E w cwd)"

lemma resolve_parents_realpath: "resolve_parents rp a n = Some (rn, t, l) \<Longrightarrow> \<exists>b. rp b = Some rn"
proof (induction rp a n rule: resolve_parents.induct)
  case (1 rp a n)
  then show ?case by (auto simp: resolve_parents.simps [of rp a] split: option.splits)
qed

lemma resolve_name_plain:
  assumes "resolver_ok E w" "resolve_name E w q = Some (rn, t, l)"
  shows "plain_path rn"
    and "\<And>b. b \<noteq> [] \<Longrightarrow> in_tree b rn \<Longrightarrow> x_realpath E w b = Some b \<and>
      (x_realpath E w (b @ ''/'') = Some b \<or> x_realpath E w (b @ ''/'') = None \<and> x_readlink E w (b @ ''/'') = None)"
proof -
  obtain a where "x_realpath E w a = Some rn"
    using assms(2) by (auto simp: resolve_name_def Let_def split: option.splits dest!: resolve_parents_realpath)
  with assms(1) show "plain_path rn" "\<And>b. b \<noteq> [] \<Longrightarrow> in_tree b rn \<Longrightarrow> x_realpath E w b = Some b \<and>
      (x_realpath E w (b @ ''/'') = Some b \<or> x_realpath E w (b @ ''/'') = None \<and> x_readlink E w (b @ ''/'') = None)"
    unfolding resolver_ok_def by blast+
qed

lemma basedir_dir_empty: "basedir_dir E w [] = []"
  by (simp add: basedir_dir_def)

lemma expand_basedir_dir:
  assumes "resolver_ok E w" "x_expand_filepath E w (basedir_dir E w d) = Some rb"
  shows "x_expand_filepath E w d = Some rb"
proof (cases "d = ''.'' \<and> x_getcwd E w \<noteq> None")
  case True
  with assms show ?thesis by (auto simp: resolver_ok_def basedir_dir_def)
next
  case False
  then have d: "basedir_dir E w d = take (MAXPATHLEN - 1) d" by (auto simp: basedir_dir_def split: option.splits bool.splits)
  have "length (basedir_dir E w d) + 1 < MAXPATHLEN" using assms unfolding resolver_ok_def by blast
  then have "basedir_dir E w d = d" unfolding d by (auto simp: MAXPATHLEN_def)
  with assms(2) show ?thesis by simp
qed

text \<open>The forms a directory of the list can take.\<close>

lemma base_of_cases:
  assumes "resolver_ok E w" "x_expand_filepath E w (basedir_dir E w d) = Some rb"
  obtains n where "plain_path n" "d \<noteq> []" "rb = n \<or> rb = n @ ''/'' \<and> n \<noteq> ''/''"
    "base_of d rb = (if n = ''/'' \<and> last d = CHR ''/'' then [] else n)"
proof -
  note e = expand_basedir_dir [OF assms]
  then have d: "d \<noteq> []" using assms(1) by (auto simp: resolver_ok_def)
  obtain n where n: "plain_path n" "rb = n \<or> last d = CHR ''/'' \<and> n \<noteq> ''/'' \<and> rb = n @ ''/''"
    using assms(1) e unfolding resolver_ok_def by blast
  have "base_of d rb = (if n = ''/'' \<and> last d = CHR ''/'' then [] else n)"
  proof (cases "rb = n")
    case True
    have "last n = CHR ''/'' \<longleftrightarrow> n = ''/''" using plain_pathD(2) [OF n(1)] by (metis last.simps)
    with True show ?thesis by (auto simp: base_of_def)
  next
    case False
    with n(2) show ?thesis by (simp add: base_of_def)
  qed
  with n d that show thesis by blast
qed

text \<open>The directory list as the loop sees it, and what it means for a path to be within it.\<close>

definition basedir_allows :: "'w externals \<Rightarrow> 'w \<Rightarrow> string \<Rightarrow> string \<Rightarrow> bool" where
  "basedir_allows E w basedir path \<longleftrightarrow>
     (\<exists>name rn t l rb. x_expand_filepath E w path = Some name \<and> resolve_name E w name = Some (rn, t, l)
        \<and> x_expand_filepath E w (basedir_dir E w basedir) = Some rb \<and> in_tree (base_of basedir rb) rn)"

lemma check_specific_iff:
  assumes ok: "resolver_ok E w" and len: "length path < MAXPATHLEN"
  shows "php_check_specific_open_basedir E w basedir path
    = Ret (if basedir_allows E w basedir path then 0 else -1)"
proof (cases "x_expand_filepath E w path")
  case None
  with len show ?thesis by (simp add: php_check_specific_open_basedir_def basedir_allows_def)
next
  case (Some name)
  then have "\<exists>n. plain_path n \<and> (name = n \<or> name = n @ ''/'')" using ok unfolding resolver_ok_def by blast
  then have name: "name \<noteq> []" using plain_pathD(1) by blast
  show ?thesis
  proof (cases "resolve_name E w name")
    case None
    with Some len name show ?thesis
      by (simp add: php_check_specific_open_basedir_def basedir_allows_def)
  next
    case (Some r)
    then obtain rn t l where r: "resolve_name E w name = Some (rn, t, l)" by (cases r) auto
    note rn = resolve_name_plain(1) [OF ok r]
    show ?thesis
    proof (cases "x_expand_filepath E w (basedir_dir E w basedir)")
      case None
      with r name len \<open>x_expand_filepath E w path = Some name\<close> show ?thesis
        by (simp add: php_check_specific_open_basedir_def basedir_allows_def)
    next
      case (Some rb)
      obtain n where n: "plain_path n" "basedir \<noteq> []" "rb = n \<or> rb = n @ ''/'' \<and> n \<noteq> ''/''"
        "base_of basedir rb = (if n = ''/'' \<and> last basedir = CHR ''/'' then [] else n)"
        by (rule base_of_cases [OF ok Some])
      have "rb \<noteq> []" using n(3) plain_pathD(1) [OF n(1)] by blast
      moreover have "base_of basedir rb = [] \<or> base_of basedir rb = n" by (simp add: n(4))
      then have "last (base_of basedir rb) = CHR ''/'' \<longrightarrow> base_of basedir rb \<in> {[], ''/''}"
        using plain_pathD(2) [OF n(1)] by blast
      moreover have "base_of basedir rb = rb \<longrightarrow> length rb + 1 < MAXPATHLEN"
        using \<open>base_of basedir rb = [] \<or> _\<close> \<open>rb \<noteq> []\<close> plain_pathD(3) [OF n(1)] by auto
      ultimately have bb: "rb \<noteq> []" "last (base_of basedir rb) = CHR ''/'' \<longrightarrow> base_of basedir rb \<in> {[], ''/''}"
        "base_of basedir rb = rb \<longrightarrow> length rb + 1 < MAXPATHLEN" by blast+
      from check_specific_eq [OF len \<open>x_expand_filepath E w path = Some name\<close> name r rn Some bb(1) n(2) bb(2,3)]
      have "php_check_specific_open_basedir E w basedir path = Ret (if in_tree (base_of basedir rb) rn then 0 else -1)" .
      moreover have "basedir_allows E w basedir path \<longleftrightarrow> in_tree (base_of basedir rb) rn"
        using r Some \<open>x_expand_filepath E w path = Some name\<close> by (auto simp: basedir_allows_def)
      ultimately show ?thesis by simp
    qed
  qed
qed

text \<open>No directory of the list is the root directory.\<close>

definition no_root :: "'w externals \<Rightarrow> 'w \<Rightarrow> string \<Rightarrow> bool" where
  "no_root E w dirs \<longleftrightarrow>
     (\<forall>d \<in> set (split_sep (CHR '':'') dirs). x_expand_filepath E w (basedir_dir E w d) \<noteq> Some ''/'')"

definition dirs_allow :: "'w externals \<Rightarrow> 'w \<Rightarrow> string \<Rightarrow> string \<Rightarrow> bool" where
  "dirs_allow E w dirs path \<longleftrightarrow> (\<exists>d \<in> set (split_sep (CHR '':'') dirs). basedir_allows E w d path)"

lemma basedir_allows_empty: "resolver_ok E w \<Longrightarrow> \<not> basedir_allows E w [] path"
  by (simp add: basedir_allows_def basedir_dir_empty resolver_ok_def)

lemma basedir_loop_eq:
  assumes ok: "resolver_ok E w" and len: "length path < MAXPATHLEN"
  shows "basedir_loop E w dirs path = Ret (if dirs_allow E w dirs path then 0 else -1)"
proof (induction dirs rule: length_induct)
  case (1 dirs)
  show ?case
  proof (cases "dirs = []")
    case True
    then show ?thesis
      by (simp add: basedir_loop.simps dirs_allow_def split_sep.simps basedir_allows_empty [OF ok])
  next
    case False
    have spec: "php_check_specific_open_basedir E w d path = Ret (if basedir_allows E w d path then 0 else -1)"
      for d by (rule check_specific_iff [OF ok len])
    show ?thesis
    proof (cases rule: split_sep_cases [of "CHR '':''" dirs])
      case 1
      with False spec [of dirs] show ?thesis
        by (simp add: basedir_loop.simps [of E w dirs] strchr_None [THEN iffD2] dirs_allow_def)
    next
      case (2 a b)
      have "basedir_loop E w b path = Ret (if dirs_allow E w b path then 0 else -1)"
        using 1 2 by auto
      with 2 spec [of a] show ?thesis
        by (simp add: basedir_loop.simps [of E w "a @ _"] strchr_append dirs_allow_def)
    qed
  qed
qed

section \<open>Tightening\<close>

lemma check_ex_eq:
  assumes "resolver_ok E (world s)" "length path < MAXPATHLEN" "open_basedir s = Some dirs" "dirs \<noteq> []"
  shows "php_check_open_basedir_ex E path False s
    = (Ret (if dirs_allow E (world s) dirs path then 0 else -1), s)"
  using assms basedir_loop_eq [OF assms(1,2)]
  by (auto simp: php_check_open_basedir_ex_def)

lemma check_ex_long:
  assumes "MAXPATHLEN \<le> length path" "open_basedir s = Some dirs" "dirs \<noteq> []"
  shows "\<exists>s'. php_check_open_basedir_ex E path False s = (Ret (-1), s')
    \<and> world s' = world s \<and> open_basedir s' = open_basedir s"
  using assms by (auto simp: php_check_open_basedir_ex_def MAXPATHLEN_def)

lemma tighter_loop_checks:
  assumes ok: "resolver_ok E (world s)"
    and cur: "open_basedir s = Some dirs" "dirs \<noteq> []"
    and run: "tighter_loop E new s = (Ret SUCCESS, s')"
  shows "s' = s \<and> (\<forall>d \<in> set (split_sep (CHR '':'') new). d = [] \<or>
    (length d < MAXPATHLEN \<and> dirs_allow E (world s) dirs d))"
  using run
proof (induction new rule: length_induct)
  case (1 new)
  have step: "length d < MAXPATHLEN \<and> dirs_allow E (world s) dirs d \<and> k s = (Ret SUCCESS, s')"
    if "cbind (php_check_open_basedir_ex E d False) (\<lambda>r. if r \<noteq> 0 then cret FAILURE else k) s
      = (Ret SUCCESS, s')" for d k
  proof (cases "length d < MAXPATHLEN")
    case True
    with check_ex_eq [OF ok True cur] that show ?thesis by (auto simp: cbind_def split: if_splits)
  next
    case False
    with check_ex_long [of d s dirs E] cur that show ?thesis by (auto simp: cbind_def)
  qed
  show ?case
  proof (cases "new = []")
    case True
    with 1(2) show ?thesis by (simp add: tighter_loop.simps split_sep.simps)
  next
    case False
    show ?thesis
    proof (cases rule: split_sep_cases [of "CHR '':''" new])
      case 1
      with False \<open>tighter_loop E new s = _\<close> step [of new "cret SUCCESS"] show ?thesis
        by (auto simp: tighter_loop.simps [of E new] strchr_None [THEN iffD2] cong: if_cong)
    next
      case (2 a b)
      with \<open>tighter_loop E new s = _\<close> step [of a "tighter_loop E b"]
      have a: "length a < MAXPATHLEN \<and> dirs_allow E (world s) dirs a" "tighter_loop E b s = (Ret SUCCESS, s')"
        by (simp_all add: tighter_loop.simps [of E "a @ _"] strchr_append cong: if_cong)
      have "length b < length new" using 2 by simp
      with 1(1) a(2) have "s' = s \<and> (\<forall>d \<in> set (split_sep (CHR '':'') b). d = [] \<or>
          (length d < MAXPATHLEN \<and> dirs_allow E (world s) dirs d))" by blast
      with a(1) 2(3) show ?thesis by simp
    qed
  qed
qed

lemma strrchr_snoc: "strrchr (s @ [x]) x = Some (length s)"
  by (induction s) auto

text \<open>A directory of the list that exists is resolved to itself when it is tested as a path.\<close>

lemma resolve_name_base:
  assumes "rb = n \<or> rb = n @ ''/''" "n \<noteq> []" "x_realpath E w n = Some n"
    and "x_realpath E w (n @ ''/'') = Some n \<or> x_realpath E w (n @ ''/'') = None \<and> x_readlink E w (n @ ''/'') = None"
    and "resolve_name E w rb = Some (rn, t, l)"
  shows "rn = n"
  using assms by (auto simp: resolve_name_def strrchr_snoc resolve_parents.simps [of _ n])

text \<open>The root directory is not below any other.\<close>

lemma no_root_allows:
  assumes ok: "resolver_ok E w" and nr: "no_root E w old" and d: "x_expand_filepath E w d = Some ''/''"
  shows "\<not> dirs_allow E w old d"
proof
  assume "dirs_allow E w old d"
  then obtain d0 rn t l rb where d0: "d0 \<in> set (split_sep (CHR '':'') old)"
    and q: "resolve_name E w ''/'' = Some (rn, t, l)"
    and rb: "x_expand_filepath E w (basedir_dir E w d0) = Some rb" "in_tree (base_of d0 rb) rn"
    using d by (auto simp: dirs_allow_def basedir_allows_def)
  have rn: "rn = ''/''" using q ok by (auto simp: resolve_name_def resolver_ok_def)
  obtain n where n: "plain_path n" "rb = n \<or> rb = n @ ''/'' \<and> n \<noteq> ''/''"
    "base_of d0 rb = (if n = ''/'' \<and> last d0 = CHR ''/'' then [] else n)"
    by (rule base_of_cases [OF ok rb(1)])
  have "n \<noteq> ''/''" using nr d0 rb(1) n(2) by (auto simp: no_root_def)
  then have "in_tree n ''/''" "n \<noteq> []" using rb(2) n(1,3) rn by (simp_all add: plain_path_def)
  with \<open>n \<noteq> ''/''\<close> show False using prefix_length_le [of "n @ ''/''" "''/''"] by (simp add: in_tree_def)
qed

lemma dirs_allow_trans:
  assumes ok: "resolver_ok E w" and nr: "no_root E w old" and new: "dirs_allow E w new path"
    and tight: "\<forall>d \<in> set (split_sep (CHR '':'') new). d = [] \<or> (length d < MAXPATHLEN \<and> dirs_allow E w old d)"
  shows "dirs_allow E w old path"
proof -
  obtain d name rn t l rb where d: "d \<in> set (split_sep (CHR '':'') new)"
    and p: "x_expand_filepath E w path = Some name" "resolve_name E w name = Some (rn, t, l)"
    and rb: "x_expand_filepath E w (basedir_dir E w d) = Some rb" "in_tree (base_of d rb) rn"
    using new by (auto simp: dirs_allow_def basedir_allows_def)
  obtain n where n: "plain_path n" "d \<noteq> []" "rb = n \<or> rb = n @ ''/'' \<and> n \<noteq> ''/''"
    "base_of d rb = (if n = ''/'' \<and> last d = CHR ''/'' then [] else n)"
    by (rule base_of_cases [OF ok rb(1)])
  note e = expand_basedir_dir [OF ok rb(1)]
  have "dirs_allow E w old d" using tight d n(2) by auto
  then obtain d0 rn0 t0 l0 rb0 where d0: "d0 \<in> set (split_sep (CHR '':'') old)"
    and q: "resolve_name E w rb = Some (rn0, t0, l0)"
    and rb0: "x_expand_filepath E w (basedir_dir E w d0) = Some rb0" "in_tree (base_of d0 rb0) rn0"
    using e by (auto simp: dirs_allow_def basedir_allows_def)
  have "rb \<noteq> ''/''" using no_root_allows [OF ok nr] e \<open>dirs_allow E w old d\<close> by auto
  then have "n \<noteq> ''/''" using n(3) by metis
  then have b: "base_of d rb = n" "n \<noteq> []" using n(4) plain_pathD(1) [OF n(1)] by simp_all
  then have r: "x_realpath E w n = Some n"
    "x_realpath E w (n @ ''/'') = Some n \<or> x_realpath E w (n @ ''/'') = None \<and> x_readlink E w (n @ ''/'') = None"
    using resolve_name_plain(2) [OF ok p(2), of n] rb(2) by auto
  have "rb = n \<or> rb = n @ ''/''" using n(3) by auto
  from resolve_name_base [OF this b(2) r q] have "in_tree (base_of d0 rb0) n" using rb0(2) by simp
  with rb(2) b(1) have "in_tree (base_of d0 rb0) rn" using in_tree_trans by metis
  with d0 p rb0(1) show ?thesis by (auto simp: dirs_allow_def basedir_allows_def)
qed

section \<open>A concrete file system\<close>

lemma sample_paths:
  "x_expand_filepath sample_ext w p =
     (if p = [] \<or> 4000 < length p \<or> (last p = CHR ''/'' \<and> p \<noteq> ''/'') then None else Some p)"
  "x_realpath sample_ext w p = (if p \<in> {''/'', ''/srv'', ''/srv/app'', ''/srv/app/x''} then Some p else None)"
  "x_readlink sample_ext w p = None" "x_getcwd sample_ext w = None"
  by (simp_all add: sample_ext_def)

lemma sample_trees:
  assumes "in_tree b r" "b \<noteq> []" "r \<in> {''/'', ''/srv'', ''/srv/app'', ''/srv/app/x''}"
  shows "b \<in> {''/'', ''/srv'', ''/srv/app'', ''/srv/app/x''}"
proof -
  have "b @ ''/'' \<in> set (prefixes (r @ ''/''))" using assms(1) by (simp add: in_tree_prefix)
  with assms(2,3) show ?thesis by (auto simp: append_eq_Cons_conv simp del: in_set_prefixes)
qed

lemma sample_resolver_ok: "resolver_ok sample_ext w"
proof -
  let ?R = "{''/'', ''/srv'', ''/srv/app'', ''/srv/app/x''}"
  have R: "plain_path r \<and> r @ ''/'' \<notin> ?R" if "r \<in> ?R" for r
    using that by (auto simp: plain_path_def MAXPATHLEN_def)
  have expand: "length p + 1 < MAXPATHLEN \<and> plain_path p" if "x_expand_filepath sample_ext w p = Some q" for p q
    using that by (auto simp: sample_paths plain_path_def MAXPATHLEN_def split: if_splits)
  have real: "plain_path r \<and> (\<forall>b. b \<noteq> [] \<and> in_tree b r \<longrightarrow> b \<in> ?R \<and> b @ ''/'' \<notin> ?R)" if "r \<in> ?R" for r
    using R sample_trees [OF _ _ that] that by blast
  show ?thesis
    using expand real by (auto simp: resolver_ok_def sample_paths split: if_splits)
qed

lemma sample_dirs:
  "split_sep (CHR '':'') ''/tmp:/srv/app'' = [''/tmp'', ''/srv/app'']"
  "split_sep (CHR '':'') ''/srv'' = [''/srv'']" "split_sep (CHR '':'') ''/srv/app'' = [''/srv/app'']"
  by (simp_all add: split_sep.simps)

lemma sample_resolve:
  "resolve_name sample_ext w ''/srv/application/x'' = Some (''/srv'', ''/srv'', 5)"
  "resolve_name sample_ext w ''/srv/app/x'' = Some (''/srv/app/x'', ''/srv/app/x'', 10)"
  "resolve_name sample_ext w ''/srv/app'' = Some (''/srv/app'', ''/srv/app'', 8)"
  by (simp_all add: resolve_name_def resolve_parents.simps sample_paths)

lemma sample_check:
  "php_check_open_basedir_ex sample_ext ''/srv/app'' False (sample_state\<lparr>open_basedir := Some ''/srv''\<rparr>)
    = (Ret 0, sample_state\<lparr>open_basedir := Some ''/srv''\<rparr>)"
  "php_check_open_basedir_ex sample_ext ''/srv/app/x'' False (sample_state\<lparr>open_basedir := Some ''/srv/app''\<rparr>)
    = (Ret 0, sample_state\<lparr>open_basedir := Some ''/srv/app''\<rparr>)"
  using check_ex_eq [of sample_ext "sample_state\<lparr>open_basedir := Some ''/srv''\<rparr>" "''/srv/app''" "''/srv''"]
    check_ex_eq [of sample_ext "sample_state\<lparr>open_basedir := Some ''/srv/app''\<rparr>" "''/srv/app/x''" "''/srv/app''"]
  by (simp_all add: sample_resolver_ok sample_dirs sample_paths MAXPATHLEN_def
      basedir_dir_def dirs_allow_def basedir_allows_def base_of_def in_tree_def sample_resolve)

lemma sample_tighten:
  "ini_set_open_basedir sample_ext ''/srv/app'' (sample_state\<lparr>open_basedir := Some ''/srv''\<rparr>)
    = (Ret SUCCESS, sample_state\<lparr>open_basedir := Some ''/srv/app''\<rparr>)"
proof -
  have "tighter_loop sample_ext ''/srv/app'' (sample_state\<lparr>open_basedir := Some ''/srv''\<rparr>)
      = (Ret SUCCESS, sample_state\<lparr>open_basedir := Some ''/srv''\<rparr>)"
    by (simp add: tighter_loop.simps cbind_def sample_check)
  then show ?thesis
    by (simp add: ini_set_open_basedir_def OnUpdateBaseDir_def cbind_def cget_def cseq_def cmodify_def)
qed

section \<open>Properties\<close>

text \<open>
  (C4) The \<open>open_basedir\<close> test: for every list of directories, \<open>php_check_open_basedir_ex\<close> returns and answers 0
  exactly when the resolved path is one of the resolved directories or lies below one of them; a
  directory that merely shares its first characters is rejected.
\<close>

theorem open_basedir_check_exact:
  assumes "resolver_ok E (world s)" "length path < MAXPATHLEN" "open_basedir s = Some dirs" "dirs \<noteq> []"
  shows "php_check_open_basedir_ex E path False s
    = (Ret (if \<exists>d \<in> set (split_sep (CHR '':'') dirs). \<exists>name rn t l rb.
              x_expand_filepath E (world s) path = Some name
              \<and> resolve_name E (world s) name = Some (rn, t, l)
              \<and> x_expand_filepath E (world s) (basedir_dir E (world s) d) = Some rb
              \<and> (rn = base_of d rb \<or> prefix (base_of d rb @ ''/'') rn)
            then 0 else -1), s)"
  using check_ex_eq [OF assms] by (simp add: dirs_allow_def basedir_allows_def in_tree_def)

text \<open>
  (C5) A script can only tighten the restriction: when \<open>open_basedir\<close> is set, none of its
  directories is the root directory, and a run-time change to \<open>new\<close> succeeds, every path that is allowed afterwards was allowed before.
\<close>

theorem open_basedir_only_tightens:
  assumes "resolver_ok E (world s)" "open_basedir s = Some old" "old \<noteq> []"
    "no_root E (world s) old" "length path < MAXPATHLEN"
    "ini_set_open_basedir E new s = (Ret SUCCESS, s')"
    "php_check_open_basedir_ex E path False s' = (Ret 0, s'')"
  shows "php_check_open_basedir_ex E path False s = (Ret 0, s)"
proof -
  have new: "new \<noteq> []" and s': "s' = s\<lparr>open_basedir := Some new\<rparr>"
    and t: "tighter_loop E new s = (Ret SUCCESS, s)"
  proof -
    have "new \<noteq> [] \<and> cbind (tighter_loop E new) (\<lambda>r.
             if r = SUCCESS then cseq (cmodify (\<lambda>s. s\<lparr>open_basedir := Some new\<rparr>)) (cret SUCCESS)
             else cret FAILURE) s = (Ret SUCCESS, s')"
      using assms(2,3,6) by (auto simp: ini_set_open_basedir_def OnUpdateBaseDir_def split: if_splits)
    then obtain u where n: "new \<noteq> []" and u: "tighter_loop E new s = (Ret SUCCESS, u)"
      "s' = u\<lparr>open_basedir := Some new\<rparr>"
      by (auto elim!: cbind_RetE split: if_splits)
    with tighter_loop_checks [OF assms(1,2,3) u(1)] show "new \<noteq> []" "s' = s\<lparr>open_basedir := Some new\<rparr>"
      "tighter_loop E new s = (Ret SUCCESS, s)" by auto
  qed
  have "dirs_allow E (world s) new path"
    using check_ex_eq [of E s' path new] assms(1,5,7) new by (auto simp: s' split: if_splits)
  then have "dirs_allow E (world s) old path"
    using dirs_allow_trans [OF assms(1,4)] tighter_loop_checks [OF assms(1,2,3) t] by blast
  then show ?thesis using check_ex_eq [OF assms(1,5,2,3)] by simp
qed

theorem open_basedir_check_exact_witness:
  "php_check_open_basedir_ex sample_ext ''/srv/application/x'' False (sample_state\<lparr>open_basedir := Some ''/tmp:/srv/app''\<rparr>)
    = (Ret (-1), sample_state\<lparr>open_basedir := Some ''/tmp:/srv/app''\<rparr>)"
  using open_basedir_check_exact [of sample_ext "sample_state\<lparr>open_basedir := Some ''/tmp:/srv/app''\<rparr>"
      "''/srv/application/x''" "''/tmp:/srv/app''"]
  by (simp add: sample_resolver_ok sample_dirs sample_paths MAXPATHLEN_def basedir_dir_def base_of_def
      sample_resolve)

theorem open_basedir_only_tightens_witness:
  "php_check_open_basedir_ex sample_ext ''/srv/app/x'' False (sample_state\<lparr>open_basedir := Some ''/srv''\<rparr>)
    = (Ret 0, sample_state\<lparr>open_basedir := Some ''/srv''\<rparr>)"
  by (rule open_basedir_only_tightens [of sample_ext "sample_state\<lparr>open_basedir := Some ''/srv''\<rparr>" "''/srv''"
        _ "''/srv/app''" "sample_state\<lparr>open_basedir := Some ''/srv/app''\<rparr>"
        "sample_state\<lparr>open_basedir := Some ''/srv/app''\<rparr>"])
     (simp_all add: sample_resolver_ok no_root_def sample_dirs sample_paths MAXPATHLEN_def basedir_dir_def
       sample_tighten sample_check)

end
