(* ===== verification/PHP_String.thy ===== *)
theory PHP_String
  imports PHP_Prelude
begin

text \<open>
  Backslash quoting (ext/standard/string.c): \<open>php_addslashes\<close>, which the sandbox extensions use
  to quote values in SQL text, and its inverse \<open>php_stripslashes\<close>. A reference scanner for a
  single-quoted SQL string literal says what a correctly quoted value is.
\<close>

section \<open>Operations\<close>

fun addslashes_loop :: "string \<Rightarrow> string" where
  "addslashes_loop [] = []"
| "addslashes_loop (c # source) =
     (if c = NUL then CHR 0x5C # CHR ''0'' # addslashes_loop source
      else if c = CHR 0x27 \<or> c = CHR 0x22 \<or> c = CHR 0x5C
      then CHR 0x5C # c # addslashes_loop source
      else c # addslashes_loop source)"

text \<open>
  \<open>str\<close> is the buffer's contents, \<open>None\<close> the null pointer; a \<open>length\<close> of zero means
  \<open>strlen (str)\<close>.
\<close>

definition php_addslashes :: "string option \<Rightarrow> nat \<Rightarrow> string option" where
  "php_addslashes str len =
     (case str of
        None \<Rightarrow> None
      | Some s \<Rightarrow>
          let len = (if len \<noteq> 0 then len else length (takeWhile (\<lambda>c. c \<noteq> NUL) s))
          in Some (addslashes_loop (take len s)))"

text \<open>The \<open>addslashes (str)\<close> macro of php_sandbox.h, on a C string.\<close>

definition addslashes :: "string \<Rightarrow> string" where
  "addslashes str = the (php_addslashes (Some str) (length str))"

fun php_stripslashes :: "string \<Rightarrow> string" where
  "php_stripslashes [] = []"
| "php_stripslashes (c # t) =
     (if c = CHR 0x5C then
        (case t of
           [] \<Rightarrow> []
         | d # t' \<Rightarrow> (if d = CHR ''0'' then NUL else d) # php_stripslashes t')
      else c # php_stripslashes t)"

text \<open>
  Reference, from the documented lexical rules of MySQL: read a single-quoted string literal up to
  its closing quote. A backslash escapes the next character, a doubled quote stands for a quote. The
  result is the literal's value and the text after the closing quote; an unclosed literal is \<open>None\<close>.
\<close>

definition sql_unescape :: "char \<Rightarrow> string" where
  "sql_unescape d =
     (if d = CHR ''0'' then [NUL] else if d = CHR ''n'' then [CHR 0x0A]
      else if d = CHR ''t'' then [CHR 0x09] else if d = CHR ''r'' then [CHR 0x0D]
      else if d = CHR ''b'' then [CHR 0x08] else if d = CHR ''Z'' then [CHR 0x1A]
      else if d = CHR ''%'' \<or> d = CHR ''_'' then [CHR 0x5C, d] else [d])"

fun sql_literal :: "string \<Rightarrow> (string \<times> string) option" where
  "sql_literal [] = None"
| "sql_literal (c # t) =
     (if c = CHR 0x27 then
        (case t of
           [] \<Rightarrow> Some ([], [])
         | d # t' \<Rightarrow>
             if d = CHR 0x27 then map_option (\<lambda>(v, r). (d # v, r)) (sql_literal t') else Some ([], t))
      else if c = CHR 0x5C then
        (case t of
           [] \<Rightarrow> None
         | d # t' \<Rightarrow> map_option (\<lambda>(v, r). (sql_unescape d @ v, r)) (sql_literal t'))
      else map_option (\<lambda>(v, r). (c # v, r)) (sql_literal t))"

section \<open>Facts\<close>

lemma addslashes_eq: "addslashes s = addslashes_loop s" if "is_cstr s"
proof (cases "s = []")
  case False
  then show ?thesis by (simp add: addslashes_def php_addslashes_def)
qed (simp add: addslashes_def php_addslashes_def)

lemma length_addslashes_loop:
  "length s \<le> length (addslashes_loop s) \<and> length (addslashes_loop s) \<le> 2 * length s"
  by (induction s) auto

text \<open>\<open>php_stripslashes\<close> inverts \<open>php_addslashes\<close> on every byte string, NUL bytes included.\<close>

lemma php_stripslashes_addslashes: "php_stripslashes (addslashes_loop s) = s"
  by (induction s) (auto simp: NUL_def)

lemma sql_literal_addslashes:
  "take 1 rest \<noteq> [CHR 0x27] \<Longrightarrow> sql_literal (addslashes_loop s @ CHR 0x27 # rest) = Some (s, rest)"
  by (induction s) (auto simp: NUL_def sql_unescape_def split: list.splits)

lemma addslashes_loop_id:
  "\<forall>c \<in> set s. c \<noteq> NUL \<and> c \<noteq> CHR 0x27 \<and> c \<noteq> CHR 0x22 \<and> c \<noteq> CHR 0x5C \<Longrightarrow> addslashes_loop s = s"
  by (induction s) auto

lemma is_cstr_addslashes_loop: "is_cstr (addslashes_loop s)"
  by (induction s) (auto simp: is_cstr_def NUL_def)

section \<open>Properties\<close>

text \<open>
  (C8) What escaping is for: a string passed through \<open>addslashes\<close> and put between single
  quotes reads back, under the lexical rules of an SQL string literal, as exactly that string, and the
  literal ends where the query text put its closing quote (which another quote must not follow), so
  no input can leave the literal.
\<close>

theorem addslashes_confines_literal:
  assumes "is_cstr s" and "take 1 rest \<noteq> [CHR 0x27]"
  shows "sql_literal (addslashes s @ CHR 0x27 # rest) = Some (s, rest)
    \<and> length (addslashes s) \<le> 2 * length s"
  using assms length_addslashes_loop [of s] by (simp add: addslashes_eq sql_literal_addslashes)

theorem addslashes_confines_literal_witness:
  "sql_literal (addslashes ''x' OR 'a'='a'' @ CHR 0x27 # '' LIMIT 1'') = Some (''x' OR 'a'='a'', '' LIMIT 1'')"
  using addslashes_confines_literal [of "''x' OR 'a'='a''" "'' LIMIT 1''"]
  by (simp add: is_cstr_def NUL_def)

end
