(* ===== verification/Sandbox_Ext.thy ===== *)
theory Sandbox_Ext
  imports Open_Basedir PHP_String
begin

text \<open>
  The sandbox extension (ext/sandbox/sandbox.c, php\_sandbox.h): the request start-up that derives
  the application id from the host name, checks that the application is active, connects to its
  database and confines it to its directories; the functions visible to PHP; and the access to the
  administration database that the other extensions share. A PHP function takes the result of
  \<open>zend_parse_parameters\<close> as an option (\<open>None\<close>: wrong arguments).
\<close>

section \<open>Values returned to PHP\<close>

datatype zval = ZNull | ZBool bool | ZLong int | ZString string | ZArray "(hash_key \<times> zval) list"

section \<open>Formatting into fixed buffers\<close>

definition QUERY_MAXLEN :: nat where
  "QUERY_MAXLEN = 512"

definition new_sprintf :: "string \<Rightarrow> fmt_arg list \<Rightarrow> string outcome" where
  "new_sprintf format args =
     (let buf = vsprintf format args in if length buf < QUERY_MAXLEN then Ret buf else Undef)"

definition LONG_MAXLEN :: nat where
  "LONG_MAXLEN = 20"

definition ltostr :: "int \<Rightarrow> string outcome" where
  "ltostr value =
     (let buf = vsprintf ''%ld'' [FInt value] in if length buf < LONG_MAXLEN then Ret buf else Undef)"

section \<open>Queries\<close>

definition do_mysql_query :: "'w externals \<Rightarrow> conn option \<Rightarrow> string \<Rightarrow> ('w, row list option) php" where
  "do_mysql_query E sock query =
     cbind (deref sock) (\<lambda>c.
     cbind (xcall (x_mysql_real_query E c query)) (\<lambda>failed.
       if failed then
         cbind (xread (x_mysql_error E c)) (\<lambda>msg.
           cseq (php_error_docref E_NOTICE (vsprintf ''Query failed (%s)'' [FStr msg])) (cret None))
       else
         cbind (xcall (x_mysql_store_result E c)) (\<lambda>res.
           case res of
             None \<Rightarrow>
               cbind (xread (x_mysql_error E c)) (\<lambda>msg.
                 cseq (php_error_docref E_NOTICE (vsprintf ''Cannot get result (%s)'' [FStr msg])) (cret None))
           | Some rows \<Rightarrow> cret (Some rows))))"

definition mysql_noresult_query :: "'w externals \<Rightarrow> conn option \<Rightarrow> string \<Rightarrow> ('w, zresult) php" where
  "mysql_noresult_query E sock query =
     cbind (deref sock) (\<lambda>c.
     cbind (xcall (x_mysql_real_query E c query)) (\<lambda>failed.
       if failed then
         cbind (xread (x_mysql_error E c)) (\<lambda>msg.
           cseq (php_error_docref E_NOTICE (vsprintf ''Query failed (%s)'' [FStr msg])) (cret FAILURE))
       else cret SUCCESS))"

definition mysql_fetch_row :: "row list \<Rightarrow> row option" where
  "mysql_fetch_row rows = head_opt rows"

definition admindb_fetch_row :: "'w externals \<Rightarrow> string \<Rightarrow> string \<Rightarrow> string \<Rightarrow> ('w, row option) php" where
  "admindb_fetch_row E table field value =
     cbind (clift (new_sprintf (''SELECT * FROM %s WHERE `%s`='%s'' @ [CHR 0x27])
              [FStr table, FStr field, FStr (addslashes value)])) (\<lambda>query.
     cbind (cget admindb_sock) (\<lambda>sock.
     cbind (do_mysql_query E sock query) (\<lambda>res.
       cret (case res of None \<Rightarrow> None | Some rows \<Rightarrow> mysql_fetch_row rows))))"

text \<open>The value is put into the query as it is.\<close>

definition admindb_fetch_field ::
  "'w externals \<Rightarrow> string \<Rightarrow> string \<Rightarrow> string \<Rightarrow> string \<Rightarrow> ('w, string option) php" where
  "admindb_fetch_field E table getfield matchfield value =
     cbind (clift (new_sprintf (''SELECT %s FROM %s WHERE `%s`='%s'' @ [CHR 0x27])
              [FStr getfield, FStr table, FStr matchfield, FStr value])) (\<lambda>query.
     cbind (cget admindb_sock) (\<lambda>sock.
     cbind (do_mysql_query E sock query) (\<lambda>res.
       case res of
         None \<Rightarrow> cret None
       | Some rows \<Rightarrow>
           (case mysql_fetch_row rows of None \<Rightarrow> cret None | Some r \<Rightarrow> column r 0))))"

definition admindb_update_row ::
  "'w externals \<Rightarrow> string \<Rightarrow> int \<Rightarrow> string \<Rightarrow> string \<Rightarrow> ('w, zresult) php" where
  "admindb_update_row E table app field value =
     cbind (clift (new_sprintf (''UPDATE %s SET `%s`='%s' WHERE `id`='%d'' @ [CHR 0x27])
              [FStr table, FStr field, FStr (addslashes value), FInt (to_int32 app)])) (\<lambda>query.
     cbind (cget admindb_sock) (\<lambda>sock. mysql_noresult_query E sock query))"

definition admindb_delete_row :: "'w externals \<Rightarrow> string \<Rightarrow> int \<Rightarrow> ('w, zresult) php" where
  "admindb_delete_row E table app =
     cbind (clift (new_sprintf (''DELEDE FROM %s WHERE `id`='%d'' @ [CHR 0x27])
              [FStr table, FInt (to_int32 app)])) (\<lambda>query.
     cbind (cget admindb_sock) (\<lambda>sock. mysql_noresult_query E sock query))"

text \<open>The assignments \<open>APPEND_STR\<close> adds to the query, for the fields from the \<open>i\<close>-th on.\<close>

fun insert_assignments :: "nat \<Rightarrow> (string \<times> string) list \<Rightarrow> string" where
  "insert_assignments i [] = []"
| "insert_assignments i ((f, v) # fvs) =
     (if 0 < i then '','' else []) @ ''`'' @ addslashes f @ ''`='' @ [CHR 0x27]
       @ addslashes v @ [CHR 0x27] @ insert_assignments (Suc i) fvs"

definition admindb_insert_row :: "'w externals \<Rightarrow> string \<Rightarrow> (string \<times> string) list \<Rightarrow> ('w, zresult) php" where
  "admindb_insert_row E table fvs =
     cbind (clift (new_sprintf ''INSERT INTO %s SET '' [FStr table])) (\<lambda>q0.
       let query = q0 @ insert_assignments 0 fvs in
       if QUERY_MAXLEN \<le> length query then cundef
       else cbind (cget admindb_sock) (\<lambda>sock. mysql_noresult_query E sock query))"

definition admindb_insert_id :: "'w externals \<Rightarrow> ('w, int) php" where
  "admindb_insert_id E =
     cbind (cget admindb_sock) (\<lambda>sock.
     cbind (deref sock) (\<lambda>c. xread (x_mysql_insert_id E c)))"

definition admindb_row_count :: "'w externals \<Rightarrow> string \<Rightarrow> string \<Rightarrow> string \<Rightarrow> ('w, int) php" where
  "admindb_row_count E table field value =
     cbind (admindb_fetch_field E table ''COUNT(*)'' field value) (\<lambda>count.
       cret (case count of Some c \<Rightarrow> atol c | None \<Rightarrow> 0))"

definition admindb_num_rows :: "'w externals \<Rightarrow> ('w, int) php" where
  "admindb_num_rows E =
     cbind (cget admindb_sock) (\<lambda>sock.
     cbind (do_mysql_query E sock ''SELECT COUNT(*) FROM appinfo'') (\<lambda>res.
       case res of
         None \<Rightarrow> cret 0
       | Some rows \<Rightarrow>
           cbind (deref (mysql_fetch_row rows)) (\<lambda>r.
           cbind (column r 0) (\<lambda>c.
           cbind (deref c) (\<lambda>v. cret (atol v))))))"

definition create_database :: "'w externals \<Rightarrow> string \<Rightarrow> ('w, zresult) php" where
  "create_database E dbname =
     cbind (clift (new_sprintf ''CREATE DATABASE %s'' [FStr dbname])) (\<lambda>query.
     cbind (cget admindb_sock) (\<lambda>sock. mysql_noresult_query E sock query))"

definition grant_db_privilege ::
  "'w externals \<Rightarrow> string \<Rightarrow> string \<Rightarrow> string \<Rightarrow> string \<Rightarrow> ('w, zresult) php" where
  "grant_db_privilege E dbname host username password =
     cbind (clift (new_sprintf (''GRANT ALL ON %s.* TO '%s'@'%s' IDENTIFIED BY '%s'' @ [CHR 0x27])
              [FStr dbname, FStr username, FStr host, FStr password])) (\<lambda>query.
     cbind (cget admindb_sock) (\<lambda>sock. mysql_noresult_query E sock query))"

definition mysql_result :: "'w externals \<Rightarrow> conn option \<Rightarrow> string \<Rightarrow> ('w, string option) php" where
  "mysql_result E sock query =
     cbind (do_mysql_query E sock query) (\<lambda>res.
       case res of
         None \<Rightarrow> cret None
       | Some rows \<Rightarrow>
           (case mysql_fetch_row rows of
              None \<Rightarrow> cret None
            | Some r \<Rightarrow>
                cbind (column r 0) (\<lambda>c.
                  cret (case c of None \<Rightarrow> None | Some v \<Rightarrow> if v = [] then None else Some v))))"

definition mysql_result_int :: "'w externals \<Rightarrow> conn option \<Rightarrow> string \<Rightarrow> ('w, int option) php" where
  "mysql_result_int E sock query =
     cbind (mysql_result E sock query) (\<lambda>res. cret (map_option atoi res))"

section \<open>Start of a request\<close>

definition connect_admindb :: "'w externals \<Rightarrow> ('w, zresult) php" where
  "connect_admindb E =
     cbind (cget id) (\<lambda>s.
     cbind (xcall (x_mysqlnd_connect E
              \<lparr>cp_host = Some (admindb_host s), cp_user = Some (admindb_user s),
               cp_passwd = admindb_pass s, cp_dbname = admindb_name s,
               cp_port = to_int32 (admindb_port s), cp_socket = Some (admindb_filesock s)\<rparr>)) (\<lambda>c.
       cseq (cmodify (\<lambda>s. s\<lparr>admindb_sock := c\<rparr>))
            (cret (if c \<noteq> None then SUCCESS else FAILURE))))"

definition set_appid_field :: "int \<Rightarrow> ('w, unit) php" where
  "set_appid_field n = cmodify (\<lambda>s. s\<lparr>appid := n\<rparr>)"

text \<open>The query that looks an application up by its name.\<close>

definition appid_query :: "string \<Rightarrow> string outcome" where
  "appid_query subdomain =
     new_sprintf (''SELECT id FROM appinfo WHERE `appname`='%s'' @ [CHR 0x27]) [FStr (addslashes subdomain)]"

definition init_appid :: "'w externals \<Rightarrow> ('w, unit) php" where
  "init_appid E =
     cseq (cmodify (\<lambda>s. s\<lparr>appname := Some []\<rparr>))
     (cbind (cget id) (\<lambda>s.
        if sapi_name s = ''cli'' then set_appid_field 0
        else if sapi_name s \<noteq> ''fpm-fcgi'' then
          cseq (php_error_docref E_ERROR ''Unsupported SAPI module'') (set_appid_field (-1))
        else
          cbind (xread (\<lambda>w. x_fcgi_getenv E w ''SERVER_NAME'')) (\<lambda>server_name.
          case server_name of
            None \<Rightarrow> php_error_docref E_ERROR ''Internal error: Cannot find SERVER_NAME in FastCGI header''
          | Some host \<Rightarrow>
              (case strstr host (hostname_for_subdomain s) of
                 None \<Rightarrow> set_appid_field (-1)
               | Some pos \<Rightarrow>
                   if pos = 0 then set_appid_field 0
                   else
                     (case strstr host ''.'' of
                        None \<Rightarrow> set_appid_field (-1)
                      | Some dot \<Rightarrow>
                          (let subdomain = take dot host in
                           cseq (cmodify (\<lambda>s. s\<lparr>appname := Some subdomain\<rparr>))
                           (cbind (clift (appid_query subdomain)) (\<lambda>query.
                            cbind (mysql_result_int E (admindb_sock s) query) (\<lambda>r.
                              case r of
                                None \<Rightarrow> set_appid_field (-1)
                              | Some n \<Rightarrow> set_appid_field n)))))))))"

definition php_app_isactive :: "'w externals \<Rightarrow> int \<Rightarrow> ('w, bool) php" where
  "php_app_isactive E app =
     cbind (clift (ltostr (to_int32 app))) (\<lambda>v.
     cbind (admindb_fetch_field E ''appinfo'' ''isactive'' ''id'' v) (\<lambda>res.
       cret (case res of None \<Rightarrow> False | Some r \<Rightarrow> cstr_at r 0 = CHR ''1'')))"

definition php_set_appid :: "int \<Rightarrow> ('w, unit) php" where
  "php_set_appid app = cmodify (\<lambda>s. s\<lparr>appid := to_int32 app\<rparr>)"

definition php_connect_userdb :: "'w externals \<Rightarrow> int \<Rightarrow> ('w, zresult) php" where
  "php_connect_userdb E app =
     cbind (clift (ltostr (to_int32 app))) (\<lambda>v.
     cbind (admindb_fetch_row E ''dbconf'' ''id'' v) (\<lambda>r.
       case r of
         None \<Rightarrow> cret FAILURE
       | Some r \<Rightarrow>
           cbind (column r 1) (\<lambda>hostname.
           cbind (column r 2) (\<lambda>username.
           cbind (column r 3) (\<lambda>password.
           cbind (column r 4) (\<lambda>dbname.
           cbind (sandbox_mysql_do_connect E username password hostname dbname) (\<lambda>conn.
             if conn = None then
               cseq (php_error_docref E_WARNING
                       (vsprintf ''php_connect_userdb: connect error [appid %d]'' [FInt (to_int32 app)]))
                    (cret FAILURE)
             else cret SUCCESS)))))))"

text \<open>The directory list: every colon-separated per-user base, followed by the application name.\<close>

function peruser_dirs :: "string \<Rightarrow> string \<Rightarrow> string" where
  "peruser_dirs app userbase =
     (if userbase = [] then []
      else
        (case strstr userbase '':'' of
           None \<Rightarrow> userbase @ ''/'' @ app
         | Some separator \<Rightarrow>
             take separator userbase @ ''/'' @ app @ '':'' @ peruser_dirs app (drop (Suc separator) userbase)))"
  by pat_completeness auto
termination
  by (relation "measure (\<lambda>(a, u). length u)") auto

declare peruser_dirs.simps [simp del]

definition set_basedir :: "'w externals \<Rightarrow> ('w, zresult) php" where
  "set_basedir E =
     cbind (cget id) (\<lambda>s.
     cbind (deref (appname s)) (\<lambda>app.
     cbind (deref (chroot_basedir_peruser s)) (\<lambda>peruser.
       if QUERY_MAXLEN \<le> length app + length (chroot_basedir s) + length peruser + 3 then
         cseq (php_error_docref E_ERROR ''basedir too long'') (cret FAILURE)
       else
         (let basedir = (if 0 < length (chroot_basedir s) then chroot_basedir s @ '':'' else [])
                          @ peruser_dirs app peruser in
          if QUERY_MAXLEN \<le> length basedir then cundef
          else if \<not> x_ini_set_callable E then
            cseq (php_error_docref E_ERROR ''failed to call open_basedir'') (cret FAILURE)
          else cseq (ini_set_open_basedir E basedir) (cret SUCCESS)))))"

text \<open>The second half of the handler, for an application under management.\<close>

definition start_app :: "'w externals \<Rightarrow> int \<Rightarrow> ('w, zresult) php" where
  "start_app E app =
     cbind (php_app_isactive E app) (\<lambda>active.
       if \<not> active then
         cseq (php_error_docref E_ERROR ''User database does not exist'') (cret FAILURE)
       else
         cbind (php_connect_userdb E app) (\<lambda>r.
           if r = FAILURE then
             cseq (php_error_docref E_ERROR ''Cannot connect to user database'') (cret FAILURE)
           else
             cbind (set_basedir E) (\<lambda>r.
               if r = FAILURE then
                 cseq (php_error_docref E_ERROR ''Failed to chroot into sandbox'') (cret FAILURE)
               else
                 cbind (xcall (x_gettimeofday E)) (\<lambda>tv.
                   cseq (cmodify (\<lambda>s. s\<lparr>start_time := tv\<rparr>)) (cret SUCCESS)))))"

definition RINIT_sandbox :: "'w externals \<Rightarrow> ('w, zresult) php" where
  "RINIT_sandbox E =
     cbind (cget admindb_sock) (\<lambda>sock.
     cbind (if sock = None then connect_admindb E else cret SUCCESS) (\<lambda>r.
       if r = FAILURE then
         cseq (php_error_docref E_ERROR ''Cannot connect to admin database'') (cret FAILURE)
       else
         cseq (cmodify (\<lambda>s. s\<lparr>query_num := 0\<rparr>))
         (cseq (init_appid E)
         (cbind (cget appid) (\<lambda>app. if app \<le> 0 then cret SUCCESS else start_app E app)))))"

definition MSHUTDOWN_sandbox :: "'w externals \<Rightarrow> ('w, zresult) php" where
  "MSHUTDOWN_sandbox E =
     cbind (cget admindb_sock) (\<lambda>sock.
       case sock of
         None \<Rightarrow> cret SUCCESS
       | Some c \<Rightarrow> cseq (cmodify (\<lambda>s. s\<lparr>world := x_mysql_close E c (world s)\<rparr>)) (cret SUCCESS))"

section \<open>Functions visible to PHP\<close>

definition php_get_appid :: "('w, int) php" where
  "php_get_appid = cget (\<lambda>s. to_int32 (appid s))"

definition php_get_appname :: "('w, string option) php" where
  "php_get_appname = cget appname"

text \<open>\<open>ASSERT_PRIVILEGE\<close> and \<open>GET_APPID_PARAM\<close> in front of the body of a function.\<close>

definition assert_privilege :: "('w, zval) php \<Rightarrow> ('w, zval) php" where
  "assert_privilege body =
     cbind php_get_appid (\<lambda>a.
       if a \<noteq> 0 then cseq (php_error_docref E_WARNING ''You know it, bad boy!'') (cret ZNull) else body)"

definition get_appid_param :: "int option \<Rightarrow> (int \<Rightarrow> ('w, zval) php) \<Rightarrow> ('w, zval) php" where
  "get_appid_param arg body =
     (case arg of
        None \<Rightarrow> cseq (php_error_docref E_WARNING ''bad parameter appid'') (cret ZNull)
      | Some app \<Rightarrow> body app)"

definition fn_connect_userdb :: "'w externals \<Rightarrow> int option \<Rightarrow> ('w, zval) php" where
  "fn_connect_userdb E arg =
     assert_privilege (get_appid_param arg (\<lambda>app.
       cbind (php_connect_userdb E app) (\<lambda>r. cret (ZBool (r = SUCCESS)))))"

definition fn_app_isactive :: "'w externals \<Rightarrow> int option \<Rightarrow> ('w, zval) php" where
  "fn_app_isactive E arg =
     assert_privilege (get_appid_param arg (\<lambda>app.
       cbind (php_app_isactive E app) (\<lambda>r. cret (ZBool r))))"

definition fn_set_appid :: "'w externals \<Rightarrow> int option \<Rightarrow> ('w, zval) php" where
  "fn_set_appid E arg =
     assert_privilege (get_appid_param arg (\<lambda>app.
       cseq (php_set_appid app)
       (cseq (php_connect_userdb E app)
       (cseq (set_basedir E) (cret ZNull)))))"

definition fn_get_appid :: "('w, zval) php" where
  "fn_get_appid = cbind (cget appid) (\<lambda>a. cret (ZLong a))"

definition fn_get_appname :: "('w, zval) php" where
  "fn_get_appname = cbind (cget appname) (\<lambda>n. cbind (deref n) (\<lambda>n. cret (ZString n)))"

definition php_app_root_url :: "'w externals \<Rightarrow> ('w, string option) php" where
  "php_app_root_url E =
     cbind (cget appid) (\<lambda>a.
       if a \<le> 0 then cret None
       else
         cbind (xread (\<lambda>w. x_fcgi_getenv E w ''SERVER_NAME'')) (\<lambda>server_name.
         case server_name of
           None \<Rightarrow>
             cseq (php_error_docref E_ERROR ''Internal error: Cannot find SERVER_NAME in FastCGI header'')
                  (cret None)
         | Some n \<Rightarrow> cbind (clift (new_sprintf ''http://%s/'' [FStr n])) (\<lambda>u. cret (Some u))))"

definition fn_app_root_url :: "'w externals \<Rightarrow> ('w, zval) php" where
  "fn_app_root_url E =
     cbind (php_app_root_url E) (\<lambda>u. cret (case u of Some u \<Rightarrow> ZString u | None \<Rightarrow> ZNull))"

definition php_app_root_path :: "('w, string option) php" where
  "php_app_root_path =
     cbind (cget id) (\<lambda>s.
       case (appname s, chroot_basedir_peruser s) of
         (Some app, Some userbase) \<Rightarrow>
           if app = [] \<or> userbase = [] then cret None
           else
             (let root = take (strchrnul userbase (CHR '':'')) userbase @ ''/'' @ app @ ''/'' in
              if QUERY_MAXLEN \<le> length root then cundef else cret (Some root))
       | _ \<Rightarrow> cret None)"

definition fn_app_root_path :: "('w, zval) php" where
  "fn_app_root_path =
     cbind php_app_root_path (\<lambda>p. cret (case p of Some p \<Rightarrow> ZString p | None \<Rightarrow> ZNull))"

text \<open>\<open>snprintf\<close> cuts the result at \<open>maxlen - 1\<close> characters and prints a null string as \<open>(null)\<close>.\<close>

definition sandbox_get_translated_path :: "'w externals \<Rightarrow> ('w, string option) php" where
  "sandbox_get_translated_path E =
     cbind (cget id) (\<lambda>s.
       if appid s \<le> 0 then cret None
       else
         cbind (xread (\<lambda>w. x_fcgi_getenv E w ''SCRIPT_NAME'')) (\<lambda>orig_path.
         case orig_path of
           None \<Rightarrow> cseq (php_error_docref E_ERROR ''Cannot determine translated path'') (cret None)
         | Some p \<Rightarrow>
             (let maxlen = length p + 100;
                  base = (case chroot_basedir_peruser s of None \<Rightarrow> ''(null)'' | Some b \<Rightarrow> b)
              in cret (Some (take (maxlen - 1) (vsprintf ''%s/%d%s'' [FStr base, FInt (appid s), FStr p]))))))"

definition sandbox_query_num_inc :: "('w, unit) php" where
  "sandbox_query_num_inc = cmodify (\<lambda>s. s\<lparr>query_num := query_num s + 1\<rparr>)"

section \<open>Where a file lies\<close>

function trusted_loop :: "string \<Rightarrow> string \<Rightarrow> zresult" where
  "trusted_loop file base =
     (if base = [] then FAILURE
      else
        (let separator = strstr base '':'';
             this_base = (case separator of None \<Rightarrow> base | Some i \<Rightarrow> take i base);
             base_len = length this_base
         in
         if 0 < base_len \<and> strncmp0 file this_base base_len then
           if last this_base = CHR ''/'' then SUCCESS
           else if cstr_at file base_len = CHR ''/'' then SUCCESS else FAILURE
         else
           (case separator of None \<Rightarrow> FAILURE | Some i \<Rightarrow> trusted_loop file (drop (Suc i) base))))"
  by pat_completeness auto
termination
  by (relation "measure (\<lambda>(f, b). length b)") auto

declare trusted_loop.simps [simp del]

definition is_in_trusted_code_dir :: "string \<Rightarrow> ('w, zresult) php" where
  "is_in_trusted_code_dir file =
     cget (\<lambda>s. case trusted_code_dir s of None \<Rightarrow> FAILURE | Some base \<Rightarrow> trusted_loop file base)"

definition is_in_upload_dir :: "string \<Rightarrow> ('w, zresult) php" where
  "is_in_upload_dir file =
     cbind php_app_root_path (\<lambda>root.
       case root of
         None \<Rightarrow> cret FAILURE
       | Some root_path \<Rightarrow>
           if length file < length root_path \<or> \<not> strncmp0 root_path file (length root_path)
           then cret FAILURE
           else
             (let file = drop (length root_path) file in
              cbind (cget user_upload_dir) (\<lambda>u.
              case u of
                None \<Rightarrow> cret FAILURE
              | Some upload_dir \<Rightarrow>
                  if length upload_dir = 0 then cret FAILURE
                  else if \<not> strncmp0 file upload_dir (length upload_dir) then cret FAILURE
                  else if last upload_dir = CHR ''/'' \<or> cstr_at file (length upload_dir) = CHR ''/''
                  then cret SUCCESS else cret FAILURE)))"

section \<open>Buffered reading of a result\<close>

definition BUFFER_SIZE :: int where
  "BUFFER_SIZE = 65536"

text \<open>The branch of \<open>do_buffered_get_next_row\<close> that installs a new query.\<close>

definition init_buffered_get_next_row :: "conn option \<Rightarrow> string \<Rightarrow> ('w, unit) php" where
  "init_buffered_get_next_row sock query =
     cmodify (\<lambda>s. s\<lparr>br_buffered := 0, br_start := 0, br_sock := sock, br_query := Some query\<rparr>)"

text \<open>
  The branch that reads: the result is the row the caller's pointer receives (itself possibly a
  null pointer), or \<open>None\<close> when the function returns a null pointer.
\<close>

definition buffered_get_next_row :: "'w externals \<Rightarrow> ('w, row option option) php" where
  "buffered_get_next_row E =
     cbind (cget id) (\<lambda>s.
     cbind (if br_buffered s = 0 then
              cbind (deref (br_query s)) (\<lambda>q.
              cbind (clift (new_sprintf ''%s LIMIT %d,%d''
                       [FStr q, FInt (uint (br_start s)), FInt BUFFER_SIZE])) (\<lambda>full_query.
              cbind (do_mysql_query E (br_sock s) full_query) (\<lambda>res.
              cseq (cmodify (\<lambda>s. s\<lparr>br_res := res\<rparr>))
              (case res of
                 None \<Rightarrow> cret False
               | Some rows \<Rightarrow>
                   cseq (cmodify (\<lambda>s. s\<lparr>br_buffered := word_of_nat (length rows)\<rparr>))
                   (cbind (cget br_buffered) (\<lambda>b.
                      if b = 0 then cret False
                      else cseq (cmodify (\<lambda>s. s\<lparr>br_start := br_start s + br_buffered s\<rparr>)) (cret True)))))))
            else cret True) (\<lambda>go.
       if \<not> go then cret None
       else
         cseq (cmodify (\<lambda>s. s\<lparr>br_buffered := br_buffered s - 1\<rparr>))
         (cbind (cget br_res) (\<lambda>res.
          cbind (deref res) (\<lambda>rows.
          cseq (cmodify (\<lambda>s. s\<lparr>br_res := Some (tl rows)\<rparr>))
               (cret (Some (mysql_fetch_row rows))))))))"

end
