(* ===== verification/Zend_Value.thy ===== *)
theory Zend_Value
  imports Sandbox_Ext
begin

text \<open>
  PHP values as the extensions build and read them: the conversion of an array key that looks like
  a number (Zend/zend\_hash.h, \<open>ZEND_HANDLE_NUMERIC_EX\<close>), adding elements under string keys
  (Zend/zend\_API.c, \<open>add_assoc_*\<close>) and the conversion of a value to a string in place
  (Zend/zend\_operators.c, \<open>_convert_to_string\<close>). The entries of an array are the ordered map that
  \<open>Zend_Hash_Correct\<close> shows the hash table to implement; a string key carries its NUL. Doubles,
  objects and resources are no values of the model.
\<close>

type_synonym entries = "(hash_key \<times> zval) list"

section \<open>Operations\<close>

definition MAX_LENGTH_OF_LONG :: nat where
  "MAX_LENGTH_OF_LONG = 20"

text \<open>\<open>idx = (idx * 10) + (*tmp - '0')\<close> in an unsigned long.\<close>

fun numeric_idx :: "string \<Rightarrow> ulong \<Rightarrow> ulong" where
  "numeric_idx [] idx = idx"
| "numeric_idx (c # cs) idx = numeric_idx cs (idx * 10 + (of_nat (of_char c) - 48))"

text \<open>The key under which \<open>zend_symtable_update\<close> stores: \<open>key\<close> is the name with its NUL.\<close>

definition symtable_key :: "string \<Rightarrow> hash_key" where
  "symtable_key key =
     (let neg = (key \<noteq> [] \<and> hd key = CHR ''-'');
          tmp = (if neg then tl key else key);
          digits = butlast tmp
      in
      if tmp = [] \<or> \<not> is_digit_char (hd tmp) then HKStr key
      else if last key \<noteq> NUL \<or> hd tmp = CHR ''0'' \<and> 2 < length key
              \<or> MAX_LENGTH_OF_LONG - 1 < length digits then HKStr key
      else if \<not> list_all is_digit_char digits then HKStr key
      else
        (let idx = numeric_idx digits 0 in
         if neg then
           (if word_of_int LONG_MAX < idx - 1 then HKStr key else HKIdx (0 - idx))
         else if word_of_int LONG_MAX < idx then HKStr key
         else HKIdx idx))"

definition zend_symtable_update :: "string \<Rightarrow> zval \<Rightarrow> entries \<Rightarrow> entries" where
  "zend_symtable_update key v es = om_update (symtable_key key) v es"

definition add_assoc_long :: "entries \<Rightarrow> string \<Rightarrow> int \<Rightarrow> entries" where
  "add_assoc_long es key n = zend_symtable_update (key @ [NUL]) (ZLong n) es"

definition add_assoc_stringl :: "entries \<Rightarrow> string \<Rightarrow> string \<Rightarrow> entries" where
  "add_assoc_stringl es key str = zend_symtable_update (key @ [NUL]) (ZString str) es"

text \<open>\<open>add_assoc_string\<close> takes a C string.\<close>

definition add_assoc_string :: "entries \<Rightarrow> string \<Rightarrow> string \<Rightarrow> entries" where
  "add_assoc_string es key str =
     zend_symtable_update (key @ [NUL]) (ZString (takeWhile (\<lambda>c. c \<noteq> NUL) str)) es"

text \<open>The string a value becomes.\<close>

definition convert_to_string :: "zval \<Rightarrow> ('w, string) php" where
  "convert_to_string op =
     (case op of
        ZNull \<Rightarrow> cret []
      | ZString s \<Rightarrow> cret s
      | ZBool b \<Rightarrow> cret (if b then ''1'' else [])
      | ZLong n \<Rightarrow> cret (vsprintf ''%ld'' [FInt n])
      | ZArray _ \<Rightarrow> cseq (php_error_docref E_NOTICE ''Array to string conversion'') (cret ''Array''))"

section \<open>Keys that are numbers\<close>

lemma digit_charE:
  assumes "is_digit_char c"
  obtains d where "(of_char c :: nat) = 48 + d" "d < 10" "digit_char d = c"
proof
  show "(of_char c :: nat) = 48 + (of_char c - 48)" "of_char c - 48 < (10::nat)"
    "digit_char (of_char c - 48) = c"
    using assms by (auto simp: is_digit_char_def digit_char_def)
qed

lemma numeric_idx_nat:
  "\<forall>c \<in> set ds. is_digit_char c \<Longrightarrow> numeric_idx ds (of_nat a) = of_nat (read_digits ds a)"
proof (induction ds arbitrary: a)
  case Nil
  then show ?case by simp
next
  case (Cons c ds)
  then have c: "is_digit_char c" by simp
  then obtain d where d: "(of_char c :: nat) = 48 + d" by (rule digit_charE)
  have "numeric_idx ds (of_nat (10 * a + d)) = of_nat (read_digits ds (10 * a + d))"
    using Cons.prems by (intro Cons.IH) simp
  with c d show ?case by (simp add: algebra_simps)
qed

lemma read_digits_less: "read_digits ds a < (a + 1) * 10 ^ length ds"
proof (induction ds arbitrary: a)
  case (Cons c ds)
  show ?case
  proof (cases "is_digit_char c")
    case True
    then obtain d where d: "(of_char c :: nat) = 48 + d" "d < 10" by (rule digit_charE)
    then have "10 * a + d + 1 \<le> (a + 1) * 10" by simp
    with Cons [of "10 * a + d"] have "read_digits ds (10 * a + d) < (a + 1) * 10 * 10 ^ length ds"
      by (meson less_le_trans mult_le_mono1)
    with True d show ?thesis by (simp add: algebra_simps)
  next
    case False
    have "(1::nat) \<le> 10 ^ length (c # ds)" by simp
    then have "a + 1 \<le> (a + 1) * 10 ^ length (c # ds)" by (metis mult.right_neutral mult_le_mono2)
    with False show ?thesis by simp
  qed
qed simp

text \<open>Digits without a leading zero are the decimal representation of their value.\<close>

lemma show_nat_read_digits:
  assumes "\<forall>c \<in> set ds. is_digit_char c" "ds \<noteq> []" "hd ds = CHR ''0'' \<longrightarrow> ds = ''0''"
  shows "show_nat (read_digits ds 0) = ds"
  using assms
proof (induction ds rule: rev_induct)
  case (snoc c ds)
  then have c: "is_digit_char c" by simp
  then obtain d where d: "(of_char c :: nat) = 48 + d" "d < 10" and dc: "digit_char d = c" by (rule digit_charE)
  have rd: "read_digits (ds @ [c]) 0 = 10 * read_digits ds 0 + d"
    using snoc.prems c d by (simp add: read_digits_append)
  show ?case
  proof (cases "ds = []")
    case True
    with c d dc show ?thesis by (simp add: rd show_nat.simps)
  next
    case False
    then have nz: "hd ds \<noteq> CHR ''0''" using snoc.prems by auto
    then have IH: "show_nat (read_digits ds 0) = ds" using snoc False by simp
    have "read_digits ds 0 \<noteq> 0"
    proof
      assume "read_digits ds 0 = 0"
      with IH have "ds = ''0''" by (simp add: show_nat.simps digit_char_def char_of_def bit_0)
      with nz show False by simp
    qed
    then have "\<not> read_digits (ds @ [c]) 0 < 10" by (simp add: rd)
    with IH dc d show ?thesis
      by (subst show_nat.simps) (simp add: rd)
  qed
qed simp

lemma show_nat_0 [simp]: "show_nat 0 = ''0''"
  by (simp add: show_nat.simps digit_char_def char_of_def bit_0)

lemma hd_show_nat_zero: "hd (show_nat m) = CHR ''0'' \<Longrightarrow> m = 0"
proof (induction m rule: show_nat.induct)
  case (1 m)
  show ?case
  proof (cases "m < 10")
    case True
    with 1 have "(of_char (digit_char m) :: nat) = 48" by (simp add: show_nat.simps)
    with True show ?thesis by simp
  next
    case False
    with 1 have "m div 10 = 0" by (simp add: show_nat.simps [of m])
    with False show ?thesis by simp
  qed
qed

lemma numeric_idx_unat:
  assumes "\<forall>c \<in> set ds. is_digit_char c" "length ds \<le> 19"
  shows "numeric_idx ds 0 = of_nat (read_digits ds 0)" "unat (numeric_idx ds 0) = read_digits ds 0"
proof -
  show eq: "numeric_idx ds 0 = of_nat (read_digits ds 0)"
    using numeric_idx_nat [OF assms(1), of 0] by simp
  have "read_digits ds 0 < 10 ^ length ds" using read_digits_less [of ds 0] by simp
  also have "\<dots> \<le> (10::nat) ^ 19" using assms(2) by (intro power_increasing) auto
  finally have "read_digits ds 0 < 2 ^ 64" by simp
  then show "unat (numeric_idx ds 0) = read_digits ds 0" unfolding eq by (simp add: unat_of_nat)
qed

lemma LONG_MAX_unat [simp]: "unat (word_of_int LONG_MAX :: ulong) = 9223372036854775807"
  by (simp add: LONG_MAX_def)

text \<open>What the macro computes on a sequence of digits, with and without a minus sign.\<close>

lemma symtable_key_digits:
  assumes ds: "\<forall>c \<in> set ds. is_digit_char c" "ds \<noteq> []" "length ds \<le> 19" "hd ds = CHR ''0'' \<longrightarrow> ds = ''0''"
  shows "symtable_key (ds @ [NUL]) =
    (if read_digits ds 0 < 2 ^ 63 then HKIdx (of_nat (read_digits ds 0)) else HKStr (ds @ [NUL]))"
proof -
  have h: "is_digit_char (hd ds)" using ds by simp
  then have "hd ds \<noteq> CHR ''-''" by (auto simp: is_digit_char_def)
  moreover have "list_all is_digit_char ds" using ds by (simp add: list_all_iff)
  moreover have "(word_of_int LONG_MAX < numeric_idx ds 0) \<longleftrightarrow> \<not> read_digits ds 0 < 2 ^ 63"
    using numeric_idx_unat [OF ds(1,3)] by (auto simp: word_less_nat_alt)
  moreover have "\<not> (hd ds = CHR ''0'' \<and> 2 < length (ds @ [NUL]))" using ds(4) by auto
  ultimately show ?thesis
    using h ds numeric_idx_unat(1) [OF ds(1,3)]
    by (auto simp: symtable_key_def MAX_LENGTH_OF_LONG_def Let_def)
qed

lemma symtable_key_minus:
  assumes ds: "\<forall>c \<in> set ds. is_digit_char c" "ds \<noteq> []" "length ds \<le> 19" "hd ds \<noteq> CHR ''0''"
  shows "symtable_key (CHR ''-'' # ds @ [NUL]) =
    (if read_digits ds 0 \<le> 2 ^ 63 then HKIdx (- of_nat (read_digits ds 0)) else HKStr (CHR ''-'' # ds @ [NUL]))"
proof -
  let ?v = "read_digits ds 0"
  have h: "is_digit_char (hd ds)" using ds by simp
  have la: "list_all is_digit_char ds" using ds by (simp add: list_all_iff)
  have "?v \<noteq> 0"
  proof
    assume "?v = 0"
    then have "ds = show_nat 0" using show_nat_read_digits [OF ds(1,2)] ds(4) by simp
    with ds(4) show False by simp
  qed
  then have "unat (numeric_idx ds 0 - 1) = ?v - 1"
    using numeric_idx_unat [OF ds(1,3)] by (metis unat_0 unat_minus_one)
  then have "(word_of_int LONG_MAX < numeric_idx ds 0 - 1) \<longleftrightarrow> \<not> ?v \<le> 2 ^ 63"
    using \<open>?v \<noteq> 0\<close> by (auto simp: word_less_nat_alt)
  then show ?thesis
    using h la ds numeric_idx_unat(1) [OF ds(1,3)]
    by (simp add: symtable_key_def MAX_LENGTH_OF_LONG_def Let_def)
qed

text \<open>A key that becomes an index is a digit string without a superfluous zero.\<close>

lemma symtable_key_HKIdxE:
  assumes "symtable_key (k @ [NUL]) = HKIdx i"
  obtains (pos) "\<forall>c \<in> set k. is_digit_char c" "k \<noteq> []" "length k \<le> 19" "hd k = CHR ''0'' \<longrightarrow> k = ''0''"
  | (neg) ds where "k = CHR ''-'' # ds" "\<forall>c \<in> set ds. is_digit_char c" "ds \<noteq> []" "length ds \<le> 19"
      "hd ds \<noteq> CHR ''0''"
proof (cases "\<exists>ds. k = CHR ''-'' # ds")
  case True
  then obtain ds where k: "k = CHR ''-'' # ds" by blast
  have "ds \<noteq> []"
    using assms k by (auto simp: symtable_key_def is_digit_char_def NUL_def)
  with assms k show ?thesis
    by (intro neg [OF k])
       (auto simp: symtable_key_def list_all_iff MAX_LENGTH_OF_LONG_def butlast_append Let_def split: if_splits)
next
  case False
  have "k \<noteq> []"
    using assms by (auto simp: symtable_key_def is_digit_char_def NUL_def)
  with False have h: "hd (k @ [NUL]) = hd k" "hd k \<noteq> CHR ''-''" by (cases k; auto)+
  have "length k < 2 \<Longrightarrow> hd k = CHR ''0'' \<Longrightarrow> k = ''0''" using \<open>k \<noteq> []\<close> by (cases k) auto
  with assms h \<open>k \<noteq> []\<close> show ?thesis
    by (intro pos)
       (auto simp: symtable_key_def list_all_iff MAX_LENGTH_OF_LONG_def Let_def less_Suc_eq split: if_splits)
qed

lemma show_nat_pos_props:
  assumes "m \<le> 2 ^ 63"
  shows "\<forall>c \<in> set (show_nat m). is_digit_char c" "length (show_nat m) \<le> 19"
    "hd (show_nat m) = CHR ''0'' \<longrightarrow> m = 0"
proof -
  have "m < 10 ^ 19" using assms by simp
  then show "length (show_nat m) \<le> 19" using length_show_nat_less [of 19 m] by simp
qed (use show_nat_digits hd_show_nat_zero in blast)+

lemma sint_of_nat: "v < 2 ^ 63 \<Longrightarrow> sint (of_nat v :: ulong) = int v"
  by (simp add: signed_of_nat signed_take_bit_int_eq_self)

lemma sint_minus_of_nat: "v \<le> 2 ^ 63 \<Longrightarrow> sint (- of_nat v :: ulong) = - int v"
proof -
  assume "v \<le> 2 ^ 63"
  moreover have "(- of_nat v :: ulong) = word_of_int (- int v)" by simp
  ultimately show ?thesis by (simp only: signed_of_int) (simp add: signed_take_bit_int_eq_self)
qed

lemma symtable_key_index_decimal:
  assumes idx: "symtable_key (k @ [NUL]) = HKIdx i"
  shows "k = show_int (sint i)"
  using idx
proof (cases rule: symtable_key_HKIdxE)
  case pos
  let ?v = "read_digits k 0"
  have v: "?v < 2 ^ 63 \<and> i = of_nat ?v"
    using idx unfolding symtable_key_digits [OF pos] by (simp split: if_splits)
  then have "sint i = int ?v" using sint_of_nat by blast
  with show_nat_read_digits [OF pos(1,2,4)] show ?thesis by (simp add: show_int_def)
next
  case (neg ds)
  let ?v = "read_digits ds 0"
  have sh: "show_nat ?v = ds" using show_nat_read_digits [OF neg(2,3)] neg(5) by simp
  then have nz: "?v \<noteq> 0" using neg(5) show_nat_0 by (metis list.sel(1))
  have v: "?v \<le> 2 ^ 63 \<and> i = - of_nat ?v"
    using idx unfolding neg(1) append_Cons symtable_key_minus [OF neg(2-5)] by (simp split: if_splits)
  then have "sint i = - int ?v" using sint_minus_of_nat by blast
  with sh nz neg(1) show ?thesis by (simp add: show_int_def)
qed

lemma symtable_key_show_int: "symtable_key (show_int (sint i) @ [NUL]) = HKIdx i"
proof -
  have b: "- (2 ^ 63) \<le> sint i" "sint i < 2 ^ 63"
    using sint_greater_eq [of i] sint_less [of i] by simp_all
  have wi: "word_of_int (sint i) = i" by simp
  show ?thesis
  proof (cases "sint i < 0")
    case True
    define m where "m = nat (- sint i)"
    have im: "sint i = - int m" unfolding m_def using True by simp
    have m: "m \<le> 2 ^ 63" "m \<noteq> 0" using b True unfolding im by simp_all
    have i: "i = - of_nat m" using wi unfolding im by simp
    have "hd (show_nat m) \<noteq> CHR ''0''" using m hd_show_nat_zero by blast
    from symtable_key_minus [OF show_nat_pos_props(1) [OF m(1)] _ show_nat_pos_props(2) [OF m(1)] this] m(1)
    have "symtable_key (CHR ''-'' # show_nat m @ [NUL]) = HKIdx (- of_nat m)"
      by (simp add: read_digits_show_nat)
    moreover have "show_int (sint i) = CHR ''-'' # show_nat m" using True by (simp add: show_int_def m_def)
    ultimately show ?thesis by (simp only: i [symmetric] append_Cons)
  next
    case False
    define m where "m = nat (sint i)"
    have im: "sint i = int m" unfolding m_def using False by simp
    have m: "m < 2 ^ 63" using b(2) unfolding im by simp
    have i: "i = of_nat m" using wi unfolding im by simp
    have le: "m \<le> 2 ^ 63" using m(1) by simp
    have "hd (show_nat m) = CHR ''0'' \<longrightarrow> show_nat m = ''0''" using hd_show_nat_zero by force
    from symtable_key_digits [OF show_nat_pos_props(1) [OF le] _ show_nat_pos_props(2) [OF le] this] m(1)
    have "symtable_key (show_nat m @ [NUL]) = HKIdx (of_nat m)" by (simp add: read_digits_show_nat)
    moreover have "show_int (sint i) = show_nat m" using False by (simp add: show_int_def m_def)
    ultimately show ?thesis by (simp only: i [symmetric])
  qed
qed

text \<open>
  Which string keys are array indexes: a key is stored as the index \<open>i\<close> exactly when it is the
  decimal representation of the signed 64-bit number \<open>i\<close>, as PHP prints it: no superfluous zero, no plus
  sign, no overflow. Every other key stays a string.
\<close>

theorem symtable_key_decimal:
  "symtable_key (k @ [NUL]) = HKIdx i \<longleftrightarrow> k = show_int (sint i)"
  using symtable_key_index_decimal symtable_key_show_int by blast

end
