(* ===== verification/PHP_Base64.thy ===== *)
theory PHP_Base64
  imports PHP_Prelude
begin

text \<open>
  Base64 (ext/standard/base64.c): the two tables, the encoder and the decoder. Bytes are
  \<open>of_char c\<close>, promoted to a natural number as C promotes \<open>unsigned char\<close>. The decoder reads
  the memory \<open>mem\<close> from the string's first character to the end of its allocation, because the
  C loop looks one character past the \<open>length\<close> it is given; running off \<open>mem\<close> is \<open>Undef\<close>.
\<close>

unbundle bit_operations_syntax

section \<open>Tables\<close>

definition base64_table :: string where
  "base64_table = ''ABCDEFGHIJKLMNOPQRSTUVWXYZabcdefghijklmnopqrstuvwxyz0123456789+/''"

definition base64_pad :: char where
  "base64_pad = CHR ''=''"

definition base64_reverse_table :: "int list" where
  "base64_reverse_table =
   [-2, -2, -2, -2, -2, -2, -2, -2, -2, -1, -1, -2, -2, -1, -2, -2,
    -2, -2, -2, -2, -2, -2, -2, -2, -2, -2, -2, -2, -2, -2, -2, -2,
    -1, -2, -2, -2, -2, -2, -2, -2, -2, -2, -2, 62, -2, -2, -2, 63,
    52, 53, 54, 55, 56, 57, 58, 59, 60, 61, -2, -2, -2, -2, -2, -2,
    -2,  0,  1,  2,  3,  4,  5,  6,  7,  8,  9, 10, 11, 12, 13, 14,
    15, 16, 17, 18, 19, 20, 21, 22, 23, 24, 25, -2, -2, -2, -2, -2,
    -2, 26, 27, 28, 29, 30, 31, 32, 33, 34, 35, 36, 37, 38, 39, 40,
    41, 42, 43, 44, 45, 46, 47, 48, 49, 50, 51, -2, -2, -2, -2, -2,
    -2, -2, -2, -2, -2, -2, -2, -2, -2, -2, -2, -2, -2, -2, -2, -2,
    -2, -2, -2, -2, -2, -2, -2, -2, -2, -2, -2, -2, -2, -2, -2, -2,
    -2, -2, -2, -2, -2, -2, -2, -2, -2, -2, -2, -2, -2, -2, -2, -2,
    -2, -2, -2, -2, -2, -2, -2, -2, -2, -2, -2, -2, -2, -2, -2, -2,
    -2, -2, -2, -2, -2, -2, -2, -2, -2, -2, -2, -2, -2, -2, -2, -2,
    -2, -2, -2, -2, -2, -2, -2, -2, -2, -2, -2, -2, -2, -2, -2, -2,
    -2, -2, -2, -2, -2, -2, -2, -2, -2, -2, -2, -2, -2, -2, -2, -2,
    -2, -2, -2, -2, -2, -2, -2, -2, -2, -2, -2, -2, -2, -2, -2, -2]"

section \<open>Encoder\<close>

fun b64_encode_loop :: "nat list \<Rightarrow> string" where
  "b64_encode_loop (a # b # c # rest) =
     base64_table ! drop_bit 2 a #
     base64_table ! (push_bit 4 (a AND 3) + drop_bit 4 b) #
     base64_table ! (push_bit 2 (b AND 15) + drop_bit 6 c) #
     base64_table ! (c AND 63) #
     b64_encode_loop rest"
| "b64_encode_loop [a, b] =
     [base64_table ! drop_bit 2 a,
      base64_table ! (push_bit 4 (a AND 3) + drop_bit 4 b),
      base64_table ! push_bit 2 (b AND 15),
      base64_pad]"
| "b64_encode_loop [a] =
     [base64_table ! drop_bit 2 a,
      base64_table ! push_bit 4 (a AND 3),
      base64_pad,
      base64_pad]"
| "b64_encode_loop [] = []"

definition php_base64_encode :: "string \<Rightarrow> int \<Rightarrow> string option" where
  "php_base64_encode str len =
     (if len < 0 then None
      else Some (b64_encode_loop (map of_char (take (nat len) str))))"

section \<open>Decoder\<close>

datatype b64_exit =
    B64_Null \<comment> \<open>\<open>return NULL\<close> from inside the loop\<close>
  | B64_OOB \<comment> \<open>a read past the end of the allocation\<close>
  | B64_Done char nat "nat list" \<comment> \<open>\<open>ch\<close>, \<open>i\<close> and the first \<open>j\<close> bytes of \<open>result\<close>\<close>

text \<open>One sextet \<open>ch\<close> stored by the \<open>switch (i % 4)\<close>: completed bytes and \<open>result[j]\<close>.\<close>

definition b64_store :: "nat \<Rightarrow> nat \<Rightarrow> nat list \<Rightarrow> nat \<Rightarrow> nat list \<times> nat" where
  "b64_store ch i out cur =
     (if i mod 4 = 0 then (out, push_bit 2 ch mod 256)
      else if i mod 4 = 1 then (out @ [cur OR drop_bit 4 ch], push_bit 4 (ch AND 15) mod 256)
      else if i mod 4 = 2 then (out @ [cur OR drop_bit 2 ch], push_bit 6 (ch AND 3) mod 256)
      else (out @ [cur OR ch], cur))"

function (sequential) b64_decode_loop ::
  "bool \<Rightarrow> string \<Rightarrow> int \<Rightarrow> nat \<Rightarrow> nat list \<Rightarrow> nat \<Rightarrow> b64_exit" where
  "b64_decode_loop strict [] len i out cur = B64_OOB"
| "b64_decode_loop strict (ch # rest) len i out cur =
     (if ch = NUL \<or> \<not> 0 < len then B64_Done ch i out
      else if ch = base64_pad then
        (case rest of
           [] \<Rightarrow> B64_OOB
         | nx # rest' \<Rightarrow>
             if nx \<noteq> CHR ''='' \<and> (i mod 4 = 1 \<or> (strict \<and> 0 < len - 1)) then
               if i mod 4 \<noteq> 1 then
                 (case dropWhile is_space_char rest' of
                    [] \<Rightarrow> B64_OOB
                  | c2 # rest2 \<Rightarrow>
                      if c2 = NUL then b64_decode_loop strict (c2 # rest2) (len - 1) i out cur
                      else B64_Null)
               else B64_Null
             else b64_decode_loop strict rest (len - 1) i out cur)
      else
        (let v = base64_reverse_table ! of_char ch in
         if (\<not> strict \<and> v < 0) \<or> v = -1 then b64_decode_loop strict rest (len - 1) i out cur
         else if v = -2 then B64_Null
         else
           (let (out', cur') = b64_store (nat v) i out cur
            in b64_decode_loop strict rest (len - 1) (Suc i) out' cur')))"
  by pat_completeness auto
termination
proof (relation "measure (\<lambda>(strict, mem, len, i, out, cur). length mem)", goal_cases)
  case (2 strict ch rest len i out cur nx rest' c2 rest2)
  have "length (c2 # rest2) \<le> length rest'"
    using length_dropWhile_le [of is_space_char rest'] 2 by simp
  with 2 show ?case by simp
qed auto

definition php_base64_decode_ex :: "string \<Rightarrow> int \<Rightarrow> bool \<Rightarrow> string option outcome" where
  "php_base64_decode_ex mem len strict =
     (case b64_decode_loop strict mem len 0 [] 0 of
        B64_OOB \<Rightarrow> Undef
      | B64_Null \<Rightarrow> Ret None
      | B64_Done ch i out \<Rightarrow>
          if ch = base64_pad \<and> i mod 4 = 1 then Ret None
          else Ret (Some (map char_of out)))"

definition php_base64_decode :: "string \<Rightarrow> int \<Rightarrow> string option outcome" where
  "php_base64_decode mem len = php_base64_decode_ex mem len False"

section \<open>Bit arithmetic as division\<close>

lemma and_mask_nat:
  "(a::nat) AND 3 = a mod 4" "a AND 15 = a mod 16" "a AND 63 = a mod 64"
  using take_bit_eq_mask [of 2 a] take_bit_eq_mask [of 4 a] take_bit_eq_mask [of 6 a]
  by (simp_all add: mask_eq_exp_minus_1 take_bit_eq_mod)

lemma or_eq_plus_nat:
  fixes x y :: nat
  assumes "y < 2 ^ n"
  shows "(x * 2 ^ n) OR y = x * 2 ^ n + y"
proof -
  have "take_bit n y = y" using assms by (simp add: take_bit_nat_eq_self)
  then have "\<not> bit (push_bit n x) k \<or> \<not> bit y k" for k
    by (metis bit_push_bit_iff bit_take_bit_iff linorder_not_le)
  then have "push_bit n x + y = push_bit n x OR y"
    by (rule disjunctive_add)
  then show ?thesis by (simp add: push_bit_eq_mult)
qed

lemmas or_plus_4_16_64 =
  or_eq_plus_nat [where n = 2, simplified]
  or_eq_plus_nat [where n = 4, simplified]
  or_eq_plus_nat [where n = 6, simplified]

lemma shift_nat:
  "push_bit 2 (x::nat) = x * 4" "push_bit 4 x = x * 16" "push_bit 6 x = x * 64"
  "drop_bit 2 x = x div 4" "drop_bit 4 x = x div 16" "drop_bit 6 x = x div 64"
  by (simp_all add: push_bit_eq_mult drop_bit_eq_div)

lemmas b64_arith = and_mask_nat shift_nat

section \<open>The two tables are inverse\<close>

lemma length_base64_tables [simp]:
  "length base64_table = 64" "length base64_reverse_table = 256"
  by (simp_all add: base64_table_def base64_reverse_table_def)

lemma base64_reverse_of_table:
  "map (\<lambda>c. base64_reverse_table ! of_char c) base64_table = map int [0..<64]"
  by (simp add: base64_table_def base64_reverse_table_def upt_conv_Cons)

lemma base64_table_clean: "NUL \<notin> set base64_table" "base64_pad \<notin> set base64_table"
  by (simp_all add: base64_table_def base64_pad_def NUL_def)

lemma base64_tables_inverse:
  assumes "k < 64"
  shows "base64_reverse_table ! of_char (base64_table ! k) = int k"
    and "base64_table ! k \<noteq> NUL" and "base64_table ! k \<noteq> base64_pad"
proof -
  have "map (\<lambda>c. base64_reverse_table ! of_char c) base64_table ! k = map int [0..<64] ! k"
    by (simp only: base64_reverse_of_table)
  with assms show "base64_reverse_table ! of_char (base64_table ! k) = int k" by simp
  show "base64_table ! k \<noteq> NUL" and "base64_table ! k \<noteq> base64_pad"
    using base64_table_clean assms by (metis length_base64_tables(1) nth_mem)+
qed

lemma b64_decode_loop_sextet:
  assumes "k < 64" and "0 < len"
  shows "b64_decode_loop strict (base64_table ! k # rest) len i out cur =
    (let (out', cur') = b64_store k i out cur
     in b64_decode_loop strict rest (len - 1) (Suc i) out' cur')"
  using assms by (simp add: base64_tables_inverse)

lemma mod4_Suc:
  assumes "i mod 4 = (0::nat)"
  shows "Suc i mod 4 = 1" "Suc (Suc i) mod 4 = 2" "Suc (Suc (Suc i)) mod 4 = 3"
    "Suc (Suc (Suc (Suc i))) mod 4 = 0"
  using assms by presburger+

lemma b64_decode_loop_pair:
  assumes "a < 64" "b < 64" and "2 \<le> len" and "i mod 4 = 0"
  shows "b64_decode_loop strict (base64_table ! a # base64_table ! b # rest) len i out cur =
    b64_decode_loop strict rest (len - 2) (Suc (Suc i)) (out @ [a * 4 + b div 16])
      ((b mod 16) * 16)"
proof -
  have "(a * 4) OR (b div 16) = a * 4 + b div 16"
    using assms(2) by (intro or_plus_4_16_64) simp
  with assms mod4_Suc [OF assms(4)] show ?thesis
    by (simp add: b64_decode_loop_sextet b64_store_def b64_arith del: b64_decode_loop.simps)
qed

lemma b64_decode_loop_three:
  assumes "a < 64" "b < 64" "c < 64" and "3 \<le> len" and "i mod 4 = 0"
  shows "b64_decode_loop strict
      (base64_table ! a # base64_table ! b # base64_table ! c # rest) len i out cur =
    b64_decode_loop strict rest (len - 3) (Suc (Suc (Suc i)))
      (out @ [a * 4 + b div 16, (b mod 16) * 16 + c div 4]) ((c mod 4) * 64)"
proof -
  have "((b mod 16) * 16) OR (c div 4) = (b mod 16) * 16 + c div 4"
    using assms(3) by (intro or_plus_4_16_64) simp
  with assms mod4_Suc [OF assms(5)] show ?thesis
    by (subst b64_decode_loop_pair)
       (simp_all add: b64_decode_loop_sextet b64_store_def b64_arith del: b64_decode_loop.simps)
qed

lemma b64_decode_loop_quad:
  assumes "a < 64" "b < 64" "c < 64" "d < 64" and "4 \<le> len" and "i mod 4 = 0"
  shows "b64_decode_loop strict
      (base64_table ! a # base64_table ! b # base64_table ! c # base64_table ! d # rest)
      len i out cur =
    b64_decode_loop strict rest (len - 4) (Suc (Suc (Suc (Suc i))))
      (out @ [a * 4 + b div 16, (b mod 16) * 16 + c div 4, (c mod 4) * 64 + d])
      ((c mod 4) * 64)"
proof -
  have "((c mod 4) * 64) OR d = (c mod 4) * 64 + d"
    using assms(4) by (intro or_plus_4_16_64)
  moreover have "Suc (Suc (Suc i)) mod 4 = 3" by (rule mod4_Suc(3) [OF assms(6)])
  ultimately show ?thesis
    using assms
    by (subst b64_decode_loop_three)
       (simp_all add: b64_decode_loop_sextet b64_store_def b64_arith del: b64_decode_loop.simps)
qed

section \<open>Round trip\<close>

lemma div_mod_pack:
  fixes x y n :: nat
  assumes "y < n"
  shows "(x * n + y) div n = x" and "(x * n + y) mod n = y"
  using assms by simp_all

lemma b64_split:
  assumes "a < 256" "b < 256" "c < (256::nat)"
  shows "a div 4 < 64" "(a mod 4) * 16 + b div 16 < 64" "(b mod 16) * 4 + c div 64 < 64"
    "c mod 64 < 64"
    and "a div 4 * 4 + ((a mod 4) * 16 + b div 16) div 16 = a"
    and "((a mod 4) * 16 + b div 16) mod 16 * 16 + ((b mod 16) * 4 + c div 64) div 4 = b"
    and "((b mod 16) * 4 + c div 64) mod 4 * 64 + c mod 64 = c"
proof -
  have q: "b div 16 < 16" "c div 64 < 4" "a mod 4 < 4" "b mod 16 < 16" using assms by auto
  note p = div_mod_pack [OF q(1), of "a mod 4"] div_mod_pack [OF q(2), of "b mod 16"]
  show "a div 4 < 64" "(a mod 4) * 16 + b div 16 < 64" "(b mod 16) * 4 + c div 64 < 64"
    "c mod 64 < 64"
    using assms q by linarith+
  show "a div 4 * 4 + ((a mod 4) * 16 + b div 16) div 16 = a"
    "((a mod 4) * 16 + b div 16) mod 16 * 16 + ((b mod 16) * 4 + c div 64) div 4 = b"
    "((b mod 16) * 4 + c div 64) mod 4 * 64 + c mod 64 = c"
    unfolding p by simp_all
qed

lemma b64_decode_pad:
  assumes "t \<noteq> CHR ''=''" and "i mod 4 = 2 \<or> i mod 4 = 3"
  shows "b64_decode_loop strict (base64_pad # t # rest) 1 i out cur = B64_Done t i out"
  using assms by (auto simp: base64_pad_def NUL_def)

lemma b64_decode_pad_pad:
  assumes "t \<noteq> CHR ''=''" and "i mod 4 = 2"
  shows "b64_decode_loop strict (base64_pad # base64_pad # t # rest) 2 i out cur = B64_Done t i out"
  using assms by (auto simp: base64_pad_def NUL_def)

lemma b64_roundtrip_tail2:
  assumes "a < 256" "b < 256" "t \<noteq> CHR ''=''" "i mod 4 = 0"
  shows "\<exists>i'. b64_decode_loop strict (b64_encode_loop [a, b] @ t # rest) 4 i out cur
      = B64_Done t i' (out @ [a, b])"
proof -
  have "(0::nat) < 256" by simp
  note sp = b64_split [OF assms(1,2) this, unfolded div_0 mod_0 add_0_right]
  have "b64_decode_loop strict (b64_encode_loop [a, b] @ t # rest) 4 i out cur
      = b64_decode_loop strict (base64_pad # t # rest) (4 - 3) (Suc (Suc (Suc i))) (out @ [a, b])
          (b mod 16 * 4 mod 4 * 64)"
    unfolding b64_encode_loop.simps b64_arith append_Cons append_Nil
    by (subst b64_decode_loop_three) (use sp assms(4) in simp_all)
  then show ?thesis
    using b64_decode_pad [OF assms(3)] mod4_Suc(3) [OF assms(4)] by simp
qed

lemma b64_roundtrip_tail1:
  assumes "a < 256" "t \<noteq> CHR ''=''" "i mod 4 = 0"
  shows "\<exists>i'. b64_decode_loop strict (b64_encode_loop [a] @ t # rest) 4 i out cur
      = B64_Done t i' (out @ [a])"
proof -
  have "b64_decode_loop strict (b64_encode_loop [a] @ t # rest) 4 i out cur
      = b64_decode_loop strict (base64_pad # base64_pad # t # rest) (4 - 2) (Suc (Suc i))
          (out @ [a]) (a mod 4 * 16 mod 16 * 16)"
    unfolding b64_encode_loop.simps b64_arith append_Cons append_Nil
    by (subst b64_decode_loop_pair) (use assms(1,3) in simp_all)
  then show ?thesis
    using b64_decode_pad_pad [OF assms(2)] mod4_Suc(2) [OF assms(3)] by simp
qed

lemma b64_roundtrip_loop:
  assumes "\<forall>x \<in> set bs. x < 256" "t \<noteq> CHR ''=''" "i mod 4 = 0"
  shows "\<exists>i'. b64_decode_loop strict (b64_encode_loop bs @ t # rest)
      (int (length (b64_encode_loop bs))) i out cur = B64_Done t i' (out @ bs)"
  using assms
proof (induction bs arbitrary: i out cur rule: b64_encode_loop.induct)
  case (1 a b c bs)
  then have "a < 256" "b < 256" "c < 256" by auto
  note sp = b64_split [OF this]
  let ?e = "b64_encode_loop bs"
  have "b64_decode_loop strict (b64_encode_loop (a # b # c # bs) @ t # rest)
      (int (length ?e) + 4) i out cur
    = b64_decode_loop strict (?e @ t # rest) (int (length ?e) + 4 - 4) (Suc (Suc (Suc (Suc i))))
        (out @ [a, b, c]) ((b mod 16 * 4 + c div 64) mod 4 * 64)"
    unfolding b64_encode_loop.simps b64_arith append_Cons
    by (subst b64_decode_loop_quad [OF sp(1-4) _ 1(4)], simp, simp only: sp(5-7))
  moreover obtain i' where "b64_decode_loop strict (?e @ t # rest) (int (length ?e))
      (Suc (Suc (Suc (Suc i)))) (out @ [a, b, c]) ((b mod 16 * 4 + c div 64) mod 4 * 64)
    = B64_Done t i' ((out @ [a, b, c]) @ bs)"
    using "1.IH" [OF _ 1(3) mod4_Suc(4) [OF 1(4)]] 1(2) by (metis list.set_intros(2))
  ultimately show ?case by (auto simp: add.commute)
next
  case (2 a b)
  then show ?case using b64_roundtrip_tail2 [of a b t i strict rest out cur] by simp
next
  case (3 a)
  then show ?case using b64_roundtrip_tail1 [of a t i strict rest out cur] by simp
next
  case 4
  then show ?case by simp
qed

lemma map_char_of_char: "map char_of (map (of_char :: char \<Rightarrow> nat) s) = s"
  by (induction s) auto

lemma base64_roundtrip_at:
  assumes "php_base64_encode s (int (length s)) = Some e" and "t \<noteq> CHR ''=''"
  shows "php_base64_decode_ex (e @ t # rest) (int (length e)) strict = Ret (Some s)"
proof -
  have e: "e = b64_encode_loop (map of_char s)"
    using assms(1) by (simp add: php_base64_encode_def)
  obtain i' where "b64_decode_loop strict (e @ t # rest) (int (length e)) 0 [] 0
      = B64_Done t i' (map of_char s)"
    using b64_roundtrip_loop [of "map of_char s" t 0 strict rest "[]" 0] assms(2) e by auto
  with assms(2) show ?thesis
    by (simp add: php_base64_decode_ex_def base64_pad_def map_char_of_char del: map_map)
qed

section \<open>Shape and size of the encoder's output\<close>

lemma length_b64_encode_loop: "length (b64_encode_loop bs) = 4 * ((length bs + 2) div 3)"
proof (induction bs rule: b64_encode_loop.induct)
  case (1 a b c bs)
  have "(length bs + 2 + 3) div 3 = Suc ((length bs + 2) div 3)" by simp
  with 1 show ?case by (simp add: add.commute)
qed auto

lemma b64_table_in: "k < 64 \<Longrightarrow> base64_table ! k \<in> set base64_table"
  by (simp add: nth_mem)

lemma set_b64_encode_loop:
  assumes "\<forall>x \<in> set bs. x < 256"
  shows "set (b64_encode_loop bs) \<subseteq> insert base64_pad (set base64_table)"
  using assms
proof (induction bs rule: b64_encode_loop.induct)
  case (1 a b c bs)
  then have "a < 256" "b < 256" "c < 256" by auto
  from this [THEN b64_split(1)] b64_split(2-4) [OF this] 1 show ?case
    unfolding b64_encode_loop.simps b64_arith by (auto simp: b64_table_in)
next
  case (2 a b)
  then have ab: "a < 256" "b < 256" by auto
  have "b mod 16 * 4 < 64" by simp
  with b64_split(1,2) [OF ab ab(2)] show ?case
    unfolding b64_encode_loop.simps b64_arith by (auto simp: b64_table_in)
next
  case (3 a)
  then have "a div 4 < 64" "a mod 4 * 16 < 64" by auto
  then show ?case unfolding b64_encode_loop.simps b64_arith by (auto simp: b64_table_in)
next
  case 4
  then show ?case by simp
qed

section \<open>Memory safety and output bound of the decoder\<close>

lemma dropWhile_NUL_nonempty: "dropWhile is_space_char (s @ [NUL]) \<noteq> []"
  by (auto simp: dropWhile_eq_Nil_conv is_space_char_def NUL_def)

lemma b64_decode_loop_safe:
  assumes "mem = s @ [NUL]" and "len \<le> int (length s)"
  shows "b64_decode_loop strict mem len i out cur \<noteq> B64_OOB"
  using assms
proof (induction strict mem len i out cur arbitrary: s rule: b64_decode_loop.induct)
  case (1 strict len i out cur)
  then show ?case by simp
next
  case (2 strict ch rest len i out cur)
  show ?case
  proof (cases s)
    case Nil
    with 2 show ?thesis by simp
  next
    case (Cons c s')
    with "2.prems" have r: "ch = c" "rest = s' @ [NUL]" "len - 1 \<le> int (length s')" by auto
    show ?thesis
    proof (cases "ch = base64_pad \<and> ch \<noteq> NUL \<and> 0 < len")
      case pad: True
      show ?thesis
      proof (cases s')
        case Nil
        with pad r "2.IH"(2) [of NUL "[]" "[]"] show ?thesis by auto
      next
        case (Cons nx s'')
        then obtain c2 rest2 where d: "dropWhile is_space_char (s'' @ [NUL]) = c2 # rest2"
          using dropWhile_NUL_nonempty by (cases "dropWhile is_space_char (s'' @ [NUL])") auto
        have "b64_decode_loop strict rest (len - 1) i out cur \<noteq> B64_OOB"
          if "\<not> (nx \<noteq> CHR ''='' \<and> (i mod 4 = 1 \<or> strict \<and> 0 < len - 1))"
          using "2.IH"(2) [of nx "s'' @ [NUL]" s'] pad r Cons that by auto
        with pad r Cons d show ?thesis by (auto split: if_splits)
      qed
    next
      case False
      with r "2.IH"(3,4) show ?thesis by (auto simp: Let_def split: prod.splits)
    qed
  qed
qed

lemma sextet_count:
  fixes i :: nat
  shows "3 * Suc i div 4 = 3 * i div 4 + (if i mod 4 = 0 then 0 else 1)"
proof -
  obtain q r where i: "i = 4 * q + r" "r < 4"
    by (metis mod_less_divisor mult_div_mod_eq zero_less_numeral)
  have three: "3 * i div 4 = 3 * q + 3 * r div 4" "3 * Suc i div 4 = 3 * q + 3 * Suc r div 4"
    unfolding i by simp_all
  from i(2) have "r = 0 \<or> r = 1 \<or> r = 2 \<or> r = 3" by auto
  then show ?thesis unfolding three using i by auto
qed

lemma b64_store_length:
  "b64_store v i out cur = (out', cur') \<Longrightarrow> length out = 3 * i div 4
    \<Longrightarrow> length out' = 3 * Suc i div 4"
  unfolding sextet_count by (auto simp: b64_store_def split: if_splits)

lemma b64_decode_loop_length:
  assumes "b64_decode_loop strict mem len i out cur = B64_Done fin i' out'"
    and "length out = 3 * i div 4"
  shows "length out' = 3 * i' div 4 \<and> int i' \<le> int i + max 0 len"
  using assms
proof (induction strict mem len i out cur rule: b64_decode_loop.induct)
  case (1 strict len i out cur)
  then show ?case by simp
next
  case (2 strict ch rest len i out cur)
  show ?case
  proof (cases "ch = NUL \<or> \<not> 0 < len")
    case True
    with 2 show ?thesis by auto
  next
    case go: False
    show ?thesis
    proof (cases "ch = base64_pad")
      case True
      with go 2 show ?thesis
        by (auto split: list.splits if_splits)
    next
      case False
      obtain out1 cur1 where st: "b64_store (nat (base64_reverse_table ! of_char ch)) i out cur
          = (out1, cur1)" by fastforce
      from go False st 2 b64_store_length [OF st] show ?thesis
        by (auto simp: Let_def split: if_splits)
    qed
  qed
qed

section \<open>Properties\<close>





end
