(* ===== verification/PHP_Url.thy ===== *)
theory PHP_Url
  imports PHP_Prelude
begin

text \<open>
  URL encoding (ext/standard/url.c): \<open>php_htoi\<close>, the two encoders and the two decoders.
  The decoders write in place; since the write position never passes the read position, a
  decoder is the function from the characters read to the characters written.
\<close>

unbundle bit_operations_syntax

section \<open>Character classes of the C locale\<close>

definition isxdigit :: "char \<Rightarrow> bool" where
  "isxdigit c \<longleftrightarrow>
     (let n = (of_char c :: nat)
      in (48 \<le> n \<and> n \<le> 57) \<or> (65 \<le> n \<and> n \<le> 70) \<or> (97 \<le> n \<and> n \<le> 102))"

definition hexchars :: string where
  "hexchars = ''0123456789ABCDEF''"

section \<open>Operations\<close>

definition htoi_digit :: "char \<Rightarrow> int" where
  "htoi_digit s =
     (let c = (of_char s :: int);
          c = (if 65 \<le> c \<and> c \<le> 90 then c + 32 else c)
      in if 48 \<le> c \<and> c \<le> 57 then c - 48 else c - 97 + 10)"

definition php_htoi :: "char \<Rightarrow> char \<Rightarrow> int" where
  "php_htoi s0 s1 = htoi_digit s0 * 16 + htoi_digit s1"

definition url_escape :: "char \<Rightarrow> string" where
  "url_escape s =
     [CHR ''%'', hexchars ! drop_bit 4 (of_char s), hexchars ! (of_char s AND 15)]"

fun php_url_encode :: "string \<Rightarrow> string" where
  "php_url_encode [] = []"
| "php_url_encode (s # from) =
     (let c = (of_char s :: nat) in
      if s = CHR '' '' then CHR ''+'' # php_url_encode from
      else if (c < 48 \<and> s \<noteq> CHR ''-'' \<and> s \<noteq> CHR ''.'')
         \<or> (c < 65 \<and> c > 57)
         \<or> (c > 90 \<and> c < 97 \<and> s \<noteq> CHR ''_'')
         \<or> c > 122
      then url_escape s @ php_url_encode from
      else s # php_url_encode from)"

fun php_url_decode :: "string \<Rightarrow> string" where
  "php_url_decode [] = []"
| "php_url_decode (c # data) =
     (if c = CHR ''+'' then CHR '' '' # php_url_decode data
      else if c = CHR ''%'' \<and> 2 \<le> length data \<and> isxdigit (data ! 0) \<and> isxdigit (data ! 1)
      then char_of (php_htoi (data ! 0) (data ! 1)) # php_url_decode (drop 2 data)
      else c # php_url_decode data)"

fun php_raw_url_encode :: "string \<Rightarrow> string" where
  "php_raw_url_encode [] = []"
| "php_raw_url_encode (s # from) =
     (let c = (of_char s :: nat) in
      if (c < 48 \<and> s \<noteq> CHR ''-'' \<and> s \<noteq> CHR ''.'')
         \<or> (c < 65 \<and> c > 57)
         \<or> (c > 90 \<and> c < 97 \<and> s \<noteq> CHR ''_'')
         \<or> (c > 122 \<and> s \<noteq> CHR ''~'')
      then url_escape s @ php_raw_url_encode from
      else s # php_raw_url_encode from)"

fun php_raw_url_decode :: "string \<Rightarrow> string" where
  "php_raw_url_decode [] = []"
| "php_raw_url_decode (c # data) =
     (if c = CHR ''%'' \<and> 2 \<le> length data \<and> isxdigit (data ! 0) \<and> isxdigit (data ! 1)
      then char_of (php_htoi (data ! 0) (data ! 1)) # php_raw_url_decode (drop 2 data)
      else c # php_raw_url_decode data)"

text \<open>The characters a URL-encoded value is made of.\<close>

definition url_safe_char :: "char \<Rightarrow> bool" where
  "url_safe_char s \<longleftrightarrow>
     (let c = (of_char s :: nat)
      in (48 \<le> c \<and> c \<le> 57) \<or> (65 \<le> c \<and> c \<le> 90) \<or> (97 \<le> c \<and> c \<le> 122)
         \<or> s \<in> {CHR ''-'', CHR ''.'', CHR ''_'', CHR ''+'', CHR ''%''})"

section \<open>Hexadecimal escapes\<close>

lemma hexchars_digits:
  "map htoi_digit hexchars = map int [0..<16]" "list_all isxdigit hexchars"
  "list_all url_safe_char hexchars"
  by (simp_all add: hexchars_def htoi_digit_def isxdigit_def url_safe_char_def upt_conv_Cons)

lemma length_hexchars [simp]: "length hexchars = 16"
  by (simp add: hexchars_def)

lemma hexchars_nth:
  assumes "h < 16"
  shows "htoi_digit (hexchars ! h) = int h" "isxdigit (hexchars ! h)"
    "url_safe_char (hexchars ! h)"
proof -
  have "map htoi_digit hexchars ! h = map int [0..<16] ! h" by (simp only: hexchars_digits)
  with assms show "htoi_digit (hexchars ! h) = int h" by simp
  show "isxdigit (hexchars ! h)" "url_safe_char (hexchars ! h)"
    using hexchars_digits(2,3) assms by (auto simp: list_all_length)
qed

lemma nibbles:
  fixes n :: nat
  assumes "n < 256"
  shows "drop_bit 4 n < 16" "n AND 15 < 16" "drop_bit 4 n * 16 + (n AND 15) = n"
proof -
  have "n AND 15 = n mod 16"
    using take_bit_eq_mask [of 4 n] by (simp add: mask_eq_exp_minus_1 take_bit_eq_mod)
  with assms show "drop_bit 4 n < 16" "n AND 15 < 16" "drop_bit 4 n * 16 + (n AND 15) = n"
    by (auto simp: drop_bit_eq_div)
qed

lemma of_char_less_256: "(of_char c :: nat) < 256"
  by simp

lemma char_of_of_char_int: "char_of (int (of_char c)) = c"
  by (metis char_of_char of_nat_of_char)

lemma php_htoi_escape:
  "php_htoi (hexchars ! drop_bit 4 (of_char c)) (hexchars ! (of_char c AND 15))
    = int (of_char c)"
  using nibbles [OF of_char_less_256, of c]
  by (simp add: php_htoi_def hexchars_nth)

lemma php_url_decode_escape: "php_url_decode (url_escape c @ t) = c # php_url_decode t"
  using nibbles [OF of_char_less_256, of c]
  by (simp add: url_escape_def hexchars_nth php_htoi_escape char_of_of_char_int)

lemma php_raw_url_decode_escape:
  "php_raw_url_decode (url_escape c @ t) = c # php_raw_url_decode t"
  using nibbles [OF of_char_less_256, of c]
  by (simp add: url_escape_def hexchars_nth php_htoi_escape char_of_of_char_int)

section \<open>Round trips and output alphabet\<close>

lemma url_roundtrip: "php_url_decode (php_url_encode s) = s"
proof (induction s)
  case Nil
  then show ?case by simp
next
  case (Cons c s)
  have "c \<noteq> CHR ''+''" "c \<noteq> CHR ''%''"
    if "\<not> ((of_char c :: nat) < 48 \<and> c \<noteq> CHR ''-'' \<and> c \<noteq> CHR ''.'')"
    using that by auto
  with Cons show ?case
    by (auto simp: Let_def php_url_decode_escape simp del: php_url_decode.simps(2)
        simp: php_url_decode.simps(2) [of c "php_url_encode s"]
          php_url_decode.simps(2) [of "CHR ''+''" "php_url_encode s"])
qed

lemma raw_url_roundtrip: "php_raw_url_decode (php_raw_url_encode s) = s"
proof (induction s)
  case Nil
  then show ?case by simp
next
  case (Cons c s)
  have "c \<noteq> CHR ''%''"
    if "\<not> ((of_char c :: nat) < 48 \<and> c \<noteq> CHR ''-'' \<and> c \<noteq> CHR ''.'')"
    using that by auto
  with Cons show ?case
    by (auto simp: Let_def php_raw_url_decode_escape simp del: php_raw_url_decode.simps(2)
        simp: php_raw_url_decode.simps(2) [of c "php_raw_url_encode s"])
qed

lemma url_escape_safe: "list_all url_safe_char (url_escape c)"
  using nibbles [OF of_char_less_256, of c]
  by (simp add: url_escape_def hexchars_nth) (simp add: url_safe_char_def)

lemma php_url_encode_safe: "list_all url_safe_char (php_url_encode s)"
proof (induction s)
  case Nil
  then show ?case by simp
next
  case (Cons c s)
  have "url_safe_char (CHR ''+'')" by (simp add: url_safe_char_def)
  moreover have "url_safe_char c"
    if "\<not> (((of_char c :: nat) < 48 \<and> c \<noteq> CHR ''-'' \<and> c \<noteq> CHR ''.'')
         \<or> ((of_char c :: nat) < 65 \<and> (of_char c :: nat) > 57)
         \<or> ((of_char c :: nat) > 90 \<and> (of_char c :: nat) < 97 \<and> c \<noteq> CHR ''_'')
         \<or> (of_char c :: nat) > 122)"
    using that by (auto simp: url_safe_char_def Let_def)
  ultimately show ?case
    using Cons url_escape_safe [of c] by (auto simp: Let_def)
qed

lemma length_php_url_encode: "length (php_url_encode s) \<le> 3 * length s"
  by (induction s) (auto simp: Let_def url_escape_def)

section \<open>Properties\<close>

text \<open>
  Round trips of the URL codecs: \<open>php_url_decode\<close> inverts \<open>php_url_encode\<close> and
  \<open>php_raw_url_decode\<close> inverts \<open>php_raw_url_encode\<close> on every byte string.
\<close>

theorem url_codec_roundtrip:
  "php_url_decode (php_url_encode s) = s \<and> php_raw_url_decode (php_raw_url_encode s) = s"
  by (simp add: url_roundtrip raw_url_roundtrip)

text \<open>
  What URL encoding emits: only letters, digits, \<open>-\<close>, \<open>.\<close>, \<open>_\<close>, \<open>+\<close> and the
  percent sign of an escape, so neither a space, a quote nor a field separator of a request body
  survives; and at most three bytes per input byte, the size the code allocates.
\<close>

lemma url_encode_alphabet:
  "list_all url_safe_char (php_url_encode s) \<and> length (php_url_encode s) \<le> 3 * length s"
  by (simp add: php_url_encode_safe length_php_url_encode)

end
