(* ===== verification/Daemon_Ext.thy ===== *)
theory Daemon_Ext
  imports Zend_Value PHP_Base64 PHP_Url
begin

text \<open>
  The daemon extension (ext/daemon/daemon.c, php\_daemon.h): an application asks a privileged daemon
  for services it must not perform itself. A request is a text of lines \<open>key:type:value\<close> in a
  buffer of 64 KB, the response has the same form. The theory holds the construction of a request,
  the exchange with the daemon, the parser of the response, the test which URLs may be fetched, the
  functions visible to PHP and, since it sends a request, the end of a request of the sandbox
  extension. \<open>php_parse_response\<close> works on the characters before the NUL; that it decodes URL-encoded
  values in the buffer itself matters for the rest of the response and is modelled, the caller's
  copy of the buffer is not.
\<close>

section \<open>Buffers and characters\<close>

definition REQ_MAXLEN :: int where
  "REQ_MAXLEN = 65536"

definition RESPONSE_MAXLEN :: int where
  "RESPONSE_MAXLEN = 512000"

text \<open>\<open>REQ_APPEND\<close>: the sum of the two \<open>int\<close>s must not overflow; what does not fit is dropped.\<close>

definition REQ_APPEND :: "string \<Rightarrow> string \<Rightarrow> ('w, string) php" where
  "REQ_APPEND req str =
     (if 2147483647 < int (length req + length str) then cundef
      else if REQ_MAXLEN \<le> int (length req + length str) then
        cseq (php_error_docref E_WARNING ''request too long'') (cret req)
      else cret (req @ str))"

definition IS_KEY_CHAR :: "char \<Rightarrow> bool" where
  "IS_KEY_CHAR c \<longleftrightarrow>
     (let n = (of_char c :: nat)
      in 48 \<le> n \<and> n \<le> 57 \<or> 97 \<le> n \<and> n \<le> 122 \<or> 65 \<le> n \<and> n \<le> 90 \<or> c = CHR ''-'' \<or> c = CHR ''_'')"

definition IS_VALUE_CHAR :: "char \<Rightarrow> bool" where
  "IS_VALUE_CHAR c \<longleftrightarrow> (let n = (of_char c :: nat) in 33 \<le> n \<and> n \<le> 126 \<and> c \<noteq> CHR '':'')"

definition newline :: char where
  "newline = CHR 0x0A"

section \<open>Building a request\<close>

text \<open>The characters of a string key before its NUL; \<open>None\<close> for an index or an unfit character.\<close>

definition request_key :: "hash_key \<Rightarrow> ('w, string option) php" where
  "request_key k =
     (case k of
        HKStr key \<Rightarrow>
          if list_all IS_KEY_CHAR (butlast key) then cret (Some (butlast key))
          else
            cseq (php_error_docref E_WARNING
                    (vsprintf ''array key of data should be [a-zA-Z0-9_-]+ (%s given)''
                       [FStr (takeWhile (\<lambda>c. c \<noteq> NUL) key)]))
                 (cret None)
      | HKIdx _ \<Rightarrow>
          cseq (php_error_docref E_WARNING ''array key of data should be string (NOT number)'') (cret None))"

text \<open>
  The loops over the data. The result is the buffer, \<open>None\<close> for \<open>-1\<close>, with the entries as
  \<open>convert_to_string\<close> leaves them.
\<close>

fun post_params_loop :: "bool \<Rightarrow> string \<Rightarrow> entries \<Rightarrow> ('w, string option \<times> entries) php" where
  "post_params_loop first req [] = cret (Some req, [])"
| "post_params_loop first req ((k, value) # es) =
     cbind (if first then cret req else REQ_APPEND req ''&'') (\<lambda>req.
     cbind (request_key k) (\<lambda>key.
       case key of
         None \<Rightarrow> cret (None, (k, value) # es)
       | Some key \<Rightarrow>
           cbind (REQ_APPEND req key) (\<lambda>req.
           cbind (REQ_APPEND req ''='') (\<lambda>req.
           cbind (convert_to_string value) (\<lambda>v.
           cbind (REQ_APPEND req (php_url_encode v)) (\<lambda>req.
           cbind (post_params_loop False req es) (\<lambda>(r, es').
             cret (r, (k, ZString v) # es'))))))))"

definition parse_post_params :: "entries \<Rightarrow> ('w, string option \<times> entries) php" where
  "parse_post_params req = post_params_loop True [] req"

fun parse_request_data :: "string \<Rightarrow> entries \<Rightarrow> ('w, string option \<times> entries) php" where
  "parse_request_data req [] = cret (Some req, [])"
| "parse_request_data req ((k, value) # es) =
     cbind (request_key k) (\<lambda>key.
       case key of
         None \<Rightarrow> cret (None, (k, value) # es)
       | Some key \<Rightarrow>
           cbind (REQ_APPEND req key) (\<lambda>req.
           cbind (REQ_APPEND req '':b:'') (\<lambda>req.
           cbind (convert_to_string value) (\<lambda>v.
           cbind (deref (php_base64_encode v (int (length v)))) (\<lambda>e.
           cbind (REQ_APPEND req e) (\<lambda>req.
           cbind (REQ_APPEND req [newline]) (\<lambda>req.
           cbind (parse_request_data req es) (\<lambda>(r, es').
             cret (r, (k, ZString v) # es')))))))))"

definition get_appid_from_request_data :: "entries \<Rightarrow> int" where
  "get_appid_from_request_data req =
     (case map_of req (HKStr (''appid'' @ [NUL])) of Some (ZLong n) \<Rightarrow> n | _ \<Rightarrow> 0)"

definition get_appname_from_request_data :: "entries \<Rightarrow> string option" where
  "get_appname_from_request_data req =
     (case map_of req (HKStr (''appname'' @ [NUL])) of
        Some (ZString n) \<Rightarrow> Some (takeWhile (\<lambda>c. c \<noteq> NUL) n) | _ \<Rightarrow> None)"

text \<open>The application a request is made for: a privileged script may name it in the data.\<close>

definition request_appid :: "entries option \<Rightarrow> ('w, int) php" where
  "request_appid req =
     cbind php_get_appid (\<lambda>a.
       let app = (case req of Some es \<Rightarrow> if a = 0 then get_appid_from_request_data es else a | None \<Rightarrow> a)
       in cret (if app < 0 then 0 else app))"

definition request_appname :: "int \<Rightarrow> entries option \<Rightarrow> ('w, string) php" where
  "request_appname app req =
     cbind php_get_appname (\<lambda>n.
       let name = (case req of Some es \<Rightarrow> if app = 0 then get_appname_from_request_data es else n | None \<Rightarrow> n)
       in cret (case name of None \<Rightarrow> ''unknown'' | Some [] \<Rightarrow> ''unknown'' | Some n \<Rightarrow> n))"

definition parse_request ::
  "string \<Rightarrow> string \<Rightarrow> entries option \<Rightarrow> ('w, string option \<times> entries option) php" where
  "parse_request method action req =
     cbind (REQ_APPEND [] ''method:p:'') (\<lambda>b.
     cbind (REQ_APPEND b method) (\<lambda>b.
     cbind (REQ_APPEND b [newline]) (\<lambda>b.
     cbind (REQ_APPEND b ''action:p:'') (\<lambda>b.
     cbind (REQ_APPEND b action) (\<lambda>b.
     cbind (REQ_APPEND b [newline]) (\<lambda>b.
     cbind (REQ_APPEND b ''appid:p:'') (\<lambda>b.
     cbind (request_appid req) (\<lambda>app.
     cbind (clift (ltostr app)) (\<lambda>appid_str.
     cbind (REQ_APPEND b appid_str) (\<lambda>b.
     cbind (REQ_APPEND b [newline]) (\<lambda>b.
     cbind (REQ_APPEND b ''appname:b:'') (\<lambda>b.
     cbind (request_appname app req) (\<lambda>name.
     cbind (deref (php_base64_encode name (int (length name)))) (\<lambda>e.
     cbind (REQ_APPEND b e) (\<lambda>b.
     cbind (REQ_APPEND b [newline, newline]) (\<lambda>b.
       case req of
         None \<Rightarrow> cret (Some b, None)
       | Some es \<Rightarrow>
           cbind (parse_request_data b es) (\<lambda>(r, es').
             cret (r, Some es'))))))))))))))))))"

section \<open>The exchange with the daemon\<close>

text \<open>\<open>recv\<close> must not deliver more than the space that is left.\<close>

function recv_loop :: "'w externals \<Rightarrow> nat \<Rightarrow> string \<Rightarrow> ('w, string) php" where
  "recv_loop E sd buf =
     cbind (xcall (x_recv E sd (RESPONSE_MAXLEN - int (length buf)))) (\<lambda>chunk.
       if chunk = [] then cret buf
       else if RESPONSE_MAXLEN < int (length buf + length chunk) then cundef
       else recv_loop E sd (buf @ chunk))"
  by pat_completeness auto
termination
proof (relation "measure (\<lambda>(E, sd, buf). nat (RESPONSE_MAXLEN - int (length buf)))", goal_cases)
  case (2 E sd buf chunk)
  then show ?case by (cases chunk) auto
qed simp

declare recv_loop.simps [simp del]

definition daemon_get_response :: "'w externals \<Rightarrow> string \<Rightarrow> ('w, string) php" where
  "daemon_get_response E req_str =
     cbind (cget id) (\<lambda>s.
     cbind (xread (\<lambda>w. x_gethostbyname E w (daemon_hostname s))) (\<lambda>nlp_host.
       case nlp_host of
         None \<Rightarrow> cseq (php_error_docref E_ERROR ''Cannot resolve host to daemon'') (cret [])
       | Some addr \<Rightarrow>
           cbind (xcall (x_connect E addr (daemon_port s mod 65536))) (\<lambda>sd.
             case sd of
               None \<Rightarrow> cseq (php_error_docref E_ERROR ''Cannot connect to daemon'') (cret [])
             | Some sd \<Rightarrow>
                 cseq (cmodify (\<lambda>s. s\<lparr>world := x_send E sd req_str (world s)\<rparr>))
                 (cbind (recv_loop E sd []) (\<lambda>buf.
                  cseq (if RESPONSE_MAXLEN \<le> int (length buf)
                        then php_error_docref E_WARNING ''Daemon response is too long'' else cret ())
                  (cseq (cmodify (\<lambda>s. s\<lparr>world := x_close E sd (world s)\<rparr>))
                        (cret (takeWhile (\<lambda>c. c \<noteq> NUL) buf))))))))"

section \<open>Parsing the response\<close>

definition hex_digit :: "nat \<Rightarrow> char" where
  "hex_digit n = (''0123456789abcdef'' ! n)"

text \<open>\<open>%x\<close> of a \<open>char\<close> promoted to \<open>int\<close>: a negative one prints all its 32 bits.\<close>

definition show_hex_char :: "char \<Rightarrow> string" where
  "show_hex_char c =
     (let n = (of_char c :: nat);
          low = (if n < 16 then [hex_digit n] else [hex_digit (n div 16), hex_digit (n mod 16)])
      in if n < 128 then low else ''ffffff'' @ low)"

definition unexpected_char :: "char \<Rightarrow> char \<Rightarrow> ('w, unit) php" where
  "unexpected_char c expected =
     php_error_docref E_WARNING
       (''Unexpected character in daemon response 0x'' @ show_hex_char c @ '' ('' @ [expected] @ '' expected)'')"

text \<open>
  The value of a field. \<open>mem\<close> is what follows the start of the value in memory. A base64 text
  that cannot be decoded is a null pointer given to \<open>estrndup\<close>.
\<close>

definition response_value :: "char \<Rightarrow> string \<Rightarrow> string \<Rightarrow> ('w, string) php" where
  "response_value type value mem =
     (if type = CHR ''b'' then
        cbind (clift (php_base64_decode mem (int (length value)))) deref
      else if type = CHR ''u'' then cret (php_url_decode value)
      else cret value)"

text \<open>
  \<open>php_url_decode\<close> works in place and writes a NUL behind its result: when the value was not
  shortened, the NUL falls on the character that follows the value, and the response ends there.
\<close>

definition response_rest :: "char \<Rightarrow> string \<Rightarrow> string \<Rightarrow> string" where
  "response_rest type value rest =
     (if type = CHR ''u'' \<and> length (php_url_decode value) = length value then [] else rest)"

lemma length_response_rest: "length (response_rest type value rest) \<le> length rest"
  by (simp add: response_rest_def)

lemma parse_fields_decreases:
  assumes "cstr_at (dropWhile IS_KEY_CHAR response) 0 = CHR '':''"
  shows "length (dropWhile p (response_rest type value (dropWhile q (tl (tl (tl (dropWhile IS_KEY_CHAR response)))))))
    < length response"
proof -
  have "dropWhile IS_KEY_CHAR response \<noteq> []"
  proof
    assume "dropWhile IS_KEY_CHAR response = []"
    with assms show False by (simp add: cstr_at_def NUL_def del: dropWhile_eq_Nil_conv)
  qed
  then have "length (tl (tl (tl (dropWhile IS_KEY_CHAR response)))) < length (dropWhile IS_KEY_CHAR response)"
    by simp
  also have "\<dots> \<le> length response" by (rule length_dropWhile_le)
  finally show ?thesis
    by (meson le_less_trans length_dropWhile_le length_response_rest order_trans)
qed

function parse_fields :: "string \<Rightarrow> entries \<Rightarrow> ('w, bool \<times> entries) php" where
  "parse_fields response es =
     (let key = takeWhile IS_KEY_CHAR response;
          r1 = dropWhile IS_KEY_CHAR response;
          r2 = tl r1; r3 = tl r2; r4 = tl r3;
          type = cstr_at r2 0
      in
      if cstr_at r1 0 \<noteq> CHR '':'' then
        cseq (unexpected_char (cstr_at r1 0) (CHR '':'')) (cret (False, es))
      else if type \<notin> {CHR ''b'', CHR ''u'', CHR ''p''} then
        cseq (php_error_docref E_WARNING ''Unimplemented response encoding type'') (cret (False, es))
      else if cstr_at r3 0 \<noteq> CHR '':'' then
        cseq (unexpected_char (cstr_at r3 0) (CHR '':'')) (cret (False, es))
      else
        (let value = takeWhile IS_VALUE_CHAR r4;
             rest = response_rest type value (dropWhile IS_VALUE_CHAR r4);
             rest' = dropWhile (\<lambda>c. c = newline) rest
         in
         cbind (response_value type value (r4 @ [NUL])) (\<lambda>v.
           let es' = add_assoc_stringl es key v in
           if rest' \<noteq> [] then parse_fields rest' es' else cret (True, es'))))"
  by pat_completeness auto

termination
  by (relation "measure (\<lambda>(r, es). length r)") (auto simp: parse_fields_decreases)

declare parse_fields.simps [simp del]

definition php_parse_response :: "string \<Rightarrow> ('w, bool \<times> entries) php" where
  "php_parse_response response = parse_fields response []"

section \<open>One request\<close>

text \<open>
  \<open>php_request_daemon\<close>, for a null (\<open>False\<close>) or a proper \<open>return_value\<close>. The result is the
  returned \<open>int\<close> (\<open>None\<close> for the \<open>RETURN_NULL ()\<close> that leaves this \<open>int\<close> function without a value),
  the contents of \<open>return_value\<close> and the data. The exit taken when no request can be built reads
  the local variable \<open>response\<close> before it is set.
\<close>

definition daemon_die :: "bool \<Rightarrow> entries option \<Rightarrow> ('w, bool option \<times> zval \<times> entries option) php" where
  "daemon_die ret data = cret (if ret then None else Some False, ZNull, data)"

definition php_request_daemon ::
  "'w externals \<Rightarrow> bool \<Rightarrow> string \<Rightarrow> string \<Rightarrow> entries option
     \<Rightarrow> ('w, bool option \<times> zval \<times> entries option) php" where
  "php_request_daemon E ret method action data =
     cbind (parse_request method action data) (\<lambda>(req_str, data).
     case req_str of
       None \<Rightarrow> cundef
     | Some req_str \<Rightarrow>
         cbind (daemon_get_response E req_str) (\<lambda>response.
           if cstr_at response 0 = NUL then cret (Some True, ZNull, data)
           else if cstr_at response 0 = CHR ''*'' then
             cseq (php_error_docref E_WARNING (vsprintf ''Daemon returned error: %s'' [FStr response]))
             (cseq (php_error_docref E_WARNING
                      (vsprintf ''Original query string: %s'' [FStr (takeWhile (\<lambda>c. c \<noteq> NUL) req_str)]))
                   (daemon_die ret data))
           else if \<not> ret then cret (Some True, ZNull, data)
           else
             cbind (php_parse_response response) (\<lambda>(ok, es).
               if \<not> ok then
                 cseq (php_error_docref E_WARNING ''Daemon response parse failed'') (daemon_die ret data)
               else cret (Some True, ZArray es, data))))"

definition php_access_log :: "'w externals \<Rightarrow> int \<Rightarrow> int \<Rightarrow> ('w, bool option) php" where
  "php_access_log E exec_time queries =
     (let data = add_assoc_long (add_assoc_long [] ''exec-time'' exec_time) ''query-num'' queries
      in cbind (php_request_daemon E False ''async'' ''access-log'' (Some data)) (\<lambda>(r, _, _). cret r))"

text \<open>The end of a request of the sandbox extension: report its running time in microseconds.\<close>

definition RSHUTDOWN_sandbox :: "'w externals \<Rightarrow> ('w, zresult) php" where
  "RSHUTDOWN_sandbox E =
     cbind (xcall (x_gettimeofday E)) (\<lambda>(end_sec, end_usec).
     cbind (cget id) (\<lambda>s.
       let (sec, usec) = start_time s;
           exec_time = to_int64 ((end_sec - sec) * 1000 * 1000 + end_usec - usec)
       in cseq (php_access_log E exec_time (sint (query_num s))) (cret SUCCESS)))"

section \<open>Which URLs may be fetched\<close>

definition ISLETTER :: "char \<Rightarrow> bool" where
  "ISLETTER c \<longleftrightarrow> (let n = (of_char c :: nat) in 97 \<le> n \<and> n \<le> 122 \<or> 65 \<le> n \<and> n \<le> 90)"

definition ISHOSTCHAR :: "char \<Rightarrow> bool" where
  "ISHOSTCHAR c \<longleftrightarrow> is_digit_char c \<or> ISLETTER c \<or> c = CHR ''-''"

text \<open>
  The checks on what precedes a match. \<open>rev_pre\<close> are the characters before \<open>match\<close>, the nearest
  first; \<open>Ret False\<close> is \<open>goto next\<close>. At the label \<open>scheme\<close> the code steps back twice without
  looking whether it leaves the string.
\<close>

definition url_scheme :: "string \<Rightarrow> bool outcome" where
  "url_scheme rev_pre =
     (case rev_pre of
        [] \<Rightarrow> Undef
      | c # r \<Rightarrow>
          if c \<noteq> CHR ''/'' then Ret False
          else
            (case r of
               [] \<Rightarrow> Undef
             | c # r \<Rightarrow> if c \<noteq> CHR '':'' then Ret False else Ret (list_all ISLETTER r)))"

fun url_subdomain :: "string \<Rightarrow> bool outcome" where
  "url_subdomain [] = Ret True"
| "url_subdomain (c # r) =
     (if c = CHR ''/'' then url_scheme r
      else if \<not> ISHOSTCHAR c \<and> c \<noteq> CHR ''.'' then Ret False
      else url_subdomain r)"

definition url_match :: "string \<Rightarrow> bool outcome" where
  "url_match rev_pre =
     (case rev_pre of
        [] \<Rightarrow> Ret True
      | c # r \<Rightarrow>
          if c = CHR ''/'' then url_scheme r
          else if c \<noteq> CHR ''.'' then Ret False
          else url_subdomain r)"

text \<open>Behind the last host the loop goes on in the memory that follows the list.\<close>

function url_hosts_loop :: "string \<Rightarrow> string \<Rightarrow> bool outcome" where
  "url_hosts_loop url hosts =
     (let comma_pos = strchrnul hosts (CHR '','');
          next = (if comma_pos < length hosts then url_hosts_loop url (drop (Suc comma_pos) hosts) else Undef)
      in
      case strstr url (take comma_pos hosts) of
        None \<Rightarrow> next
      | Some match \<Rightarrow>
          (case url_match (rev (take match url)) of
             Ret True \<Rightarrow> Ret True
           | Ret False \<Rightarrow> next
           | Bailout \<Rightarrow> Bailout
           | Undef \<Rightarrow> Undef))"
  by pat_completeness auto
termination
  by (relation "measure (\<lambda>(u, h). length h)") auto

declare url_hosts_loop.simps [simp del]

definition is_url_allowed :: "string \<Rightarrow> ('w, bool) php" where
  "is_url_allowed url = cbind (cget allowed_hosts) (\<lambda>hosts. clift (url_hosts_loop url hosts))"

text \<open>\<open>ASSERT_ALLOW_URL\<close> in front of the body of a function; \<open>url\<close> is read as a C string.\<close>

definition assert_allow_url :: "'w externals \<Rightarrow> string \<Rightarrow> ('w, zval) php \<Rightarrow> ('w, zval) php" where
  "assert_allow_url E url body =
     (let u = takeWhile (\<lambda>c. c \<noteq> NUL) url in
      cbind (php_app_root_url E) (\<lambda>root.
      cbind (case root of
               Some r \<Rightarrow> if strstr u r = Some 0 then cret True else is_url_allowed u
             | None \<Rightarrow> is_url_allowed u) (\<lambda>allowed.
        if \<not> allowed then
          cseq (php_error_docref E_WARNING (vsprintf ''URL %s is not allowed to be accessed'' [FStr u])) (cret ZNull)
        else body)))"

section \<open>Functions visible to PHP\<close>

text \<open>A wrong number or type of arguments: a warning, and \<open>r\<close> is returned.\<close>

definition wrong_parameters :: "string \<Rightarrow> zval \<Rightarrow> ('w, zval) php" where
  "wrong_parameters usage r =
     cseq (php_error_docref E_WARNING (''wrong parameters passed'' @ [newline] @ ''  Usage: '' @ usage)) (cret r)"

text \<open>\<open>RETURN_BOOL (php_request_daemon (...))\<close>, and the call whose \<open>int\<close> result is ignored.\<close>

definition daemon_bool :: "'w externals \<Rightarrow> string \<Rightarrow> string \<Rightarrow> entries \<Rightarrow> ('w, zval) php" where
  "daemon_bool E method action data =
     cbind (php_request_daemon E True method action (Some data)) (\<lambda>(r, _, _).
       case r of None \<Rightarrow> cundef | Some b \<Rightarrow> cret (ZBool b))"

definition daemon_value :: "'w externals \<Rightarrow> string \<Rightarrow> string \<Rightarrow> entries \<Rightarrow> ('w, zval) php" where
  "daemon_value E method action data =
     cbind (php_request_daemon E True method action (Some data)) (\<lambda>(_, v, _). cret v)"

definition fn_install_blog_filesystem :: "'w externals \<Rightarrow> string option \<Rightarrow> ('w, zval) php" where
  "fn_install_blog_filesystem E args =
     assert_privilege
       (case args of
          None \<Rightarrow> wrong_parameters ''install_blog_filesystem(string appname)'' (ZBool False)
        | Some app \<Rightarrow> daemon_bool E ''sync'' ''install-blog-filesystem'' (add_assoc_stringl [] ''appname'' app))"

definition fn_install_plugin :: "'w externals \<Rightarrow> (string \<times> string) option \<Rightarrow> ('w, zval) php" where
  "fn_install_plugin E args =
     (case args of
        None \<Rightarrow> wrong_parameters ''install_plugin(string plugin_name, string remote_filename)'' (ZBool False)
      | Some (plugin, filename) \<Rightarrow>
          daemon_bool E ''async-callback'' ''install-plugin''
            (add_assoc_stringl (add_assoc_stringl [] ''plugin-name'' plugin) ''remote-filename'' filename))"

definition fn_remove_plugin :: "'w externals \<Rightarrow> string option \<Rightarrow> ('w, zval) php" where
  "fn_remove_plugin E args =
     (case args of
        None \<Rightarrow> wrong_parameters ''remove_plugin(string plugin_name)'' (ZBool False)
      | Some plugin \<Rightarrow>
          daemon_bool E ''async-callback'' ''remove-plugin'' (add_assoc_stringl [] ''plugin-name'' plugin))"

definition fn_install_theme :: "'w externals \<Rightarrow> (string \<times> string) option \<Rightarrow> ('w, zval) php" where
  "fn_install_theme E args =
     (case args of
        None \<Rightarrow> wrong_parameters ''install_theme(string theme_name, string remote_filename)'' (ZBool False)
      | Some (theme, filename) \<Rightarrow>
          daemon_bool E ''async-callback'' ''install-theme''
            (add_assoc_stringl (add_assoc_stringl [] ''theme-name'' theme) ''remote-filename'' filename))"

definition fn_remove_theme :: "'w externals \<Rightarrow> string option \<Rightarrow> ('w, zval) php" where
  "fn_remove_theme E args =
     (case args of
        None \<Rightarrow> wrong_parameters ''remove_theme(string theme_name)'' (ZBool False)
      | Some theme \<Rightarrow>
          daemon_bool E ''async-callback'' ''remove-theme'' (add_assoc_stringl [] ''theme-name'' theme))"

definition fn_sendmail :: "'w externals \<Rightarrow> (string \<times> string \<times> string) option \<Rightarrow> ('w, zval) php" where
  "fn_sendmail E args =
     (case args of
        None \<Rightarrow> wrong_parameters ''sendmail(string target, string subject, string content)'' (ZBool False)
      | Some (target, subject, content) \<Rightarrow>
          daemon_bool E ''async-callback'' ''sendmail''
            (add_assoc_stringl (add_assoc_stringl (add_assoc_stringl [] ''target'' target) ''subject'' subject)
               ''content'' content))"

definition fn_set_3rdparty_domain :: "'w externals \<Rightarrow> (string \<times> bool) option \<Rightarrow> ('w, zval) php" where
  "fn_set_3rdparty_domain E args =
     (case args of
        None \<Rightarrow> wrong_parameters ''set_3rdparty_domain(string domain, bool is_ssl)'' (ZBool False)
      | Some (domain, is_ssl) \<Rightarrow>
          daemon_value E ''sync'' ''set-3rdparty-domain''
            (add_assoc_long (add_assoc_stringl [] ''domain'' domain) ''is_ssl'' (if is_ssl then 1 else 0)))"

definition fn_install_ssl_key :: "'w externals \<Rightarrow> string option \<Rightarrow> ('w, zval) php" where
  "fn_install_ssl_key E args =
     (case args of
        None \<Rightarrow> wrong_parameters ''install_ssl_key(string domain)'' (ZBool False)
      | Some domain \<Rightarrow>
          daemon_value E ''sync'' ''install-ssl-key'' (add_assoc_stringl [] ''domain'' domain))"

text \<open>The format \<open>"ll"\<close> stores two longs into variables of type \<open>int\<close>.\<close>

definition fn_access_log :: "(int \<times> int) option \<Rightarrow> ('w, zval) php" where
  "fn_access_log args =
     (case args of
        None \<Rightarrow> wrong_parameters ''access_log(int exec_time, int query_num)'' (ZBool False)
      | Some _ \<Rightarrow> cundef)"

definition fn_is_url_allowed :: "string option \<Rightarrow> ('w, zval) php" where
  "fn_is_url_allowed args =
     (case args of
        None \<Rightarrow> wrong_parameters ''is_url_allowed(string url)'' (ZBool False)
      | Some url \<Rightarrow>
          cbind (is_url_allowed (takeWhile (\<lambda>c. c \<noteq> NUL) url)) (\<lambda>b. cret (ZBool b)))"

definition fn_http_get :: "'w externals \<Rightarrow> string option \<Rightarrow> ('w, zval) php" where
  "fn_http_get E args =
     (case args of
        None \<Rightarrow> wrong_parameters ''http_get(string url)'' ZNull
      | Some url \<Rightarrow>
          assert_allow_url E url (daemon_value E ''sync'' ''http-get'' (add_assoc_stringl [] ''url'' url)))"

text \<open>The body of the request; the array given by the script is not looked at afterwards.\<close>

definition http_post_data :: "string \<Rightarrow> entries option \<Rightarrow> ('w, entries) php" where
  "http_post_data url post =
     (let data = add_assoc_stringl [] ''url'' url in
      case post of
        None \<Rightarrow> cret data
      | Some es \<Rightarrow>
          cbind (parse_post_params es) (\<lambda>(body, _).
            cret (case body of Some b \<Rightarrow> if 0 < length b then add_assoc_stringl data ''body'' b else data
                  | None \<Rightarrow> data)))"

definition fn_http_post :: "'w externals \<Rightarrow> (string \<times> entries option) option \<Rightarrow> ('w, zval) php" where
  "fn_http_post E args =
     (case args of
        None \<Rightarrow> wrong_parameters ''http_post(string url, string body)'' ZNull
      | Some (url, post) \<Rightarrow>
          assert_allow_url E url
            (cbind (http_post_data url post) (\<lambda>data. daemon_value E ''sync'' ''http-post'' data)))"

definition fn_request_daemon ::
  "'w externals \<Rightarrow> (string \<times> string \<times> entries option) option \<Rightarrow> ('w, zval) php" where
  "fn_request_daemon E args =
     (case args of
        None \<Rightarrow> wrong_parameters ''request_daemon(string method, string action, [array data])'' ZNull
      | Some (method, action, data) \<Rightarrow>
          cbind (php_request_daemon E True method action data) (\<lambda>(_, v, _). cret v))"

definition fn_parse_response :: "string option \<Rightarrow> ('w, zval) php" where
  "fn_parse_response args =
     (case args of
        None \<Rightarrow> wrong_parameters ''parse_response(string response)'' ZNull
      | Some response \<Rightarrow>
          cbind (php_parse_response (takeWhile (\<lambda>c. c \<noteq> NUL) response)) (\<lambda>(_, es). cret (ZArray es)))"

end
