(* ===== verification/Sandbox_Correct.thy ===== *)
theory Sandbox_Correct
  imports Sandbox_Ext
begin

text \<open>
  Properties of the sandbox extension: what a successful request start guarantees, that the
  directory tests are exact, that escaped values stay inside their SQL literals, and that the
  buffered reader delivers every row once and in order.
\<close>

section \<open>Formatted numbers\<close>

lemma ltostr_eq:
  assumes "- 1000000000000000000 < v" "v \<le> LONG_MAX"
  shows "ltostr v = Ret (show_int v)"
proof -
  have "to_int64 v = v" using assms by (intro to_int64_id) (auto simp: is_long_def LONG_MAX_def LONG_MIN_def)
  moreover have "length (show_int v) < 20"
  proof (cases "v < 0")
    case True
    then have "nat (- v) < 10 ^ 18" using assms by simp
    then have "length (show_nat (nat (- v))) \<le> 18" using length_show_nat_less [of 18 "nat (- v)"] by simp
    with True show ?thesis by (simp add: show_int_def)
  next
    case False
    then have "nat v < 10 ^ 19" using assms by (simp add: LONG_MAX_def)
    then have "length (show_nat (nat v)) \<le> 19" using length_show_nat_less [of 19 "nat v"] by simp
    with False show ?thesis by (simp add: show_int_def)
  qed
  ultimately show ?thesis by (simp add: ltostr_def LONG_MAXLEN_def)
qed

lemma to_int32_range: "- 2147483648 \<le> to_int32 n \<and> to_int32 n \<le> 2147483647"
  using signed_take_bit_int_greater_eq_minus_exp [of 31 n] signed_take_bit_int_less_exp [of 31 n]
  by (simp add: to_int32_def)

lemma ltostr_int32: "ltostr (to_int32 n) = Ret (show_int (to_int32 n))"
  using to_int32_range [of n] by (intro ltostr_eq) (auto simp: LONG_MAX_def)

section \<open>Directory tests\<close>

lemma cstr_at_slash:
  assumes "prefix d file"
  shows "cstr_at file (length d) = CHR ''/'' \<longleftrightarrow> prefix (d @ ''/'') file"
proof -
  from assms obtain r where "file = d @ r" by (auto simp: prefix_def)
  then show ?thesis by (cases r) (auto simp: cstr_at_def nth_append NUL_def)
qed

lemma is_cstr_split_sep: "is_cstr s \<Longrightarrow> d \<in> set (split_sep x s) \<Longrightarrow> is_cstr d"
proof (induction s rule: length_induct)
  case (1 s)
  show ?case
  proof (cases rule: split_sep_cases [of x s])
    case 1
    with \<open>is_cstr s\<close> \<open>d \<in> _\<close> show ?thesis by simp
  next
    case (2 a b)
    then have "length b < length s" "is_cstr a" "is_cstr b" using 1(2) by (auto simp: is_cstr_def)
    with 1(1) have "d \<in> set (split_sep x b) \<Longrightarrow> is_cstr d" by blast
    with 1(3) 2 \<open>is_cstr a\<close> show ?thesis by auto
  qed
qed

text \<open>The first listed directory whose name is a prefix of the path decides.\<close>

lemma trusted_loop_eq:
  assumes "is_cstr file" "is_cstr base"
  shows "trusted_loop file base =
    (case find (\<lambda>d. d \<noteq> [] \<and> prefix d file) (split_sep (CHR '':'') base) of
       None \<Rightarrow> FAILURE
     | Some d \<Rightarrow> if last d = CHR ''/'' \<or> prefix (d @ ''/'') file then SUCCESS else FAILURE)"
  using assms(2)
proof (induction base rule: length_induct)
  case (1 base)
  have cmp: "strncmp0 file d (length d) \<longleftrightarrow> prefix d file" if "d \<in> set (split_sep (CHR '':'') base)" for d
    using strncmp0_prefix [OF assms(1), of "length d" d] is_cstr_split_sep [OF 1(2) that] by simp
  show ?case
  proof (cases "base = []")
    case True
    then show ?thesis by (simp add: trusted_loop.simps split_sep.simps)
  next
    case False
    show ?thesis
    proof (cases rule: split_sep_cases [of "CHR '':''" base])
      case 1
      with False cmp [of base] show ?thesis
        by (simp add: trusted_loop.simps [of "file" base] strstr_single strchr_None [THEN iffD2] cstr_at_slash)
    next
      case (2 a b)
      then have "length b < length base" "is_cstr b" using 1(2) by (auto simp: is_cstr_def)
      with 1(1) have IH: "trusted_loop file b = (case find (\<lambda>d. d \<noteq> [] \<and> prefix d file) (split_sep (CHR '':'') b) of
         None \<Rightarrow> FAILURE
       | Some d \<Rightarrow> if last d = CHR ''/'' \<or> prefix (d @ ''/'') file then SUCCESS else FAILURE)" by blast
      with 2 cmp [of a] show ?thesis
        by (simp add: trusted_loop.simps [of "file" "a @ _"] strstr_single strchr_append cstr_at_slash)
    qed
  qed
qed

lemma app_root_path_eq:
  "php_app_root_path s =
    (case (appname s, chroot_basedir_peruser s) of
       (Some app, Some userbase) \<Rightarrow>
         if app = [] \<or> userbase = [] then (Ret None, s)
         else
           (let root = hd (split_sep (CHR '':'') userbase) @ ''/'' @ app @ ''/'' in
            if QUERY_MAXLEN \<le> length root then (Undef, s) else (Ret (Some root), s))
     | _ \<Rightarrow> (Ret None, s))"
proof -
  have "take (strchrnul u (CHR '':'')) u = hd (split_sep (CHR '':'') u)" for u
    by (subst split_sep.simps) (simp add: strchrnul_def split: option.splits)
  then show ?thesis
    by (simp add: php_app_root_path_def cundef_def Let_def split: option.splits)
qed

lemma strncmp0_root:
  assumes "is_cstr root" "is_cstr file"
  shows "length file < length root \<or> \<not> strncmp0 root file (length root) \<longleftrightarrow> \<not> prefix root file"
proof -
  have "strncmp0 root file (length root) \<longleftrightarrow> prefix root file" if "length root \<le> length file"
    using that assms by (auto simp: strncmp0_def prefix_def) (metis append_take_drop_id)
  then show ?thesis by (meson linorder_not_le prefix_length_le)
qed

lemma upload_dir_eq:
  assumes root: "php_app_root_path s = (Ret (Some root), s)" and up: "user_upload_dir s = Some up" "up \<noteq> []"
    and c: "is_cstr root" "is_cstr up" "is_cstr file"
  shows "is_in_upload_dir file s = (Ret (if prefix (root @ up) file
      \<and> (last up = CHR ''/'' \<or> prefix (root @ up @ ''/'') file) then SUCCESS else FAILURE), s)"
proof (cases "prefix root file")
  case False
  then have "\<not> prefix (root @ up) file" using append_prefixD by blast
  with False root c strncmp0_root [OF c(1,3)] show ?thesis
    by (auto simp: is_in_upload_dir_def cbind_def)
next
  case True
  then obtain r where r: "file = root @ r" by (auto simp: prefix_def)
  have "strncmp0 r up (length up) \<longleftrightarrow> prefix up r"
    using strncmp0_prefix [of r "length up" up] c r by (simp add: is_cstr_def)
  with True root up strncmp0_root [OF c(1,3)] r show ?thesis
    by (auto simp: is_in_upload_dir_def cbind_def cget_def cstr_at_slash)
qed

section \<open>What a program leaves unchanged\<close>

definition keeps :: "('s \<Rightarrow> 'b) \<Rightarrow> ('s, 'a) cprog \<Rightarrow> bool" where
  "keeps f m \<longleftrightarrow> (\<forall>s. f (snd (m s)) = f s)"

named_theorems keeps_intros \<open>composition rules for unchanged parts of the state\<close>

lemma keepsD: "keeps f m \<Longrightarrow> m s = (r, s') \<Longrightarrow> f s' = f s"
  unfolding keeps_def by (metis snd_conv)

lemma keeps_basic [keeps_intros]:
  "keeps f (cret x)" "keeps f cundef" "keeps f (cget g)" "keeps f (clift out)"
  "keeps F (xread h)" "keeps F (deref p)" "keeps F (column r i)"
  by (simp_all add: keeps_def cget_def clift_def cundef_def xread_def deref_def column_def split: option.splits)

lemma keeps_cbind [keeps_intros]:
  "keeps f m \<Longrightarrow> (\<And>x. keeps f (k x)) \<Longrightarrow> keeps f (cbind m k)"
  by (simp add: keeps_def cbind_def split: prod.splits outcome.splits) (metis snd_conv)

lemma keeps_cseq [keeps_intros]: "keeps f m \<Longrightarrow> keeps f k \<Longrightarrow> keeps f (cseq m k)"
  unfolding cseq_def by (rule keeps_cbind)

lemma keeps_cmodify [keeps_intros]: "(\<And>s. f (g s) = f s) \<Longrightarrow> keeps f (cmodify g)"
  by (simp add: keeps_def cmodify_def)

lemma keeps_if [keeps_intros]: "(c \<Longrightarrow> keeps f m) \<Longrightarrow> (\<not> c \<Longrightarrow> keeps f k) \<Longrightarrow> keeps f (if c then m else k)"
  by simp

lemma keeps_case_option [keeps_intros]:
  "(o' = None \<Longrightarrow> keeps f m) \<Longrightarrow> (\<And>x. o' = Some x \<Longrightarrow> keeps f (k x)) \<Longrightarrow> keeps f (case o' of None \<Rightarrow> m | Some x \<Rightarrow> k x)"
  by (cases o') simp_all

lemma keeps_case_prod [keeps_intros]: "(\<And>a b. keeps f (k a b)) \<Longrightarrow> keeps f (case p of (a, b) \<Rightarrow> k a b)"
  by (cases p) simp

lemma keeps_let [keeps_intros]: "(\<And>x. keeps f (k x)) \<Longrightarrow> keeps f (let x = a in k x)"
  by simp

text \<open>The fields that decide which directories an application sees.\<close>

definition confinement :: "'w php_state \<Rightarrow> string \<times> string option \<times> string option \<times> int \<times> string option" where
  "confinement s = (chroot_basedir s, chroot_basedir_peruser s, appname s, appid s, open_basedir s)"

lemma confinement_updates [simp]:
  "confinement (errors_update a s) = confinement s" "confinement (world_update b s) = confinement s"
  "confinement (default_port_update c s) = confinement s" "confinement (connect_error_update d s) = confinement s"
  "confinement (connect_errno_update e s) = confinement s" "confinement (regular_list_update g s) = confinement s"
  "confinement (num_links_update h s) = confinement s" "confinement (default_link_update i s) = confinement s"
  "confinement (start_time_update j s) = confinement s" "confinement (query_num_update k s) = confinement s"
  "confinement (admindb_sock_update l s) = confinement s"
  by (simp_all add: confinement_def)

lemma keeps_error [keeps_intros]: "keeps confinement (php_error_docref sev msg)"
  by (simp add: keeps_def php_error_docref_def)

lemma keeps_xcall [keeps_intros]: "keeps confinement (xcall f)"
  by (simp add: keeps_def xcall_def split: prod.splits)

lemma keeps_do_mysql_query [keeps_intros]: "keeps confinement (do_mysql_query E sock q)"
  unfolding do_mysql_query_def by (intro keeps_intros)

lemma keeps_app_isactive: "keeps confinement (php_app_isactive E a)"
  unfolding php_app_isactive_def admindb_fetch_field_def by (intro keeps_intros)

lemma keeps_do_connect [keeps_intros]: "keeps confinement (sandbox_mysql_do_connect E u p h d)"
  unfolding sandbox_mysql_do_connect_def resolve_default_port_def php_mysql_set_default_link_def
  by (intro keeps_intros; simp)

lemma keeps_connect_userdb: "keeps confinement (php_connect_userdb E a)"
  unfolding php_connect_userdb_def admindb_fetch_row_def by (intro keeps_intros)

section \<open>Start of a request\<close>

lemma peruser_dirs_split:
  assumes "u \<noteq> []" "last u \<noteq> CHR '':''" "CHR '':'' \<notin> set app"
  shows "split_sep (CHR '':'') (peruser_dirs app u) = map (\<lambda>d. d @ ''/'' @ app) (split_sep (CHR '':'') u)"
  using assms(1,2)
proof (induction u rule: length_induct)
  case (1 u)
  show ?case
  proof (cases rule: split_sep_cases [of "CHR '':''" u])
    case 1
    with \<open>u \<noteq> []\<close> assms(3) show ?thesis
      by (simp add: peruser_dirs.simps [of app u] strstr_single strchr_None [THEN iffD2] split_sep_no_sep)
  next
    case (2 a b)
    then have b: "length b < length u" "b \<noteq> []" "last b \<noteq> CHR '':''" using 1(3) by (auto split: if_splits)
    have "peruser_dirs app u = (a @ ''/'' @ app) @ CHR '':'' # peruser_dirs app b"
      using 2 by (simp add: peruser_dirs.simps [of app "a @ _"] strstr_single strchr_append)
    moreover have "CHR '':'' \<notin> set (a @ ''/'' @ app)" using 2 assms(3) by simp
    ultimately show ?thesis
      using 1(1) b 2 split_sep_append [of "CHR '':''" "a @ ''/'' @ app" "peruser_dirs app b"] by simp
  qed
qed

definition app_basedir :: "'w php_state \<Rightarrow> string \<Rightarrow> string \<Rightarrow> string" where
  "app_basedir s app peruser =
     (if 0 < length (chroot_basedir s) then chroot_basedir s @ '':'' else []) @ peruser_dirs app peruser"

lemma set_basedir_eq:
  assumes "appname s = Some app" "chroot_basedir_peruser s = Some peruser"
  shows "set_basedir E s =
    (if QUERY_MAXLEN \<le> length app + length (chroot_basedir s) + length peruser + 3
     then (Bailout, s\<lparr>errors := errors s @ [(E_ERROR, ''basedir too long'')]\<rparr>)
     else if QUERY_MAXLEN \<le> length (app_basedir s app peruser) then (Undef, s)
     else if \<not> x_ini_set_callable E
     then (Bailout, s\<lparr>errors := errors s @ [(E_ERROR, ''failed to call open_basedir'')]\<rparr>)
     else cseq (ini_set_open_basedir E (app_basedir s app peruser)) (cret SUCCESS) s)"
  using assms by (simp add: set_basedir_def app_basedir_def cundef_def Let_def)

lemma set_basedir_result:
  assumes "set_basedir E s = (Ret r, s')"
  obtains app peruser where "r = SUCCESS" "appname s = Some app" "chroot_basedir_peruser s = Some peruser"
    "\<exists>q. ini_set_open_basedir E (app_basedir s app peruser) s = (Ret q, s')"
    "length (app_basedir s app peruser) < QUERY_MAXLEN"
proof -
  obtain app peruser where ap: "appname s = Some app" "chroot_basedir_peruser s = Some peruser"
    using assms by (cases "appname s"; cases "chroot_basedir_peruser s")
      (auto simp: set_basedir_def cbind_def cget_def cret_def)
  with assms have "length (app_basedir s app peruser) < QUERY_MAXLEN"
    and "cseq (ini_set_open_basedir E (app_basedir s app peruser)) (cret SUCCESS) s = (Ret r, s')"
    by (auto simp: set_basedir_eq [OF ap] split: if_splits)
  with that ap show thesis by (auto elim!: cseq_RetE)
qed

lemma ini_set_unset:
  "open_basedir s = None \<or> open_basedir s = Some [] \<Longrightarrow>
    ini_set_open_basedir E v s = (Ret SUCCESS, s\<lparr>open_basedir := Some v\<rparr>)"
  by (auto simp: ini_set_open_basedir_def OnUpdateBaseDir_def)

lemma strstr_dot: "strstr host ''.'' = Some i \<Longrightarrow> take i host = takeWhile (\<lambda>c. c \<noteq> CHR ''.'') host"
proof -
  assume "strstr host ''.'' = Some i"
  then have i: "i < length host" "host ! i = CHR ''.''" "CHR ''.'' \<notin> set (take i host)"
    using strchr_Some [of host "CHR ''.''" i] by (auto simp: strstr_single)
  have "takeWhile (\<lambda>c. c \<noteq> CHR ''.'') (take i host @ drop i host) = take i host"
    using i by (subst takeWhile_append2) (auto simp: Cons_nth_drop_Suc [symmetric])
  then show ?thesis by simp
qed

lemma keeps_mysql_result_int: "keeps confinement (mysql_result_int E c q)"
  unfolding mysql_result_int_def mysql_result_def by (intro keeps_intros)

lemma set_appid_field_apply: "set_appid_field n s = (Ret (), s\<lparr>appid := n\<rparr>)"
  by (simp add: set_appid_field_def cmodify_def)

lemma php_error_apply: "php_error_docref E_ERROR msg s = (Bailout, s\<lparr>errors := errors s @ [(E_ERROR, msg)]\<rparr>)"
  by (simp add: php_error_docref_def)

lemma init_appid_eq:
  "init_appid E s =
    (let s0 = s\<lparr>appname := Some []\<rparr> in
     if sapi_name s = ''cli'' then (Ret (), s0\<lparr>appid := 0\<rparr>)
     else if sapi_name s \<noteq> ''fpm-fcgi''
     then (Bailout, s0\<lparr>errors := errors s @ [(E_ERROR, ''Unsupported SAPI module'')]\<rparr>)
     else case x_fcgi_getenv E (world s) ''SERVER_NAME'' of
       None \<Rightarrow> (Bailout, s0\<lparr>errors := errors s @
         [(E_ERROR, ''Internal error: Cannot find SERVER_NAME in FastCGI header'')]\<rparr>)
     | Some host \<Rightarrow>
         (case strstr host (hostname_for_subdomain s) of
            None \<Rightarrow> (Ret (), s0\<lparr>appid := -1\<rparr>)
          | Some pos \<Rightarrow>
              if pos = 0 then (Ret (), s0\<lparr>appid := 0\<rparr>)
              else (case strstr host ''.'' of
                None \<Rightarrow> (Ret (), s0\<lparr>appid := -1\<rparr>)
              | Some dot \<Rightarrow>
                  cbind (clift (appid_query (take dot host))) (\<lambda>query.
                  cbind (mysql_result_int E (admindb_sock s) query) (\<lambda>r.
                    case r of None \<Rightarrow> set_appid_field (-1) | Some n \<Rightarrow> set_appid_field n))
                  (s\<lparr>appname := Some (take dot host)\<rparr>))))"
  by (simp add: init_appid_def set_appid_field_apply php_error_apply Let_def
      split: option.split)

lemma init_appid_positive:
  assumes "init_appid E s = (Ret u, s')" "0 < appid s'"
  obtains host i where "x_fcgi_getenv E (world s) ''SERVER_NAME'' = Some host"
    "strstr host (hostname_for_subdomain s) = Some (Suc i)" "sapi_name s = ''fpm-fcgi''"
    "confinement s' = (chroot_basedir s, chroot_basedir_peruser s,
       Some (takeWhile (\<lambda>c. c \<noteq> CHR ''.'') host), appid s', open_basedir s)"
proof -
  note eq = assms(1) [unfolded init_appid_eq Let_def]
  have sapi: "sapi_name s = ''fpm-fcgi''" using eq assms(2) by (auto split: if_splits)
  obtain host where host: "x_fcgi_getenv E (world s) ''SERVER_NAME'' = Some host"
    using eq sapi by (cases "x_fcgi_getenv E (world s) ''SERVER_NAME''") auto
  obtain pos where pos: "strstr host (hostname_for_subdomain s) = Some (Suc pos)"
  proof (cases "strstr host (hostname_for_subdomain s)")
    case None
    with eq sapi host assms(2) show thesis by auto
  next
    case (Some n)
    with eq sapi host assms(2) that show thesis by (cases n) auto
  qed
  obtain dot where dot: "strstr host ''.'' = Some dot"
    using eq sapi host pos assms(2) by (cases "strstr host ''.''") auto
  have run: "cbind (clift (appid_query (take dot host))) (\<lambda>query.
        cbind (mysql_result_int E (admindb_sock s) query) (\<lambda>r.
          case r of None \<Rightarrow> set_appid_field (-1) | Some n \<Rightarrow> set_appid_field n))
        (s\<lparr>appname := Some (take dot host)\<rparr>) = (Ret u, s')"
    using eq sapi host pos dot by simp
  from run obtain query r t where q: "mysql_result_int E (admindb_sock s) query (s\<lparr>appname := Some (take dot host)\<rparr>) = (Ret r, t)"
    and t: "(case r of None \<Rightarrow> set_appid_field (-1) | Some n \<Rightarrow> set_appid_field n) t = (Ret u, s')"
    by (elim cbind_RetE) (auto simp: clift_def elim!: cbind_RetE)
  have "confinement t = confinement (s\<lparr>appname := Some (take dot host)\<rparr>)"
    by (rule keepsD [OF keeps_mysql_result_int q])
  with t have "confinement s' = (chroot_basedir s, chroot_basedir_peruser s, Some (take dot host), appid s', open_basedir s)"
    by (auto simp: confinement_def set_appid_field_def cmodify_def split: option.splits)
  with that [OF host pos sapi] strstr_dot [OF dot] show thesis by simp
qed

lemma split_sep_join: "split_sep x (a @ x # b) = split_sep x a @ split_sep x b"
proof (induction a rule: length_induct)
  case (1 a)
  show ?case
  proof (cases rule: split_sep_cases [of x a])
    case 1
    then show ?thesis by (simp add: split_sep_append)
  next
    case (2 a1 a2)
    then have "length a2 < length a" by simp
    with 1 have "split_sep x (a2 @ x # b) = split_sep x a2 @ split_sep x b" by blast
    with 2 split_sep_append [of x a1 "a2 @ x # b"] show ?thesis by simp
  qed
qed

lemma start_app_result:
  assumes "start_app E app s = (Ret r, s')"
  obtains s1 s2 s3 where "r = SUCCESS" "php_app_isactive E app s = (Ret True, s1)"
    "php_connect_userdb E app s1 = (Ret SUCCESS, s2)" "set_basedir E s2 = (Ret SUCCESS, s3)"
    "confinement s2 = confinement s" "confinement s' = confinement s3"
proof -
  obtain s1 where a: "php_app_isactive E app s = (Ret True, s1)"
    and r2: "cbind (php_connect_userdb E app) (\<lambda>r.
           if r = FAILURE then
             cseq (php_error_docref E_ERROR ''Cannot connect to user database'') (cret FAILURE)
           else
             cbind (set_basedir E) (\<lambda>r.
               if r = FAILURE then
                 cseq (php_error_docref E_ERROR ''Failed to chroot into sandbox'') (cret FAILURE)
               else
                 cbind (xcall (x_gettimeofday E)) (\<lambda>tv.
                   cseq (cmodify (\<lambda>s. s\<lparr>start_time := tv\<rparr>)) (cret SUCCESS)))) s1 = (Ret r, s')"
    using assms unfolding start_app_def by (auto elim!: cbind_RetE split: if_splits)
  from r2 obtain s2 where c: "php_connect_userdb E app s1 = (Ret SUCCESS, s2)"
    and r3: "cbind (set_basedir E) (\<lambda>r.
               if r = FAILURE then
                 cseq (php_error_docref E_ERROR ''Failed to chroot into sandbox'') (cret FAILURE)
               else
                 cbind (xcall (x_gettimeofday E)) (\<lambda>tv.
                   cseq (cmodify (\<lambda>s. s\<lparr>start_time := tv\<rparr>)) (cret SUCCESS))) s2 = (Ret r, s')"
    by (auto elim!: cbind_RetE split: if_splits) (metis zresult.exhaust)
  from r3 obtain s3 where b: "set_basedir E s2 = (Ret SUCCESS, s3)" "r = SUCCESS" "confinement s' = confinement s3"
    by (auto elim!: cbind_RetE split: if_splits prod.splits simp: xcall_def) (metis zresult.exhaust)+
  have "confinement s2 = confinement s"
    using keepsD [OF keeps_connect_userdb c] keepsD [OF keeps_app_isactive a] by simp
  with that a c b show thesis by blast
qed

lemma RINIT_result:
  assumes "RINIT_sandbox E s = (Ret r, s')"
  obtains s0 s1 where "confinement s0 = confinement s" "init_appid E s0 = (Ret (), s1)"
    "if appid s1 \<le> 0 then r = SUCCESS \<and> s' = s1 else start_app E (appid s1) s1 = (Ret r, s')"
proof -
  have kc: "keeps confinement (if sock = None then connect_admindb E else cret SUCCESS)" for sock
    unfolding connect_admindb_def by (intro keeps_intros) simp
  obtain q t where t: "(if admindb_sock s = None then connect_admindb E else cret SUCCESS) s = (Ret q, t)"
    and rest: "cseq (init_appid E) (cbind (cget appid) (\<lambda>app. if app \<le> 0 then cret SUCCESS else start_app E app))
        (t\<lparr>query_num := 0\<rparr>) = (Ret r, s')"
    using assms unfolding RINIT_sandbox_def
    by (auto elim!: cbind_RetE split: if_splits simp: cget_def)
  from rest obtain u s1 where "init_appid E (t\<lparr>query_num := 0\<rparr>) = (Ret u, s1)"
    and "(if appid s1 \<le> 0 then cret SUCCESS else start_app E (appid s1)) s1 = (Ret r, s')"
    by (elim cseq_RetE) auto
  with that [of "t\<lparr>query_num := 0\<rparr>" s1] keepsD [OF kc t] show thesis by (auto split: if_splits)
qed

section \<open>Properties\<close>



text \<open>
  (C21) The directories trusted PHP code may live in: \<open>is_in_trusted_code_dir\<close> succeeds only for a file
  below one of the configured directories, never for one that merely shares the first characters of
  a directory name. Precisely, the first configured name that is a prefix of the path decides.
\<close>

theorem trusted_code_dir_exact:
  assumes "trusted_code_dir s = Some dirs" "is_cstr file" "is_cstr dirs"
  shows "is_in_trusted_code_dir file s =
      (Ret (case find (\<lambda>d. d \<noteq> [] \<and> prefix d file) (split_sep (CHR '':'') dirs) of
              None \<Rightarrow> FAILURE
            | Some d \<Rightarrow> if last d = CHR ''/'' \<or> prefix (d @ ''/'') file then SUCCESS else FAILURE), s)
    \<and> (is_in_trusted_code_dir file s = (Ret SUCCESS, s) \<longrightarrow>
        (\<exists>d \<in> set (split_sep (CHR '':'') dirs). d \<noteq> []
           \<and> (last d = CHR ''/'' \<and> prefix d file \<or> prefix (d @ ''/'') file)))"
  using assms trusted_loop_eq [OF assms(2,3)]
  by (auto simp: is_in_trusted_code_dir_def cget_def find_Some_iff split: option.splits if_splits
      intro: nth_mem)

theorem trusted_code_dir_exact_witness:
  "is_in_trusted_code_dir ''/core/wp.php'' sample_state = (Ret SUCCESS, sample_state)
    \<and> is_in_trusted_code_dir ''/core2/wp.php'' sample_state = (Ret FAILURE, sample_state)"
  using trusted_code_dir_exact [of sample_state "''/core:/lib/''" "''/core/wp.php''"]
    trusted_code_dir_exact [of sample_state "''/core:/lib/''" "''/core2/wp.php''"]
  by (simp add: sample_state_def is_cstr_def NUL_def split_sep.simps)

text \<open>
  The upload directory of an application: \<open>is_in_upload_dir\<close> answers \<open>SUCCESS\<close> exactly for
  the files below the configured upload directory inside the application's root.
\<close>

theorem upload_dir_exact:
  assumes "appname s = Some app" "app \<noteq> []" "chroot_basedir_peruser s = Some base" "base \<noteq> []"
    "root = hd (split_sep (CHR '':'') base) @ ''/'' @ app @ ''/''" "length root < QUERY_MAXLEN"
    "user_upload_dir s = Some up" "up \<noteq> []" "is_cstr root" "is_cstr up" "is_cstr file"
  shows "is_in_upload_dir file s =
    (Ret (if (last up = CHR ''/'' \<and> prefix (root @ up) file) \<or> prefix (root @ up @ ''/'') file
          then SUCCESS else FAILURE), s)"
proof -
  have "php_app_root_path s = (Ret (Some root), s)"
    using assms(1-6) by (simp add: app_root_path_eq Let_def)
  moreover have "prefix (root @ up @ ''/'') file \<Longrightarrow> prefix (root @ up) file"
    using append_prefixD [of "root @ up" "''/''" "file"] by simp
  ultimately show ?thesis using upload_dir_eq [of s root up "file"] assms(7-11) by auto
qed

section \<open>The text of the queries\<close>

lemma addslashes_length: "is_cstr v \<Longrightarrow> length (addslashes v) \<le> 2 * length v"
  using length_addslashes_loop [of v] by (simp add: addslashes_eq)

lemma mysql_fetch_row_eq: "mysql_fetch_row = head_opt"
  by (simp add: mysql_fetch_row_def fun_eq_iff)

lemma addslashes_literal:
  "is_cstr v \<Longrightarrow> take 1 rest \<noteq> [CHR 0x27] \<Longrightarrow> sql_literal (addslashes v @ CHR 0x27 # rest) = Some (v, rest)"
  by (simp add: addslashes_eq sql_literal_addslashes)



text \<open>
  The same value passed to \<open>admindb_fetch_field\<close>, which does not escape it, ends the literal early
  and leaves a condition behind that is part of the query.
\<close>

lemma admindb_fetch_field_injection:
  "new_sprintf (''SELECT %s FROM %s WHERE `%s`='%s'' @ [CHR 0x27])
      [FStr ''COUNT(*)'', FStr ''appinfo'', FStr ''email'', FStr ''x' OR 'a'='a'']
    = Ret (''SELECT COUNT(*) FROM appinfo WHERE `email`='' @ CHR 0x27 # ''x' OR 'a'='a'' @ [CHR 0x27])
  \<and> sql_literal (''x' OR 'a'='a'' @ [CHR 0x27]) = Some (''x'', '' OR 'a'='a'' @ [CHR 0x27])"
  by (simp add: new_sprintf_def QUERY_MAXLEN_def)

text \<open>Reading the assignments of an \<open>INSERT\<close> statement back (reference, at most \<open>n\<close> of them).\<close>

fun read_assignments :: "nat \<Rightarrow> string \<Rightarrow> (string \<times> string) list option" where
  "read_assignments 0 s = None"
| "read_assignments (Suc n) s =
     (case s of
        [] \<Rightarrow> None
      | c # t \<Rightarrow>
          if c \<noteq> CHR 0x60 then None
          else case strchr t (CHR 0x60) of
            None \<Rightarrow> None
          | Some i \<Rightarrow>
              if take 2 (drop (Suc i) t) \<noteq> [CHR ''='', CHR 0x27] then None
              else case sql_literal (drop (i + 3) t) of
                None \<Rightarrow> None
              | Some (v, rest) \<Rightarrow>
                  (case rest of
                     [] \<Rightarrow> Some [(take i t, v)]
                   | d # rest' \<Rightarrow>
                       if d \<noteq> CHR '','' then None
                       else map_option (Cons (take i t, v)) (read_assignments n rest')))"

definition plain_name :: "string \<Rightarrow> bool" where
  "plain_name f \<longleftrightarrow> (\<forall>c \<in> set f. c \<noteq> NUL \<and> c \<noteq> CHR 0x27 \<and> c \<noteq> CHR 0x22 \<and> c \<noteq> CHR 0x5C \<and> c \<noteq> CHR 0x60)"

lemma plain_name_addslashes: "plain_name f \<Longrightarrow> addslashes f = f \<and> CHR 0x60 \<notin> set f"
  using addslashes_loop_id [of f] addslashes_eq [of f] by (auto simp: plain_name_def is_cstr_def)

lemma read_insert_assignments:
  assumes "\<forall>(f, v) \<in> set fvs. plain_name f \<and> is_cstr v" "fvs \<noteq> []"
  shows "read_assignments (length fvs) (insert_assignments 0 fvs) = Some fvs"
proof -
  have step: "read_assignments (Suc n) (''`'' @ addslashes f @ ''`='' @ [CHR 0x27] @ addslashes v @ [CHR 0x27] @ rest)
      = (case rest of [] \<Rightarrow> Some [(f, v)]
         | d # rest' \<Rightarrow> if d \<noteq> CHR '','' then None else map_option (Cons (f, v)) (read_assignments n rest'))"
    if "plain_name f" "is_cstr v" "take 1 rest \<noteq> [CHR 0x27]" for n f v rest
    using plain_name_addslashes [OF that(1)] addslashes_literal [OF that(2,3)]
    by (auto simp: strchr_append split: list.splits)
  have first: "insert_assignments (Suc i) fvs = insert_assignments (Suc 0) fvs" for i fvs
    by (induction fvs arbitrary: i) (auto, metis)
  have "read_assignments (length fvs) (insert_assignments 0 fvs) = Some fvs
      \<and> (\<exists>x. insert_assignments (Suc 0) fvs = CHR '','' # x \<and> read_assignments (length fvs) x = Some fvs)"
    using assms
  proof (induction fvs)
    case (Cons fv fvs)
    obtain f v where fv: "fv = (f, v)" by (cases fv)
    have fv_ok: "plain_name f" "is_cstr v" using Cons.prems fv by auto
    show ?case
    proof (cases "fvs = []")
      case True
      with step [OF fv_ok, of "[]" 0] show ?thesis by (simp add: fv)
    next
      case False
      then obtain x where x: "insert_assignments (Suc 0) fvs = CHR '','' # x" "read_assignments (length fvs) x = Some fvs"
        using Cons by auto
      with step [OF fv_ok, of "insert_assignments (Suc 0) fvs" "length fvs"] first [of 1 fvs] show ?thesis
        by (simp add: fv)
    qed
  qed simp
  then show ?thesis by blast
qed

text \<open>
  Inserting a row: the statement \<open>admindb_insert_row\<close> sends reads back as the given assignments,
  one per field, each value a literal of its own; so no value can add or change an assignment.
\<close>

theorem admindb_insert_row_query:
  assumes "\<forall>(f, v) \<in> set fvs. plain_name f \<and> is_cstr v" "fvs \<noteq> []"
    "length table + length (insert_assignments 0 fvs) + 17 < QUERY_MAXLEN"
  shows "\<exists>body. read_assignments (length fvs) body = Some fvs
    \<and> admindb_insert_row E table fvs s =
        mysql_noresult_query E (admindb_sock s) (''INSERT INTO '' @ table @ '' SET '' @ body) s"
proof -
  have "new_sprintf ''INSERT INTO %s SET '' [FStr table] = Ret (''INSERT INTO '' @ table @ '' SET '')"
    using assms(3) by (simp add: new_sprintf_def QUERY_MAXLEN_def)
  then have "admindb_insert_row E table fvs s =
      mysql_noresult_query E (admindb_sock s) (''INSERT INTO '' @ table @ '' SET '' @ insert_assignments 0 fvs) s"
    using assms(3) by (simp add: admindb_insert_row_def Let_def QUERY_MAXLEN_def)
  with read_insert_assignments [OF assms(1,2)] show ?thesis by blast
qed

section \<open>Reading a large result piece by piece\<close>

text \<open>\<open>n\<close> successive calls of the reader, until it returns a null pointer.\<close>

fun read_rows :: "'w externals \<Rightarrow> nat \<Rightarrow> ('w, row option list) php" where
  "read_rows E 0 = cret []"
| "read_rows E (Suc n) =
     cbind (buffered_get_next_row E) (\<lambda>r.
       case r of
         None \<Rightarrow> cret []
       | Some row \<Rightarrow> cbind (read_rows E n) (\<lambda>rows. cret (row # rows)))"

text \<open>
  What is assumed of the server: as long as the world stays among the \<open>good\<close> ones, the query with a
  \<open>LIMIT\<close> clause appended yields the rows of its full result from the given offset on, at most as many
  as asked for, and leads to a good world again.
\<close>

definition serves :: "'w externals \<Rightarrow> conn \<Rightarrow> string \<Rightarrow> row list \<Rightarrow> ('w \<Rightarrow> bool) \<Rightarrow> bool" where
  "serves E c q rows good \<longleftrightarrow>
     (\<forall>w k. good w \<longrightarrow> k \<le> length rows \<longrightarrow>
        (\<exists>w1 w2. x_mysql_real_query E c (q @ '' LIMIT '' @ show_nat k @ '','' @ show_nat 65536) w = (False, w1)
           \<and> x_mysql_store_result E c w1 = (Some (take 65536 (drop k rows)), w2) \<and> good w2))"

definition reader_at ::
  "conn \<Rightarrow> string \<Rightarrow> row list \<Rightarrow> ('w \<Rightarrow> bool) \<Rightarrow> nat \<Rightarrow> 'w php_state \<Rightarrow> bool" where
  "reader_at c q rows good k s \<longleftrightarrow>
     br_query s = Some q \<and> br_sock s = Some c \<and> good (world s) \<and>
     (\<exists>b \<le> 65536. br_buffered s = word_of_nat b \<and> br_start s = word_of_nat (k + b) \<and> k + b \<le> length rows
        \<and> (b \<noteq> 0 \<longrightarrow> br_res s = Some (take b (drop k rows))))"

lemma do_mysql_query_ok:
  assumes "x_mysql_real_query E c q (world s) = (False, w1)" "x_mysql_store_result E c w1 = (Some rows, w2)"
  shows "do_mysql_query E (Some c) q s = (Ret (Some rows), s\<lparr>world := w2\<rparr>)"
  using assms by (simp add: do_mysql_query_def xcall_bind)

lemma limit_query:
  assumes "k < 2147483648" "length q + 24 < QUERY_MAXLEN"
  shows "new_sprintf ''%s LIMIT %d,%d'' [FStr q, FInt (int k), FInt BUFFER_SIZE]
    = Ret (q @ '' LIMIT '' @ show_nat k @ '','' @ show_nat 65536)"
proof -
  have "k < 10 ^ 10" using assms(1) by simp
  then have "length (show_nat k) \<le> 10" using length_show_nat_less [of 10 k] by simp
  moreover have "length (show_nat 65536) \<le> 5" using length_show_nat_less [of 5 65536] by simp
  ultimately show ?thesis
    using assms by (simp add: new_sprintf_def BUFFER_SIZE_def show_int_def QUERY_MAXLEN_def Let_def)
qed

lemma fetch_next:
  assumes "br_res s = Some rows" "rows \<noteq> []"
  shows "cseq (cmodify (\<lambda>s. s\<lparr>br_buffered := br_buffered s - 1\<rparr>))
         (cbind (cget br_res) (\<lambda>res.
          cbind (deref res) (\<lambda>rows.
          cseq (cmodify (\<lambda>s. s\<lparr>br_res := Some (tl rows)\<rparr>))
               (cret (Some (mysql_fetch_row rows)))))) s
    = (Ret (Some (Some (hd rows))), s\<lparr>br_buffered := br_buffered s - 1, br_res := Some (tl rows)\<rparr>)"
  using assms by (cases rows) (simp_all add: mysql_fetch_row_eq)

lemma reader_step:
  assumes at: "reader_at c q rows good k s" and srv: "serves E c q rows good"
    and len: "length rows < 2147483648" "length q + 24 < QUERY_MAXLEN"
  shows "\<exists>s'. if k < length rows
    then buffered_get_next_row E s = (Ret (Some (Some (rows ! k))), s') \<and> reader_at c q rows good (Suc k) s'
    else buffered_get_next_row E s = (Ret None, s')"
proof -
  obtain b where b: "b \<le> 65536" "br_buffered s = word_of_nat b" "br_start s = word_of_nat (k + b)"
      "k + b \<le> length rows" "b \<noteq> 0 \<Longrightarrow> br_res s = Some (take b (drop k rows))"
    and s: "br_query s = Some q" "br_sock s = Some c" "good (world s)"
    using at by (auto simp: reader_at_def)
  have next_at: "reader_at c q rows good (Suc k)
      (t\<lparr>br_buffered := br_buffered t - 1, br_res := Some (tl (take d (drop k rows)))\<rparr>)"
    if t: "br_query t = Some q" "br_sock t = Some c" "good (world t)" "d \<noteq> 0" "d \<le> 65536"
      "br_buffered t = word_of_nat d" "br_start t = word_of_nat (k + d)" "k + d \<le> length rows" for t d
  proof -
    have "br_buffered t - 1 = word_of_nat (d - 1)" using t(4,6) by (cases d) simp_all
    moreover have "tl (take d (drop k rows)) = take (d - 1) (drop (Suc k) rows)"
      by (simp add: tl_take tl_drop drop_Suc)
    ultimately show ?thesis using t by (auto simp: reader_at_def intro!: exI [of _ "d - 1"])
  qed
  have hd_at: "hd (take d (drop k rows)) = rows ! k \<and> take d (drop k rows) \<noteq> []"
    if "d \<noteq> 0" "k + d \<le> length rows" for d
    using that by (cases d) (auto simp: hd_drop_conv_nth hd_take)
  show ?thesis
  proof (cases "b = 0")
    case False
    then have nz: "br_buffered s \<noteq> 0" using b(1,2) by (auto simp: word_of_nat_eq_0_iff dest: dvd_imp_le)
    have "k < length rows" using False b(4) by simp
    moreover have "buffered_get_next_row E s = (Ret (Some (Some (rows ! k))),
        s\<lparr>br_buffered := br_buffered s - 1, br_res := Some (tl (take b (drop k rows)))\<rparr>)"
      using nz fetch_next [of s "take b (drop k rows)"] b(5) [OF False] hd_at [OF False b(4)]
      by (simp add: buffered_get_next_row_def)
    ultimately show ?thesis using next_at [of s b] False s b by auto
  next
    case True
    then have k: "k \<le> length rows" "br_start s = word_of_nat k" "br_buffered s = 0" using b by auto
    obtain w1 w2 where w: "x_mysql_real_query E c (q @ '' LIMIT '' @ show_nat k @ '','' @ show_nat 65536) (world s) = (False, w1)"
      "x_mysql_store_result E c w1 = (Some (take 65536 (drop k rows)), w2)" "good w2"
      using srv s(3) k(1) unfolding serves_def by blast
    have k31: "k < 2147483648" using k(1) len(1) by simp
    then have u: "uint (br_start s) = int k" using k(2) by (simp add: unsigned_of_nat take_bit_nat_eq_self)
    define d where "d = min (length rows - k) 65536"
    let ?t = "s\<lparr>world := w2, br_res := Some (take 65536 (drop k rows)), br_buffered := word_of_nat d\<rparr>"
    define Q where "Q = q @ '' LIMIT '' @ show_nat k @ '','' @ show_nat 65536"
    have q: "new_sprintf ''%s LIMIT %d,%d'' [FStr q, FInt (int k), FInt BUFFER_SIZE] = Ret Q"
      unfolding Q_def by (rule limit_query [OF k31 len(2)])
    have dq: "do_mysql_query E (Some c) Q s = (Ret (Some (take 65536 (drop k rows))), s\<lparr>world := w2\<rparr>)"
      unfolding Q_def by (rule do_mysql_query_ok [OF w(1,2)])
    note bind_dq = cbind_Ret [where m = "do_mysql_query E (Some c) Q" and s = s, OF dq]
    have run: "buffered_get_next_row E s =
      (if (word_of_nat d :: uint) = 0 then (Ret None, ?t)
       else cseq (cmodify (\<lambda>s. s\<lparr>br_buffered := br_buffered s - 1\<rparr>))
         (cbind (cget br_res) (\<lambda>res.
          cbind (deref res) (\<lambda>rows.
          cseq (cmodify (\<lambda>s. s\<lparr>br_res := Some (tl rows)\<rparr>))
               (cret (Some (mysql_fetch_row rows))))))
         (?t\<lparr>br_start := br_start s + word_of_nat d\<rparr>))"
      unfolding buffered_get_next_row_def
      by (simp add: k(3) s u q bind_dq cprog_simps d_def [symmetric])
    show ?thesis
    proof (cases "k < length rows")
      case False
      then have "d = 0" by (simp add: d_def)
      with run False show ?thesis by auto
    next
      case True
      then have d: "d \<noteq> 0" "d \<le> 65536" "k + d \<le> length rows" by (auto simp: d_def)
      have nz: "(word_of_nat d :: uint) \<noteq> 0" using d by (auto simp: word_of_nat_eq_0_iff dest: dvd_imp_le)
      have tk: "take 65536 (drop k rows) = take d (drop k rows)" by (simp add: d_def min_def)
      show ?thesis
        using run nz fetch_next [of "?t\<lparr>br_start := br_start s + word_of_nat d\<rparr>" "take d (drop k rows)"]
          hd_at [OF d(1,3)] True next_at [of "?t\<lparr>br_start := br_start s + word_of_nat d\<rparr>" d] d s w(3) k(2) tk
        by (auto simp: add.commute)
    qed
  qed
qed

lemma read_rows_from:
  assumes "reader_at c q rows good k s" "k \<le> length rows" "serves E c q rows good"
    "length rows < 2147483648" "length q + 24 < QUERY_MAXLEN"
  shows "\<exists>s'. read_rows E (Suc (length rows - k)) s = (Ret (map Some (drop k rows)), s')"
  using assms(1,2)
proof (induction "length rows - k" arbitrary: k s)
  case 0
  then have "\<not> k < length rows" by simp
  with reader_step [OF 0(2) assms(3-5)] obtain s' where "buffered_get_next_row E s = (Ret None, s')" by auto
  with 0 show ?case by (auto simp: cbind_def)
next
  case (Suc n)
  then have k: "k < length rows" by simp
  with reader_step [OF Suc(3) assms(3-5)] obtain s1
    where s1: "buffered_get_next_row E s = (Ret (Some (Some (rows ! k))), s1)" "reader_at c q rows good (Suc k) s1"
    by auto
  have n: "length rows - k = Suc (length rows - Suc k)" using k by simp
  obtain s' where "read_rows E (Suc (length rows - Suc k)) s1 = (Ret (map Some (drop (Suc k) rows)), s')"
  proof -
    have "n = length rows - Suc k" "Suc k \<le> length rows" using Suc(2) k by arith+
    from Suc(1) [OF this(1) s1(2) this(2)] that show thesis by blast
  qed
  with s1(1) k show ?case
    unfolding n read_rows.simps(2) [of E "Suc _"]
    by (simp add: cbind_def Cons_nth_drop_Suc [symmetric] del: read_rows.simps)
qed

text \<open>
  (C23) The buffered reader delivers a whole result: after \<open>init_buffered_get_next_row\<close>, successive calls
  of \<open>buffered_get_next_row\<close> return every row of the query exactly once and in order, however many
  pieces of 65536 rows the result has, and then the null pointer.
\<close>

theorem buffered_reader_complete:
  assumes "serves E c q rows good" "good (world s)" "length rows < 2147483648" "length q + 24 < QUERY_MAXLEN"
  shows "\<exists>s'. cseq (init_buffered_get_next_row (Some c) q) (read_rows E (Suc (length rows))) s
    = (Ret (map Some rows), s')"
proof -
  let ?s = "s\<lparr>br_buffered := 0, br_start := 0, br_sock := Some c, br_query := Some q\<rparr>"
  have "reader_at c q rows good 0 ?s"
    using assms(2) by (auto simp: reader_at_def intro!: exI [of _ 0])
  from read_rows_from [OF this _ assms(1,3,4)] show ?thesis
    by (simp add: init_buffered_get_next_row_def del: read_rows.simps)
qed

definition limit_ext :: "sample_world externals" where
  "limit_ext = sample_ext\<lparr>x_mysql_store_result := (\<lambda>c w.
     (Some (if last (sw_log w) = ''SELECT a LIMIT 0,65536'' then [[Some ''x'']] else []), w))\<rparr>"

lemma limit_ext_serves: "serves limit_ext 7 ''SELECT a'' [[Some ''x'']] sw_up"
proof -
  have n: "show_nat 0 = ''0''" "show_nat 1 = ''1''" "show_nat 65536 = ''65536''"
    by (simp_all add: show_nat.simps digit_char_def char_of_def bit_0)
  have "\<exists>w1 w2. x_mysql_real_query limit_ext 7 (''SELECT a'' @ '' LIMIT '' @ show_nat k @ '','' @ show_nat 65536) w = (False, w1)
      \<and> x_mysql_store_result limit_ext 7 w1 = (Some (take 65536 (drop k [[Some ''x'']])), w2) \<and> sw_up w2"
    if "sw_up w" "k \<le> 1" for w k
  proof -
    have "k = 0 \<or> k = 1" using that(2) by auto
    then show ?thesis
      using that(1) n by (elim disjE) (simp_all add: limit_ext_def sample_ext_def)
  qed
  then show ?thesis by (simp add: serves_def)
qed

theorem buffered_reader_complete_witness:
  "\<exists>s'. cseq (init_buffered_get_next_row (Some 7) ''SELECT a'') (read_rows limit_ext (Suc (length [[Some ''x'']])))
      sample_state = (Ret (map Some [[Some ''x'']]), s')"
  by (rule buffered_reader_complete [OF limit_ext_serves]) (simp_all add: sample_state_def QUERY_MAXLEN_def)

section \<open>Privileges\<close>



end
