(* ===== verification/Daemon_Correct.thy ===== *)
theory Daemon_Correct
  imports Daemon_Ext Sandbox_Correct
begin

text \<open>
  Properties of the daemon extension: a request and a response stay within their buffers; the
  parser of responses reads back exactly what the builder of requests writes; the header of a
  request names the application that makes it; and what a URL looks like that may be fetched.
\<close>

section \<open>Appending to the request\<close>

lemma cbind_Pair [simp]: "cbind (Pair (Ret x)) f = f x"
  by (simp add: cbind_def fun_eq_iff)

lemma REQ_APPEND_fits [cprog_simps]:
  "int (length req + length str) < REQ_MAXLEN \<Longrightarrow> REQ_APPEND req str = cret (req @ str)"
  by (simp add: REQ_APPEND_def REQ_MAXLEN_def)

lemma REQ_APPEND_bound:
  assumes "REQ_APPEND req str s = (Ret req', t)" "int (length req) < REQ_MAXLEN"
  shows "int (length req') < REQ_MAXLEN"
  using assms by (auto simp: REQ_APPEND_def cundef_def php_error_docref_def cseq_def cbind_def split: if_splits)

lemma REQ_APPEND_Ret: "REQ_APPEND req str s = (Bailout, t) \<Longrightarrow> False"
  by (auto simp: REQ_APPEND_def cundef_def php_error_docref_def cseq_def cbind_def split: if_splits)

section \<open>The wire format\<close>

text \<open>
  A field is a line \<open>key:type:text\<close>. An encoding of values is fit for the format when its texts consist
  of value characters, decode to the value, and leave the rest of the response alone.
\<close>

locale field_codec =
  fixes type :: char
    and dom :: "string \<Rightarrow> bool"
    and enc :: "string \<Rightarrow> string"
  assumes type_known: "type \<in> {CHR ''b'', CHR ''u'', CHR ''p''}"
    and enc_chars: "dom v \<Longrightarrow> list_all IS_VALUE_CHAR (enc v)"
    and enc_value: "dom v \<Longrightarrow>
      response_value type (enc v) (enc v @ newline # rest) (s :: 'w php_state) = (Ret v, s)"
    and enc_rest: "dom v \<Longrightarrow> response_rest type (enc v) rest = rest"
begin

definition field :: "string \<Rightarrow> string \<Rightarrow> string" where
  "field n v = n @ [CHR '':'', type, CHR '':''] @ enc v @ [newline]"

lemma parse_field:
  assumes n: "list_all IS_KEY_CHAR n" and v: "dom v"
  shows "parse_fields (field n v @ rest) es (s :: 'w php_state) =
    (let es' = add_assoc_stringl es n v; r = dropWhile (\<lambda>c. c = newline) rest
     in if r = [] then (Ret (True, es'), s) else parse_fields r es' s)"
proof -
  have colon: "\<not> IS_KEY_CHAR (CHR '':'')" by (simp add: IS_KEY_CHAR_def)
  have nl: "\<not> IS_VALUE_CHAR newline" by (simp add: IS_VALUE_CHAR_def newline_def)
  have k: "takeWhile IS_KEY_CHAR (n @ CHR '':'' # r) = n" "dropWhile IS_KEY_CHAR (n @ CHR '':'' # r) = CHR '':'' # r" for r
    using n colon by (simp_all add: list_all_iff)
  have w: "takeWhile IS_VALUE_CHAR (enc v @ newline # r) = enc v" "dropWhile IS_VALUE_CHAR (enc v @ newline # r) = newline # r" for r
    using enc_chars [OF v] nl by (simp_all add: list_all_iff)
  have c0: "cstr_at (c # r) 0 = c" for c r by (simp add: cstr_at_def)
  have bind: "cbind (response_value type (enc v) (enc v @ newline # r)) f s = f v s" for r f
    by (rule cbind_Ret [OF enc_value [OF v]])
  show ?thesis
    by (subst parse_fields.simps)
       (use type_known in \<open>simp add: field_def k w c0 Let_def enc_rest [OF v] bind\<close>)
qed

end

definition b64 :: "string \<Rightarrow> string" where
  "b64 v = b64_encode_loop (map of_char v)"

lemma php_base64_encode_b64: "php_base64_encode v (int (length v)) = Some (b64 v)"
  by (simp add: php_base64_encode_def b64_def)

lemma length_b64: "length (b64 v) = 4 * ((length v + 2) div 3)"
  by (simp add: b64_def length_b64_encode_loop)

lemma b64_value_chars: "list_all IS_VALUE_CHAR (b64 v)"
proof -
  have "set (b64 v) \<subseteq> insert base64_pad (set base64_table)"
    unfolding b64_def by (rule set_b64_encode_loop) (auto simp: of_char_less_256)
  moreover have "list_all IS_VALUE_CHAR (base64_pad # base64_table)"
    by (simp add: base64_pad_def base64_table_def IS_VALUE_CHAR_def)
  ultimately show ?thesis by (auto simp: list_all_iff)
qed

interpretation b64_field: field_codec "CHR ''b''" "\<lambda>_. True" b64
proof
  fix v rest and s :: "'w php_state"
  have "php_base64_decode_ex (b64 v @ newline # rest) (int (length (b64 v))) False = Ret (Some v)"
    by (rule base64_roundtrip_at [OF php_base64_encode_b64]) (simp add: newline_def)
  then show "response_value (CHR ''b'') (b64 v) (b64 v @ newline # rest) s = (Ret v, s)"
    by (simp add: response_value_def php_base64_decode_def)
qed (simp_all add: b64_value_chars response_rest_def)

interpretation plain_field: field_codec "CHR ''p''" "list_all IS_VALUE_CHAR" "\<lambda>v. v"
  by unfold_locales (simp_all add: response_value_def response_rest_def)

section \<open>What a request looks like\<close>

text \<open>Data of strings under string keys, and the lines it becomes.\<close>

definition kv_entries :: "(string \<times> string) list \<Rightarrow> entries" where
  "kv_entries kvs = map (\<lambda>(n, v). (HKStr (n @ [NUL]), ZString v)) kvs"

definition data_text :: "(string \<times> string) list \<Rightarrow> string" where
  "data_text kvs = concat (map (\<lambda>(n, v). b64_field.field n v) kvs)"

lemma kv_entries_simps [simp]:
  "kv_entries [] = []" "kv_entries ((n, v) # kvs) = (HKStr (n @ [NUL]), ZString v) # kv_entries kvs"
  "kv_entries (xs @ ys) = kv_entries xs @ kv_entries ys"
  by (simp_all add: kv_entries_def)

lemma data_text_simps [simp]:
  "data_text [] = []" "data_text ((n, v) # kvs) = b64_field.field n v @ data_text kvs"
  by (simp_all add: data_text_def)

lemma request_key_ok [simp]: "list_all IS_KEY_CHAR n \<Longrightarrow> request_key (HKStr (n @ [NUL])) = cret (Some n)"
  by (simp add: request_key_def)

lemma parse_request_data_text:
  assumes "\<forall>(n, v) \<in> set kvs. list_all IS_KEY_CHAR n" "int (length req + length (data_text kvs)) < REQ_MAXLEN"
  shows "parse_request_data req (kv_entries kvs) = cret (Some (req @ data_text kvs), kv_entries kvs)"
  using assms
proof (induction kvs arbitrary: req)
  case Nil
  then show ?case by simp
next
  case (Cons nv kvs)
  obtain n v where nv: "nv = (n, v)" by (cases nv)
  have n: "list_all IS_KEY_CHAR n" using Cons.prems nv by simp
  have len: "int (length req + length n + 3 + length (b64 v) + 1 + length (data_text kvs)) < REQ_MAXLEN"
    using Cons.prems(2) unfolding nv by (simp add: b64_field.field_def)
  have keys: "\<forall>(n, v) \<in> set kvs. list_all IS_KEY_CHAR n" using Cons.prems(1) by simp
  have "int (length (req @ b64_field.field n v) + length (data_text kvs)) < REQ_MAXLEN"
    using Cons.prems(2) by (simp add: nv)
  note IH = Cons.IH [OF keys this]
  have fits: "REQ_APPEND req n = cret (req @ n)" "REQ_APPEND (req @ n) '':b:'' = cret ((req @ n) @ '':b:'')"
    "REQ_APPEND ((req @ n) @ '':b:'') (b64 v) = cret (((req @ n) @ '':b:'') @ b64 v)"
    "REQ_APPEND (((req @ n) @ '':b:'') @ b64 v) [newline] = cret (req @ b64_field.field n v)"
    using len by (auto simp only: b64_field.field_def append_assoc append_Cons append_Nil
        length_append list.size intro!: REQ_APPEND_fits [THEN trans])
  show ?case
    unfolding nv kv_entries_simps data_text_simps parse_request_data.simps request_key_ok [OF n]
      cbind_cret option.case fits convert_to_string_def zval.case php_base64_encode_b64 deref_simps IH prod.case
    by (simp only: append_assoc)
qed

definition header_text :: "string \<Rightarrow> string \<Rightarrow> int \<Rightarrow> string \<Rightarrow> string" where
  "header_text meth action app name =
     plain_field.field ''method'' meth @ plain_field.field ''action'' action
       @ plain_field.field ''appid'' (show_int app) @ b64_field.field ''appname'' name @ [newline]"

lemma parse_request_header:
  assumes app: "request_appid req s = (Ret app, s)" "0 \<le> app" "app \<le> LONG_MAX"
    and name: "request_appname app req s = (Ret name, s)"
    and len: "int (length (header_text meth action app name)) < REQ_MAXLEN"
  shows "parse_request meth action req s =
    (case req of
       None \<Rightarrow> (Ret (Some (header_text meth action app name), None), s)
     | Some es \<Rightarrow> cbind (parse_request_data (header_text meth action app name) es) (\<lambda>(r, es'). cret (r, Some es')) s)"
proof -
  have l: "ltostr app = Ret (show_int app)" using app by (intro ltostr_eq) auto
  have b: "int (length meth + length action + length (show_int app) + length (b64 name)) + 41 < REQ_MAXLEN"
    using len by (simp add: header_text_def plain_field.field_def b64_field.field_def)
  note fits = REQ_APPEND_fits
  show ?thesis
    using b unfolding parse_request_def header_text_def plain_field.field_def b64_field.field_def
    by (simp add: fits cbind_Ret [where m = "request_appid req" and s = s, OF app(1)]
        cbind_Ret [where m = "request_appname app req" and s = s, OF name] l php_base64_encode_b64
        split: option.split)
qed

section \<open>Reading a request back\<close>

definition is_string_key :: "string \<Rightarrow> bool" where
  "is_string_key n \<longleftrightarrow> symtable_key (n @ [NUL]) = HKStr (n @ [NUL])"

lemma add_assoc_stringl_new:
  assumes "is_string_key n" "n \<notin> fst ` set kvs"
  shows "add_assoc_stringl (kv_entries kvs) n v = kv_entries (kvs @ [(n, v)])"
proof -
  have "HKStr (n @ [NUL]) \<notin> fst ` set (kv_entries kvs)"
    using assms(2) by (force simp: kv_entries_def)
  with assms(1) show ?thesis
    by (simp add: add_assoc_stringl_def zend_symtable_update_def is_string_key_def om_update_def)
qed

text \<open>No field starts with a line end, so nothing of it is skipped.\<close>

lemma key_no_newline: "list_all IS_KEY_CHAR n \<Longrightarrow> hd (n @ CHR '':'' # r) \<noteq> newline"
  by (cases n) (auto simp: IS_KEY_CHAR_def newline_def)

lemma dropWhile_hd: "xs \<noteq> [] \<Longrightarrow> \<not> p (hd xs) \<Longrightarrow> dropWhile p xs = xs"
  by (cases xs) auto

lemma field_no_newline:
  assumes "list_all IS_KEY_CHAR n"
  shows "dropWhile (\<lambda>c. c = newline) (b64_field.field n v @ r) = b64_field.field n v @ r"
    "dropWhile (\<lambda>c. c = newline) (plain_field.field n v @ r) = plain_field.field n v @ r"
  using key_no_newline [OF assms]
  by (intro dropWhile_hd; simp add: b64_field.field_def plain_field.field_def)+

lemma field_nonempty [simp]: "b64_field.field n v \<noteq> []" "plain_field.field n v \<noteq> []"
  by (simp_all add: b64_field.field_def plain_field.field_def)

lemma data_text_no_newline:
  assumes "\<forall>(n, v) \<in> set kvs. list_all IS_KEY_CHAR n \<and> is_string_key n"
  shows "dropWhile (\<lambda>c. c = newline) (data_text kvs) = data_text kvs" "data_text kvs = [] \<longleftrightarrow> kvs = []"
  using assms by (cases kvs; force simp: field_no_newline)+

lemma parse_data_text:
  assumes "kvs \<noteq> []" "\<forall>(n, v) \<in> set kvs. list_all IS_KEY_CHAR n \<and> is_string_key n"
    "distinct (map fst (done @ kvs))"
  shows "parse_fields (data_text kvs) (kv_entries done) s = (Ret (True, kv_entries (done @ kvs)), s)"
  using assms
proof (induction kvs arbitrary: "done")
  case Nil
  then show ?case by simp
next
  case (Cons nv kvs)
  obtain n v where nv: "nv = (n, v)" by (cases nv)
  have n: "list_all IS_KEY_CHAR n" "is_string_key n" "n \<notin> fst ` set done"
    and rest: "\<forall>(n, v) \<in> set kvs. list_all IS_KEY_CHAR n \<and> is_string_key n"
    using Cons.prems nv by auto
  note step = b64_field.parse_field [OF n(1) TrueI, of v "data_text kvs" "kv_entries done" s]
  show ?case
  proof (cases "kvs = []")
    case True
    with step show ?thesis unfolding nv by (simp add: add_assoc_stringl_new [OF n(2,3)])
  next
    case False
    have "distinct (map fst ((done @ [(n, v)]) @ kvs))" using Cons.prems(3) nv by simp
    from Cons.IH [OF False rest this] False step show ?thesis
      unfolding nv by (simp add: add_assoc_stringl_new [OF n(2,3)] data_text_no_newline [OF rest])
  qed
qed

definition header_fields :: "string \<Rightarrow> string \<Rightarrow> int \<Rightarrow> string \<Rightarrow> (string \<times> string) list" where
  "header_fields meth action app name =
     [(''method'', meth), (''action'', action), (''appid'', show_int app), (''appname'', name)]"

lemma show_int_value_chars: "list_all IS_VALUE_CHAR (show_int n)"
proof -
  have "is_digit_char c \<Longrightarrow> IS_VALUE_CHAR c" for c
    by (auto simp: is_digit_char_def IS_VALUE_CHAR_def Let_def)
  then have "\<forall>c \<in> set (show_nat m). IS_VALUE_CHAR c" for m
    using show_nat_digits by blast
  then show ?thesis by (simp add: show_int_def list_all_iff) (simp add: IS_VALUE_CHAR_def)
qed

lemma parse_header_text:
  assumes m: "list_all IS_VALUE_CHAR meth" "list_all IS_VALUE_CHAR action"
    and k: "\<forall>(n, v) \<in> set kvs. list_all IS_KEY_CHAR n \<and> is_string_key n"
  shows "parse_fields (header_text meth action app name @ data_text kvs) [] s =
    (if kvs = [] then (Ret (True, kv_entries (header_fields meth action app name)), s)
     else parse_fields (data_text kvs) (kv_entries (header_fields meth action app name)) s)"
proof -
  have keys: "list_all IS_KEY_CHAR ''method''" "list_all IS_KEY_CHAR ''action''"
    "list_all IS_KEY_CHAR ''appid''" "list_all IS_KEY_CHAR ''appname''" by (simp_all add: IS_KEY_CHAR_def)
  have sk: "is_string_key ''method''" "is_string_key ''action''" "is_string_key ''appid''" "is_string_key ''appname''"
    by (simp_all add: is_string_key_def symtable_key_def is_digit_char_def)
  have nl: "dropWhile (\<lambda>c. c = newline) (newline # data_text kvs) = data_text kvs"
    using data_text_no_newline [OF k] by simp
  have e0: "[] = kv_entries []" by simp
  show ?thesis
    unfolding header_text_def header_fields_def append_assoc
    by (subst e0)
       (simp add: plain_field.parse_field [OF keys(1) m(1)] plain_field.parse_field [OF keys(2) m(2)]
         plain_field.parse_field [OF keys(3) show_int_value_chars] b64_field.parse_field [OF keys(4)]
         field_no_newline [OF keys(2)] field_no_newline [OF keys(3)] field_no_newline [OF keys(4)]
         add_assoc_stringl_new sk nl data_text_no_newline [OF k] Let_def del: kv_entries_simps)
qed

text \<open>Who makes the request, for a script of an application.\<close>

lemma request_identity:
  assumes "0 < appid s" "appid s < 2147483648" "appname s = Some name" "name \<noteq> []"
  shows "request_appid req s = (Ret (appid s), s)" "request_appname (appid s) req s = (Ret name, s)"
  using assms
  by (auto simp: request_appid_def request_appname_def php_get_appid_def php_get_appname_def Let_def
      split: option.splits list.splits)



section \<open>Results of programs\<close>

text \<open>\<open>yields P m\<close>: whatever \<open>m\<close> returns satisfies \<open>P\<close>.\<close>

definition yields :: "('a \<Rightarrow> bool) \<Rightarrow> ('w, 'a) php \<Rightarrow> bool" where
  "yields P m \<longleftrightarrow> (\<forall>s x t. m s = (Ret x, t) \<longrightarrow> P x)"

lemma yieldsD: "yields P m \<Longrightarrow> m s = (Ret x, t) \<Longrightarrow> P x"
  by (auto simp: yields_def)

lemma yields_cret: "P x \<Longrightarrow> yields P (cret x)"
  by (simp add: yields_def)

lemma yields_bind:
  assumes "yields Q m" "\<And>x. Q x \<Longrightarrow> yields P (f x)"
  shows "yields P (cbind m f)"
  unfolding yields_def
proof (intro allI impI)
  fix s x t
  assume "cbind m f s = (Ret x, t)"
  then obtain y u where "m s = (Ret y, u)" "f y u = (Ret x, t)" by (rule cbind_RetE)
  then show "P x" using yieldsD [OF assms(1)] yieldsD [OF assms(2)] by blast
qed

lemma yields_bind_any: "(\<And>x. yields P (f x)) \<Longrightarrow> yields P (cbind m f)"
  by (rule yields_bind [of "\<lambda>_. True"]) (simp_all add: yields_def)

lemma yields_cseq: "yields P k \<Longrightarrow> yields P (cseq m k)"
  unfolding cseq_def by (rule yields_bind_any)

lemma yields_REQ_APPEND:
  assumes "prefix h req" "int (length req) < REQ_MAXLEN"
    "\<And>r. prefix h r \<Longrightarrow> int (length r) < REQ_MAXLEN \<Longrightarrow> yields P (f r)"
  shows "yields P (cbind (REQ_APPEND req str) f)"
proof (rule yields_bind)
  show "yields (\<lambda>r. prefix h r \<and> int (length r) < REQ_MAXLEN) (REQ_APPEND req str)"
    using assms(1,2)
    by (auto simp: yields_def REQ_APPEND_def cundef_def php_error_docref_def cseq_def cbind_def prefix_def
        split: if_splits)
qed (use assms(3) in blast)

definition built :: "string \<Rightarrow> string option \<Rightarrow> bool" where
  "built h r \<longleftrightarrow> (\<forall>req. r = Some req \<longrightarrow> prefix h req \<and> int (length req) < REQ_MAXLEN)"

lemma parse_request_data_built:
  assumes "prefix h req" "int (length req) < REQ_MAXLEN"
  shows "yields (\<lambda>(r, _). built h r) (parse_request_data req es)"
  using assms
proof (induction req es rule: parse_request_data.induct)
  case (1 req)
  then show ?case unfolding parse_request_data.simps by (intro yields_cret) (simp add: built_def)
next
  case (2 req k v es)
  show ?case
    unfolding parse_request_data.simps
  proof (rule yields_bind_any, split option.split, intro conjI allI impI, goal_cases)
    case 1
    show ?case by (rule yields_cret) (simp add: built_def)
  next
    case (2 ko key)
    show ?case
      using "2.IH" "2.prems"
      by (intro yields_REQ_APPEND [where h = h] yields_bind_any yields_bind [where Q = "\<lambda>(r, _). built h r"])
         (auto intro: yields_cret)
  qed
qed

lemma parse_request_built: "yields (\<lambda>(r, _). built [] r) (parse_request meth action req)"
proof -
  have short: "int (length []) < REQ_MAXLEN" by (simp add: REQ_MAXLEN_def)
  have data: "yields (\<lambda>(r, _). built [] r)
      (case req of
         None \<Rightarrow> cret (Some b, None)
       | Some es \<Rightarrow> cbind (parse_request_data b es) (\<lambda>(r, es'). cret (r, Some es')))"
    if "int (length b) < REQ_MAXLEN" for b
  proof (cases req)
    case None
    with that show ?thesis by (auto simp: built_def intro: yields_cret)
  next
    case (Some es)
    have "yields (\<lambda>(r, _). built [] r) (cbind (parse_request_data b es) (\<lambda>(r, es'). cret (r, Some es')))"
      using parse_request_data_built [of "[]" b es] that
      by (intro yields_bind [where Q = "\<lambda>(r, _). built [] r"]) (auto intro: yields_cret)
    with Some show ?thesis by simp
  qed
  show ?thesis
    unfolding parse_request_def
    by (intro yields_REQ_APPEND [where h = "[]"] yields_bind_any data short) (simp_all add: REQ_MAXLEN_def)
qed

lemma post_params_built:
  assumes "int (length req) < REQ_MAXLEN"
  shows "yields (\<lambda>(r, _). built [] r) (post_params_loop first req es :: ('w, string option \<times> entries) php)"
  using assms
proof (induction first req es rule: post_params_loop.induct)
  case (1 first req)
  then show ?case unfolding post_params_loop.simps by (intro yields_cret) (simp add: built_def)
next
  case (2 first req k v es)
  have body: "yields (\<lambda>(r, _). built [] r)
      (cbind (request_key k) (\<lambda>key.
         case key of
           None \<Rightarrow> cret (None, (k, v) # es)
         | Some key \<Rightarrow>
             cbind (REQ_APPEND r key) (\<lambda>req.
             cbind (REQ_APPEND req ''='') (\<lambda>req.
             cbind (convert_to_string v) (\<lambda>v.
             cbind (REQ_APPEND req (php_url_encode v)) (\<lambda>req.
             cbind (post_params_loop False req es) (\<lambda>(r, es').
               cret (r, (k, ZString v) # es'))))))) :: ('w, string option \<times> entries) php)"
    if r: "int (length r) < REQ_MAXLEN" for r
  proof (rule yields_bind_any, split option.split, intro conjI allI impI, goal_cases)
    case 1
    show ?case by (rule yields_cret) (simp add: built_def)
  next
    case (2 ko key)
    show ?case
      using "2.IH" r
      by (intro yields_REQ_APPEND [where h = "[]"] yields_bind_any [where m = "convert_to_string v"]
            yields_bind [where Q = "\<lambda>(r, _). built [] r" and m = "post_params_loop False _ es"])
         (auto intro: yields_cret)
  qed
  show ?case
  proof (cases first)
    case True
    with body [OF "2.prems"] show ?thesis by (simp only: post_params_loop.simps if_True cbind_cret)
  next
    case False
    then show ?thesis
      unfolding post_params_loop.simps
      by (simp only: if_False) (intro yields_REQ_APPEND [where h = "[]"] body; use "2.prems" in simp)
  qed
qed

text \<open>
  (C24) No request overruns its buffer: whatever the method, the action, the data and the state,
  a request text that \<open>parse_request\<close> or \<open>parse_post_params\<close> returns is shorter than the
  \<open>REQ_MAXLEN\<close> bytes allocated for it.
\<close>

theorem request_fits_buffer:
  "(parse_request meth action data s = (Ret (Some req, data'), t) \<longrightarrow> int (length req) < REQ_MAXLEN)
   \<and> (parse_post_params post s = (Ret (Some body, post'), t) \<longrightarrow> int (length body) < REQ_MAXLEN)"
proof (intro conjI impI)
  assume "parse_request meth action data s = (Ret (Some req, data'), t)"
  from yieldsD [OF parse_request_built this] show "int (length req) < REQ_MAXLEN" by (simp add: built_def)
next
  assume "parse_post_params post s = (Ret (Some body, post'), t)"
  from yieldsD [OF post_params_built this [unfolded parse_post_params_def]]
  show "int (length body) < REQ_MAXLEN" by (simp add: built_def REQ_MAXLEN_def)
qed

theorem request_fits_buffer_witness:
  "\<exists>t. parse_post_params [(HKStr (''a'' @ [NUL]), ZLong 5)] sample_state
     = (Ret (Some ''a=5'', [(HKStr (''a'' @ [NUL]), ZString ''5'')]), t)
   \<and> int (length ''a=5'') < REQ_MAXLEN"
proof -
  let ?run = "parse_post_params [(HKStr (''a'' @ [NUL]), ZLong 5)] sample_state"
  have "fst ?run = Ret (Some ''a=5'', [(HKStr (''a'' @ [NUL]), ZString ''5'')])" by code_simp
  then have "?run = (Ret (Some ''a=5'', [(HKStr (''a'' @ [NUL]), ZString ''5'')]), snd ?run)"
    by (metis prod.collapse)
  with request_fits_buffer show ?thesis by blast
qed

text \<open>
  (C10) An application cannot speak for another one: a request made while the request's application
  id is positive starts with the header that names that id and the application's own name,
  whatever the data contain.
\<close>

theorem daemon_request_identity:
  assumes app: "0 < appid s" "appid s < 2147483648" "appname s = Some name" "name \<noteq> []"
    and len: "int (length (header_text meth action (appid s) name)) < REQ_MAXLEN"
    and req: "parse_request meth action data s = (Ret (Some req, data'), t)"
  shows "prefix (header_text meth action (appid s) name) req"
proof (cases data)
  case None
  with parse_request_header [OF request_identity(1) [OF app], where name = name and meth = meth and action = action and req = data] req app len
    request_identity(2) [OF app]
  show ?thesis by (auto simp: LONG_MAX_def)
next
  case (Some es)
  let ?h = "header_text meth action (appid s) name"
  have "parse_request meth action data s = cbind (parse_request_data ?h es) (\<lambda>(r, es'). cret (r, Some es')) s"
    using parse_request_header [OF request_identity(1) [OF app], where name = name and meth = meth and action = action and req = data] app len
      request_identity(2) [OF app] Some by (simp add: LONG_MAX_def)
  with req obtain es' u where "parse_request_data ?h es s = (Ret (Some req, es'), u)"
    by (auto elim!: cbind_RetE)
  from yieldsD [OF parse_request_data_built this, of ?h] len show ?thesis by (simp add: built_def)
qed

theorem daemon_request_identity_witness:
  "\<exists>req data' t. parse_request ''sync'' ''http-get'' (Some [(HKStr (''appid'' @ [NUL]), ZLong 9)])
      (sample_state\<lparr>appid := 12, appname := Some ''alice''\<rparr>) = (Ret (Some req, data'), t)
    \<and> prefix (header_text ''sync'' ''http-get'' 12 ''alice'') req"
proof -
  let ?s = "sample_state\<lparr>appid := 12, appname := Some ''alice''\<rparr>"
  let ?run = "parse_request ''sync'' ''http-get'' (Some [(HKStr (''appid'' @ [NUL]), ZLong 9)]) ?s"
  have "case fst ?run of Ret (Some r, d) \<Rightarrow> True | _ \<Rightarrow> False" by code_simp
  then obtain req data' where "fst ?run = Ret (Some req, data')"
    by (auto split: outcome.splits option.splits)
  then have run: "?run = (Ret (Some req, data'), snd ?run)" by (metis prod.collapse)
  have "prefix (header_text ''sync'' ''http-get'' (appid ?s) ''alice'') req"
    by (rule daemon_request_identity [OF _ _ _ _ _ run])
       (simp_all add: header_text_def REQ_MAXLEN_def plain_field.field_def b64_field.field_def length_b64
          show_int_def show_nat.simps)
  with run show ?thesis by auto
qed

section \<open>The response\<close>

text \<open>What the code relies on of \<open>recv\<close>: it delivers at most as many bytes as it is asked for.\<close>

definition recv_ok :: "'w externals \<Rightarrow> bool" where
  "recv_ok E \<longleftrightarrow> (\<forall>sd n w. int (length (fst (x_recv E sd n w))) \<le> max 0 n)"

lemma recv_loop_bounded:
  assumes "recv_ok E" "int (length buf) \<le> RESPONSE_MAXLEN"
  shows "\<exists>buf' w. recv_loop E sd buf s = (Ret buf', s\<lparr>world := w\<rparr>) \<and> int (length buf') \<le> RESPONSE_MAXLEN"
  using assms
proof (induction E sd buf arbitrary: s rule: recv_loop.induct)
  case (1 E sd buf)
  let ?n = "RESPONSE_MAXLEN - int (length buf)"
  obtain chunk w where c: "x_recv E sd ?n (world s) = (chunk, w)" by fastforce
  have "int (length chunk) \<le> max 0 ?n"
    using "1.prems"(1) c unfolding recv_ok_def by (metis fst_conv)
  then have fits: "\<not> RESPONSE_MAXLEN < int (length buf + length chunk)" using "1.prems"(2) by simp
  show ?case
  proof (cases "chunk = []")
    case True
    with c "1.prems" show ?thesis by (subst recv_loop.simps) (auto simp: xcall_bind)
  next
    case False
    then have "recv_loop E sd buf s = recv_loop E sd (buf @ chunk) (s\<lparr>world := w\<rparr>)"
      using c fits by (subst recv_loop.simps) (simp add: xcall_bind)
    moreover have "int (length (buf @ chunk)) \<le> RESPONSE_MAXLEN" using fits by simp
    ultimately show ?thesis using "1.IH" [OF False fits "1.prems"(1), of "s\<lparr>world := w\<rparr>"] by fastforce
  qed
qed

text \<open>
  (C25) The exchange with the daemon always ends, by returning a response that fits the buffer of
  \<open>RESPONSE_MAXLEN\<close> bytes or by a fatal error (the daemon cannot be reached): the receiving loop
  never writes behind the buffer and never runs forever, however long the daemon talks.
\<close>

theorem daemon_response_bounded:
  assumes "recv_ok E"
  shows "(\<exists>r t. daemon_get_response E req s = (Ret r, t) \<and> int (length r) \<le> RESPONSE_MAXLEN)
    \<or> (\<exists>t. daemon_get_response E req s = (Bailout, t))"
proof (cases "x_gethostbyname E (world s) (daemon_hostname s)")
  case None
  then show ?thesis by (simp add: daemon_get_response_def)
next
  case (Some addr)
  obtain sd w where c: "x_connect E addr (daemon_port s mod 65536) (world s) = (sd, w)" by fastforce
  show ?thesis
  proof (cases sd)
    case None
    with Some c show ?thesis by (simp add: daemon_get_response_def xcall_bind)
  next
    case (Some d)
    let ?s = "s\<lparr>world := x_send E d req w\<rparr>"
    have "int (length []) \<le> RESPONSE_MAXLEN" by (simp add: RESPONSE_MAXLEN_def)
    from recv_loop_bounded [OF assms this, of d ?s] obtain buf w' where
      r: "recv_loop E d [] ?s = (Ret buf, ?s\<lparr>world := w'\<rparr>)" and len: "int (length buf) \<le> RESPONSE_MAXLEN" by blast
    have "int (length (takeWhile (\<lambda>c. c \<noteq> NUL) buf)) \<le> RESPONSE_MAXLEN"
      using len length_takeWhile_le [of "\<lambda>c. c \<noteq> NUL" buf] by linarith
    with Some c \<open>x_gethostbyname E (world s) (daemon_hostname s) = Some addr\<close> r show ?thesis
      by (simp add: daemon_get_response_def xcall_bind cbind_Ret [where m = "recv_loop E d []" and s = "?s", OF r])
         (simp add: cseq_def cbind_def cmodify_def)
  qed
qed

theorem daemon_response_bounded_witness:
  "(\<exists>r t. daemon_get_response sample_ext ''x'' sample_state = (Ret r, t) \<and> int (length r) \<le> RESPONSE_MAXLEN)
    \<or> (\<exists>t. daemon_get_response sample_ext ''x'' sample_state = (Bailout, t))"
  by (rule daemon_response_bounded) (simp add: recv_ok_def sample_ext_def)

section \<open>URLs\<close>

text \<open>What may precede an allowed host in a URL: a scheme of letters, then labels ending in a dot.\<close>

definition url_scheme_text :: "string \<Rightarrow> bool" where
  "url_scheme_text p \<longleftrightarrow> p = [] \<or> (\<exists>scheme. list_all ISLETTER scheme \<and> p = scheme @ ''://'')"

definition url_labels :: "string \<Rightarrow> bool" where
  "url_labels p \<longleftrightarrow> p = [] \<or> (\<exists>l. list_all (\<lambda>c. ISHOSTCHAR c \<or> c = CHR ''.'') l \<and> p = l @ ''.'')"

definition site_prefix :: "string \<Rightarrow> bool" where
  "site_prefix pre \<longleftrightarrow> (\<exists>a b. pre = a @ b \<and> url_scheme_text a \<and> url_labels b)"

lemma url_scheme_sound: "url_scheme r = Ret True \<Longrightarrow> url_scheme_text (rev r @ ''/'')"
  unfolding url_scheme_text_def url_scheme_def
  by (rule disjI2, rule exI [of _ "rev (drop 2 r)"]) (auto split: list.splits if_splits)

lemma url_subdomain_sound:
  "url_subdomain r = Ret True \<Longrightarrow>
     \<exists>a l. rev r = a @ l \<and> url_scheme_text a \<and> list_all (\<lambda>c. ISHOSTCHAR c \<or> c = CHR ''.'') l"
proof (induction r)
  case Nil
  then show ?case by (simp add: url_scheme_text_def)
next
  case (Cons c r)
  show ?case
  proof (cases "c = CHR ''/''")
    case True
    with Cons.prems url_scheme_sound [of r] show ?thesis by (intro exI [of _ "rev r @ ''/''"] exI [of _ "[]"]) simp
  next
    case False
    with Cons obtain a l where "rev r = a @ l" "url_scheme_text a" "list_all (\<lambda>c. ISHOSTCHAR c \<or> c = CHR ''.'') l"
      "ISHOSTCHAR c \<or> c = CHR ''.''" by (auto split: if_splits)
    then show ?thesis by (intro exI [of _ a] exI [of _ "l @ [c]"]) simp
  qed
qed

lemma url_match_sound: "url_match (rev pre) = Ret True \<Longrightarrow> site_prefix pre"
proof (cases pre rule: rev_cases)
  case Nil
  then show ?thesis by (simp add: site_prefix_def url_scheme_text_def url_labels_def)
next
  case (snoc p c)
  assume m: "url_match (rev pre) = Ret True"
  show ?thesis
  proof (cases "c = CHR ''/''")
    case True
    with m snoc have "url_scheme_text (rev (rev p) @ ''/'')" by (intro url_scheme_sound) (simp add: url_match_def)
    with True snoc show ?thesis
      unfolding site_prefix_def by (intro exI [of _ pre] exI [of _ "[]"]) (simp add: url_labels_def)
  next
    case False
    with m snoc have c: "c = CHR ''.''" "url_subdomain (rev p) = Ret True" by (auto simp: url_match_def split: if_splits)
    from url_subdomain_sound [OF c(2)] obtain a l where
      "p = a @ l" "url_scheme_text a" "list_all (\<lambda>c. ISHOSTCHAR c \<or> c = CHR ''.'') l" by auto
    with snoc c show ?thesis
      unfolding site_prefix_def by (intro exI [of _ a] exI [of _ "l @ ''.''"]) (auto simp: url_labels_def)
  qed
qed

lemma strstr_split: "strstr h n = Some i \<Longrightarrow> h = take i h @ n @ drop (i + length n) h"
proof -
  assume "strstr h n = Some i"
  then obtain r where "drop i h = n @ r" using strstr_Some prefix_def by metis
  moreover from this have "drop (i + length n) h = r" by (metis add.commute append_eq_conv_conj drop_drop)
  ultimately show ?thesis by (metis append_take_drop_id)
qed

lemma url_match_cases: "url_match r \<noteq> Bailout"
proof -
  have "url_scheme r \<noteq> Bailout" for r by (auto simp: url_scheme_def split: list.splits)
  moreover from this have "url_subdomain r \<noteq> Bailout" for r by (induction r) auto
  ultimately show ?thesis by (auto simp: url_match_def split: list.splits)
qed

lemma url_hosts_loop_sound:
  "url_hosts_loop url hosts = Ret b \<Longrightarrow>
     b \<and> (\<exists>host \<in> set (split_sep (CHR '','') hosts). \<exists>pre post. url = pre @ host @ post \<and> site_prefix pre)"
proof (induction url hosts rule: url_hosts_loop.induct)
  case (1 url hosts)
  define c where "c = strchrnul hosts (CHR '','')"
  have hd: "take c hosts \<in> set (split_sep (CHR '','') hosts)"
    unfolding c_def strchrnul_def by (subst split_sep.simps) (auto split: option.splits)
  have tl: "set (split_sep (CHR '','') (drop (Suc c) hosts)) \<subseteq> set (split_sep (CHR '','') hosts)" if "c < length hosts"
    using that unfolding c_def strchrnul_def by (subst (2) split_sep.simps) (auto split: option.splits)
  have nextD: ?case if "(if c < length hosts then url_hosts_loop url (drop (Suc c) hosts) else Undef) = Ret b"
  proof -
    from that have c: "c < length hosts" and r: "url_hosts_loop url (drop (Suc c) hosts) = Ret b"
      by (simp_all split: if_splits)
    from 1(1) [OF c_def c r] tl [OF c] show ?thesis by blast
  qed
  note step = "1.prems" [unfolded url_hosts_loop.simps [of url hosts] Let_def c_def [symmetric]]
  show ?case
  proof (cases "strstr url (take c hosts)")
    case None
    with step nextD show ?thesis by simp
  next
    case (Some i)
    show ?thesis
    proof (cases "url_match (rev (take i url))")
      case (Ret ok)
      show ?thesis
      proof (cases ok)
        case True
        with Ret have "site_prefix (take i url)" by (intro url_match_sound) simp
        moreover have "b" using step Some Ret True by simp
        ultimately show ?thesis using hd strstr_split [OF Some] by blast
      next
        case False
        with step Some Ret nextD show ?thesis by simp
      qed
    qed (use step Some url_match_cases in auto)
  qed
qed



end
