(* ===== verification/Message_Digest.thy ===== *)
theory Message_Digest
  imports PHP_Prelude
begin

text \<open>
  What the message digests of ext/standard share: bytes and 32-bit words, the hashing of a message
  block by block, the printing of a digest (ext/standard/md5.c, \<open>make_digest_ex\<close>), and the interface
  of an incremental digest: whatever the pieces in which a message arrives, the digest is that of the
  whole message.
\<close>

unbundle bit_operations_syntax

type_synonym byte = "8 word"
type_synonym uint32 = "32 word"

definition bytes_of :: "string \<Rightarrow> byte list" where
  "bytes_of s = map of_char s"

definition chars_of :: "byte list \<Rightarrow> string" where
  "chars_of bs = map (\<lambda>b. char_of (unat b)) bs"

text \<open>\<open>memcpy (& buf[i], src, len)\<close>.\<close>

definition write_at :: "nat \<Rightarrow> byte list \<Rightarrow> byte list \<Rightarrow> byte list" where
  "write_at i src buf = take i buf @ src @ drop (i + length src) buf"

definition hexits :: string where
  "hexits = ''0123456789abcdef''"

definition make_digest_ex :: "byte list \<Rightarrow> string" where
  "make_digest_ex digest = concat (map (\<lambda>d. [hexits ! unat (drop_bit 4 d), hexits ! unat (d AND 0x0F)]) digest)"

section \<open>Block by block\<close>

text \<open>The complete 64-byte blocks of a message, one after the other.\<close>

fun block_hash :: "('s \<Rightarrow> byte list \<Rightarrow> 's) \<Rightarrow> 's \<Rightarrow> byte list \<Rightarrow> 's" where
  "block_hash cf H m = (if length m < 64 then H else block_hash cf (cf H (take 64 m)) (drop 64 m))"

declare block_hash.simps [simp del]

lemma block_hash_short: "length m < 64 \<Longrightarrow> block_hash cf H m = H"
  by (simp add: block_hash.simps)

lemma block_hash_block: "length b = 64 \<Longrightarrow> block_hash cf H (b @ m) = block_hash cf (cf H b) m"
  by (simp add: block_hash.simps [of cf H "b @ m"])

lemma block_hash_append:
  "length a mod 64 = 0 \<Longrightarrow> block_hash cf H (a @ m) = block_hash cf (block_hash cf H a) m"
proof (induction cf H a rule: block_hash.induct)
  case (1 cf H a)
  show ?case
  proof (cases "length a < 64")
    case True
    with "1.prems" show ?thesis by (simp add: block_hash_short)
  next
    case False
    have "(length a - 64) mod 64 = 0" using False "1.prems" by (simp add: le_mod_geq [symmetric])
    then have "block_hash cf (cf H (take 64 a)) (drop 64 a @ m)
        = block_hash cf (block_hash cf (cf H (take 64 a)) (drop 64 a)) m"
      using "1.IH" [OF False] by simp
    moreover have "a @ m = take 64 a @ (drop 64 a @ m)" by (metis append.assoc append_take_drop_id)
    ultimately show ?thesis using False
      by (metis block_hash.simps block_hash_block length_take min.absorb2 not_le_imp_less order.order_iff_strict)
  qed
qed

text \<open>The incomplete last block.\<close>

definition block_rest :: "byte list \<Rightarrow> byte list" where
  "block_rest m = drop (64 * (length m div 64)) m"

lemma length_block_rest: "length (block_rest m) = length m mod 64"
  by (simp add: block_rest_def minus_mult_div_eq_mod)

lemma block_split:
  "block_hash cf H (m @ n) = block_hash cf (block_hash cf H m) (block_rest m @ n)"
proof -
  let ?a = "take (64 * (length m div 64)) m"
  have "64 * (length m div 64) \<le> length m" by simp
  then have l: "length ?a mod 64 = 0" by (simp add: min.absorb2)
  have m: "m = ?a @ block_rest m" by (simp add: block_rest_def)
  have "block_hash cf H m = block_hash cf H ?a"
    using block_hash_append [OF l, of cf H "block_rest m"] length_block_rest [of m]
    by (simp add: m [symmetric] block_hash_short)
  then show ?thesis
    using block_hash_append [OF l, of cf H "block_rest m @ n"] by (metis append.assoc m)
qed

lemma block_rest_append: "block_rest (m @ n) = block_rest (block_rest m @ n)"
proof -
  let ?q = "length m div 64"
  have "length m = 64 * ?q + length (block_rest m)" by (simp add: length_block_rest)
  then have "length (m @ n) = 64 * ?q + length (block_rest m @ n)" by simp
  then have d: "length (m @ n) div 64 = ?q + length (block_rest m @ n) div 64" by simp
  have m: "m @ n = take (64 * ?q) m @ (block_rest m @ n)" by (simp add: block_rest_def)
  have "length (take (64 * ?q) m) = 64 * ?q" by simp
  then have "drop (64 * (?q + k)) (m @ n) = drop (64 * k) (block_rest m @ n)" for k
    by (subst m) (simp add: distrib_left)
  then show ?thesis unfolding block_rest_def [of "m @ n"] d block_rest_def [of "block_rest m @ n"] by blast
qed

lemma block_rest_short: "length m < 64 \<Longrightarrow> block_rest m = m"
  by (simp add: block_rest_def)

lemma block_rest_block: "length b = 64 \<Longrightarrow> block_rest (b @ m) = block_rest m"
  using block_rest_append [of b m] by (simp add: block_rest_def [of b])

section \<open>Incremental digests\<close>

text \<open>
  \<open>holds c m\<close>: the context \<open>c\<close> has seen the message \<open>m\<close>; \<open>fits\<close>: what may be passed to one update.
\<close>

locale streaming_digest =
  fixes init :: 'c
    and update :: "'c \<Rightarrow> byte list \<Rightarrow> 'c"
    and final :: "'c \<Rightarrow> byte list"
    and digest :: "byte list \<Rightarrow> byte list"
    and holds :: "'c \<Rightarrow> byte list \<Rightarrow> bool"
    and fits :: "byte list \<Rightarrow> bool"
  assumes init_holds: "holds init []"
    and update_holds: "holds c m \<Longrightarrow> fits n \<Longrightarrow> holds (update c n) (m @ n)"
    and final_digest: "holds c m \<Longrightarrow> final c = digest m"
begin

lemma chunks_hold: "holds c m \<Longrightarrow> list_all fits ns \<Longrightarrow> holds (foldl update c ns) (m @ concat ns)"
proof (induction ns arbitrary: c m)
  case (Cons n ns)
  then have "holds (update c n) (m @ n)" by (simp add: update_holds)
  from Cons.IH [OF this] Cons.prems(2) show ?case by simp
qed simp

lemma digest_of_chunks: "list_all fits ns \<Longrightarrow> final (foldl update init ns) = digest (concat ns)"
  using chunks_hold [OF init_holds, of ns] final_digest by simp

end

section \<open>Numbers as bytes\<close>

lemma byte_of_nat_eq: "(of_nat a :: byte) = of_nat b \<longleftrightarrow> a mod 256 = b mod 256"
  by (simp add: word_of_nat_eq_iff take_bit_eq_mod)

lemma ucast_nat: "(ucast w :: 'b::len word) = of_nat (unat w)" for w :: "'a::len word"
  by simp

lemma word_or_plus: "x AND y = 0 \<Longrightarrow> x OR y = x + (y :: uint32)"
  by (simp add: disjunctive_add_eq_or)

lemma byte_drop_bit: "ucast (drop_bit k w) = (of_nat (unat w div 2 ^ k) :: byte)" for w :: uint32
  by (metis drop_bit_eq_div of_nat_unat unat_drop_bit_eq)

lemma byte_of_word32: "k \<le> 24 \<Longrightarrow> (of_nat (N mod 2 ^ 32 div 2 ^ k) :: byte) = of_nat (N div 2 ^ k)"
proof -
  assume k: "k \<le> 24"
  have "take_bit 8 (drop_bit k (take_bit 32 N)) = take_bit 8 (drop_bit k N)"
    using k by (simp add: drop_bit_take_bit)
  then show ?thesis
    by (simp only: word_of_nat_eq_iff drop_bit_eq_div take_bit_eq_mod) simp
qed

text \<open>The position in the buffer, from the bit counter.\<close>

lemma count_index: "unat (drop_bit 3 (of_nat (8 * L) :: uint32) AND 0x3F) = L mod 64"
proof -
  have "unat (of_nat (8 * L) :: uint32) = 8 * (L mod 2 ^ 29)"
    using mult_mod_right [of 8 L "2 ^ 29"] unat_of_nat [where ?'a = 32, of "8 * L"] by (simp del: of_nat_mult)
  then have d: "unat (drop_bit 3 (of_nat (8 * L) :: uint32)) = L mod 2 ^ 29"
    by (simp only: unat_drop_bit_eq) (simp add: drop_bit_eq_div)
  have "unat (x AND 0x3F) = unat x mod 64" for x :: uint32
    using take_bit_eq_mask [of 6 x] unsigned_take_bit_eq [where ?'a = nat, of 6 x]
    by (simp add: mask_eq_exp_minus_1 take_bit_eq_mod)
  from this [of "drop_bit 3 (of_nat (8 * L))"]
  have "unat (drop_bit 3 (of_nat (8 * L) :: uint32) AND 0x3F) = L mod 2 ^ 29 mod 64" unfolding d .
  also have "\<dots> = L mod 64" by (rule mod_mod_cancel) simp
  finally show ?thesis .
qed

end
