(* ===== verification/PHP_Sha1.thy ===== *)
theory PHP_Sha1
  imports Message_Digest
begin

text \<open>
  The SHA-1 message digest (ext/standard/sha1.c), which the blog extension uses for passwords: the
  context with its 64-byte buffer and bit counter, the transformation of one block, the
  incremental update and the finalisation. The transformation keeps the message schedule in a
  circular array of 16 words and permutes the names of the five registers instead of moving their
  contents. The digest is shown equal to the definition of FIPS 180 for every way of cutting the
  message into pieces. Bytes are \<open>8 word\<close>s; the length of a piece is below \<open>2 ^ 31\<close>, as PHP's
  string lengths are, so that the loop counter of the update cannot wrap around.
\<close>

unbundle bit_operations_syntax

section \<open>Operations\<close>

record PHP_SHA1_CTX =
  sha_state :: "uint32 list"
  sha_count0 :: uint32
  sha_count1 :: uint32
  sha_buffer :: "byte list"

definition sha1_PADDING :: "byte list" where
  "sha1_PADDING = 0x80 # replicate 63 0"

definition ROTATE_LEFT :: "uint32 \<Rightarrow> nat \<Rightarrow> uint32" where
  "ROTATE_LEFT x n = push_bit n x OR drop_bit (32 - n) x"

definition sha1_F :: "uint32 \<Rightarrow> uint32 \<Rightarrow> uint32 \<Rightarrow> uint32" where
  "sha1_F x y z = z XOR (x AND (y XOR z))"

definition sha1_G :: "uint32 \<Rightarrow> uint32 \<Rightarrow> uint32 \<Rightarrow> uint32" where
  "sha1_G x y z = x XOR y XOR z"

definition sha1_H :: "uint32 \<Rightarrow> uint32 \<Rightarrow> uint32 \<Rightarrow> uint32" where
  "sha1_H x y z = (x AND y) OR (z AND (x OR y))"

text \<open>
  One use of the macros \<open>FF\<close>, \<open>GG\<close>, \<open>HH\<close>, \<open>II\<close>, the \<open>i\<close>-th from 0 on. The registers are numbered
  \<open>a = 0\<close> to \<open>e = 4\<close>; the \<open>j\<close>-th argument of the \<open>i\<close>-th use is the register \<open>j - i\<close> modulo 5.
\<close>

definition sha1_reg :: "nat \<Rightarrow> nat \<Rightarrow> nat" where
  "sha1_reg i j = (j + 4 * i) mod 5"

definition sha1_macro ::
  "(uint32 \<Rightarrow> uint32 \<Rightarrow> uint32 \<Rightarrow> uint32) \<Rightarrow> uint32 \<Rightarrow> nat \<Rightarrow> uint32 \<Rightarrow> uint32 list \<Rightarrow> uint32 list" where
  "sha1_macro f k i w r =
     (let a = sha1_reg i 0; b = sha1_reg i 1; c = sha1_reg i 2; d = sha1_reg i 3; e = sha1_reg i 4;
          r = r[e := r ! e + (f (r ! b) (r ! c) (r ! d) + w + k)];
          r = r[e := r ! e + ROTATE_LEFT (r ! a) 5]
      in r[b := ROTATE_LEFT (r ! b) 30])"

text \<open>The argument \<open>w\<close>: \<open>x[i]\<close> in the first sixteen uses, then the macro \<open>W (i)\<close>.\<close>

definition sha1_W :: "nat \<Rightarrow> uint32 list \<Rightarrow> uint32 \<times> uint32 list" where
  "sha1_W i x =
     (if i < 16 then (x ! i, x)
      else
        (let tmp = x ! ((i - 3) mod 16) XOR x ! ((i - 8) mod 16) XOR x ! ((i - 14) mod 16) XOR x ! (i mod 16);
             v = ROTATE_LEFT tmp 1
         in (v, x[i mod 16 := v])))"

definition sha1_use :: "nat \<Rightarrow> uint32 list \<times> uint32 list \<Rightarrow> uint32 list \<times> uint32 list" where
  "sha1_use i = (\<lambda>(x, r).
     let (w, x) = sha1_W i x in
     (x, if i < 20 then sha1_macro sha1_F 0x5A827999 i w r
         else if i < 40 then sha1_macro sha1_G 0x6ED9EBA1 i w r
         else if i < 60 then sha1_macro sha1_H 0x8F1BBCDC i w r
         else sha1_macro sha1_G 0xCA62C1D6 i w r))"

fun SHA1Decode :: "byte list \<Rightarrow> uint32 list" where
  "SHA1Decode (b0 # b1 # b2 # b3 # rest) =
     (ucast b3 OR push_bit 8 (ucast b2) OR push_bit 16 (ucast b1) OR push_bit 24 (ucast b0)) # SHA1Decode rest"
| "SHA1Decode _ = []"

definition word_bytes :: "uint32 \<Rightarrow> byte list" where
  "word_bytes w = [ucast (drop_bit 24 w), ucast (drop_bit 16 w), ucast (drop_bit 8 w), ucast w]"

definition SHA1Encode :: "uint32 list \<Rightarrow> byte list" where
  "SHA1Encode ws = concat (map word_bytes ws)"

definition SHA1Transform :: "uint32 list \<Rightarrow> byte list \<Rightarrow> uint32 list" where
  "SHA1Transform state block =
     (let (x, r) = fold sha1_use [0..<80] (SHA1Decode block, state)
      in map2 (+) state r)"

definition PHP_SHA1Init :: PHP_SHA1_CTX where
  "PHP_SHA1Init =
     \<lparr>sha_state = [0x67452301, 0xefcdab89, 0x98badcfe, 0x10325476, 0xc3d2e1f0],
      sha_count0 = 0, sha_count1 = 0, sha_buffer = replicate 64 0\<rparr>"

function sha1_blocks :: "uint32 list \<Rightarrow> byte list \<Rightarrow> nat \<Rightarrow> uint32 list \<times> nat" where
  "sha1_blocks st input i =
     (if i + 63 < length input then sha1_blocks (SHA1Transform st (take 64 (drop i input))) input (i + 64)
      else (st, i))"
  by pat_completeness auto
termination
  by (relation "measure (\<lambda>(st, input, i). length input - i)") auto

declare sha1_blocks.simps [simp del]

definition PHP_SHA1Update :: "PHP_SHA1_CTX \<Rightarrow> byte list \<Rightarrow> PHP_SHA1_CTX" where
  "PHP_SHA1Update context input =
     (let n = (of_nat (length input) :: uint32);
          index = unat (drop_bit 3 (sha_count0 context) AND 0x3F);
          c0 = sha_count0 context + push_bit 3 n;
          c1 = (if c0 < push_bit 3 n then sha_count1 context + 1 else sha_count1 context) + drop_bit 29 n;
          partLen = 64 - index;
          context = context\<lparr>sha_count0 := c0, sha_count1 := c1\<rparr>
      in
      if partLen \<le> length input then
        (let buf = write_at index (take partLen input) (sha_buffer context);
             (st, i) = sha1_blocks (SHA1Transform (sha_state context) buf) input partLen
         in context\<lparr>sha_state := st, sha_buffer := write_at 0 (drop i input) buf\<rparr>)
      else context\<lparr>sha_buffer := write_at index input (sha_buffer context)\<rparr>)"

definition PHP_SHA1Final :: "PHP_SHA1_CTX \<Rightarrow> byte list" where
  "PHP_SHA1Final context =
     (let bits = word_bytes (sha_count1 context) @ word_bytes (sha_count0 context);
          index = unat (drop_bit 3 (sha_count0 context) AND 0x3f);
          padLen = (if index < 56 then 56 - index else 120 - index);
          context = PHP_SHA1Update context (take padLen sha1_PADDING);
          context = PHP_SHA1Update context bits
      in SHA1Encode (sha_state context))"

section \<open>FIPS 180\<close>

text \<open>The definition of the standard, used as the reference.\<close>

definition rotl :: "uint32 \<Rightarrow> nat \<Rightarrow> uint32" where
  "rotl x n = push_bit n x OR drop_bit (32 - n) x"

definition fips_f :: "nat \<Rightarrow> uint32 \<Rightarrow> uint32 \<Rightarrow> uint32 \<Rightarrow> uint32" where
  "fips_f t x y z =
     (if t < 20 then (x AND y) XOR (NOT x AND z)
      else if t < 40 then x XOR y XOR z
      else if t < 60 then (x AND y) XOR (x AND z) XOR (y AND z)
      else x XOR y XOR z)"

definition fips_K :: "nat \<Rightarrow> uint32" where
  "fips_K t =
     (if t < 20 then 0x5a827999 else if t < 40 then 0x6ed9eba1 else if t < 60 then 0x8f1bbcdc else 0xca62c1d6)"

fun fips_W :: "uint32 list \<Rightarrow> nat \<Rightarrow> uint32" where
  "fips_W M t =
     (if t < 16 then M ! t
      else rotl (fips_W M (t - 3) XOR fips_W M (t - 8) XOR fips_W M (t - 14) XOR fips_W M (t - 16)) 1)"

declare fips_W.simps [simp del]

definition fips_round :: "uint32 list \<Rightarrow> nat \<Rightarrow> uint32 list \<Rightarrow> uint32 list" where
  "fips_round M t r =
     [rotl (r ! 0) 5 + fips_f t (r ! 1) (r ! 2) (r ! 3) + r ! 4 + fips_K t + fips_W M t,
      r ! 0, rotl (r ! 1) 30, r ! 2, r ! 3]"

text \<open>Numbers are stored with the most significant byte first.\<close>

definition be_word :: "byte list \<Rightarrow> uint32" where
  "be_word bs = of_nat (foldl (\<lambda>n b. 256 * n + unat b) 0 bs)"

definition be_bytes :: "nat \<Rightarrow> nat \<Rightarrow> byte list" where
  "be_bytes k n = map (\<lambda>i. of_nat (n div 256 ^ (k - 1 - i))) [0..<k]"

definition fips_compress :: "uint32 list \<Rightarrow> byte list \<Rightarrow> uint32 list" where
  "fips_compress H block =
     (let M = map (\<lambda>i. be_word (take 4 (drop (4 * i) block))) [0..<16]
      in map2 (+) H (fold (fips_round M) [0..<80] H))"

definition fips_H0 :: "uint32 list" where
  "fips_H0 = [0x67452301, 0xefcdab89, 0x98badcfe, 0x10325476, 0xc3d2e1f0]"

definition fips_pad :: "byte list \<Rightarrow> byte list" where
  "fips_pad m =
     m @ 0x80 # replicate ((119 - length m mod 64) mod 64) 0 @ be_bytes 8 (8 * length m)"

definition fips_sha1 :: "byte list \<Rightarrow> byte list" where
  "fips_sha1 m =
     concat (map (\<lambda>w. be_bytes 4 (unat w))
       (block_hash fips_compress fips_H0 (fips_pad m)))"

section \<open>One block\<close>

lemma ROTATE_LEFT_rotl: "ROTATE_LEFT = rotl"
  by (simp add: fun_eq_iff ROTATE_LEFT_def rotl_def)

lemma sha1_F_fips: "t < 20 \<Longrightarrow> sha1_F = fips_f t"
  unfolding fun_eq_iff by (intro allI bit_word_eqI) (auto simp: sha1_F_def fips_f_def bit_simps)

lemma sha1_G_fips: "20 \<le> t \<Longrightarrow> t < 40 \<Longrightarrow> sha1_G = fips_f t" "60 \<le> t \<Longrightarrow> sha1_G = fips_f t"
  unfolding fun_eq_iff by (auto simp: sha1_G_def fips_f_def)

lemma sha1_H_fips: "40 \<le> t \<Longrightarrow> t < 60 \<Longrightarrow> sha1_H = fips_f t"
  unfolding fun_eq_iff by (intro allI bit_word_eqI) (auto simp: sha1_H_def fips_f_def bit_simps)

text \<open>The registers in the order of the macro's arguments at the \<open>i\<close>-th use.\<close>

definition sha1_view :: "nat \<Rightarrow> uint32 list \<Rightarrow> uint32 list" where
  "sha1_view i r = map (\<lambda>j. r ! sha1_reg i j) [0..<5]"

lemma sha1_reg_less [simp]: "sha1_reg i j < 5"
  by (simp add: sha1_reg_def)

lemma sha1_reg_inj: "j < 5 \<Longrightarrow> l < 5 \<Longrightarrow> sha1_reg i j = sha1_reg i l \<longleftrightarrow> j = l"
proof -
  assume jl: "j < 5" "l < 5"
  define m where "m = 4 * i mod 5"
  then have "m < 5" by simp
  with jl have "j \<in> {0, 1, 2, 3, 4}" "l \<in> {0, 1, 2, 3, 4}" "m \<in> {0, 1, 2, 3, 4}" by auto
  then have "(j + m) mod 5 = (l + m) mod 5 \<longleftrightarrow> j = l" by auto
  then show ?thesis unfolding sha1_reg_def m_def by (simp add: mod_simps)
qed

lemma sha1_reg_Suc: "sha1_reg (Suc i) 0 = sha1_reg i 4" "sha1_reg (Suc i) (Suc j) = sha1_reg i j"
  by (simp_all add: sha1_reg_def)

lemma sha1_macro_view:
  assumes "length r = 5"
  shows "sha1_view (Suc i) (sha1_macro f k i w r) =
    (let v = sha1_view i r in
     [v ! 4 + (f (v ! 1) (v ! 2) (v ! 3) + w + k) + ROTATE_LEFT (v ! 0) 5, v ! 0, ROTATE_LEFT (v ! 1) 30, v ! 2, v ! 3])"
    "length (sha1_macro f k i w r) = 5"
proof -
  have up: "[0..<5] = [0, 1, 2, 3, 4::nat]" by (simp add: upt_rec)
  have s: "sha1_reg (Suc i) 1 = sha1_reg i 0" "sha1_reg (Suc i) 2 = sha1_reg i 1" "sha1_reg (Suc i) 3 = sha1_reg i 2"
    "sha1_reg (Suc i) 4 = sha1_reg i 3"
    using sha1_reg_Suc(2) [of i 0] sha1_reg_Suc(2) [of i 1] sha1_reg_Suc(2) [of i 2] sha1_reg_Suc(2) [of i 3]
    by (simp_all add: eval_nat_numeral)
  have v: "sha1_view j q = [q ! sha1_reg j 0, q ! sha1_reg j 1, q ! sha1_reg j 2, q ! sha1_reg j 3, q ! sha1_reg j 4]" for j q
    by (simp add: sha1_view_def up)
  have n: "[a, b, c, d, e] ! 1 = b" "[a, b, c, d, e] ! 2 = c" "[a, b, c, d, e] ! 3 = d" "[a, b, c, d, e] ! 4 = e" for a b c d e :: uint32
    by simp_all
  show "sha1_view (Suc i) (sha1_macro f k i w r) =
    (let v = sha1_view i r in
     [v ! 4 + (f (v ! 1) (v ! 2) (v ! 3) + w + k) + ROTATE_LEFT (v ! 0) 5, v ! 0, ROTATE_LEFT (v ! 1) 30, v ! 2, v ! 3])"
    unfolding v s sha1_reg_Suc(1) Let_def n sha1_macro_def
    using assms by (simp add: nth_list_update sha1_reg_inj)
  show "length (sha1_macro f k i w r) = 5" using assms by (simp add: sha1_macro_def Let_def)
qed

text \<open>The circular array holds the last sixteen words of the schedule.\<close>

definition sched_ok :: "uint32 list \<Rightarrow> nat \<Rightarrow> uint32 list \<Rightarrow> bool" where
  "sched_ok M t x \<longleftrightarrow> length x = 16 \<and> (\<forall>s < max t 16. max t 16 \<le> s + 16 \<longrightarrow> x ! (s mod 16) = fips_W M s)"

lemma sched_ok_0: "length M = 16 \<Longrightarrow> sched_ok M 0 M"
  by (simp add: sched_ok_def fips_W.simps)

lemma sha1_W_sched:
  assumes "sched_ok M t x" "sha1_W t x = (w, x')"
  shows "w = fips_W M t" "sched_ok M (Suc t) x'"
proof -
  show "w = fips_W M t"
  proof (cases "t < 16")
    case True
    with assms show ?thesis by (auto simp: sched_ok_def sha1_W_def)
  next
    case False
    then have "x ! ((t - k) mod 16) = fips_W M (t - k)" if "0 < k" "k \<le> 16" for k
      using assms(1) that by (auto simp: sched_ok_def)
    from this [of 3] this [of 8] this [of 14] this [of 16] False assms(2) show ?thesis
      by (simp add: sha1_W_def Let_def fips_W.simps [of M t] ROTATE_LEFT_rotl le_mod_geq)
  qed
  then show "sched_ok M (Suc t) x'"
  proof (cases "t < 16")
    case True
    then have "max (Suc t) 16 = max t 16" by simp
    with True assms show ?thesis by (simp add: sched_ok_def sha1_W_def)
  next
    case False
    then have x': "x' = x[t mod 16 := w]" using assms(2) by (auto simp: sha1_W_def Let_def)
    have "s mod 16 \<noteq> t mod 16" if "s < t" "Suc t \<le> s + 16" for s :: nat
    proof
      assume "s mod 16 = t mod 16"
      then have "16 dvd t - s" using that(1) by (metis mod_eq_dvd_iff_nat nat_less_le)
      with that show False by (auto dest: dvd_imp_le)
    qed
    with False assms(1) \<open>w = fips_W M t\<close> show ?thesis
      unfolding x' sched_ok_def by (auto simp: nth_list_update less_Suc_eq) blast
  qed
qed

lemma fips_round_macro:
  assumes "length r = 5"
  shows "sha1_view (Suc t) (snd (sha1_use t (x, r))) =
    (let w = fst (sha1_W t x) in
     [rotl (sha1_view t r ! 0) 5 + fips_f t (sha1_view t r ! 1) (sha1_view t r ! 2) (sha1_view t r ! 3)
        + sha1_view t r ! 4 + fips_K t + w,
      sha1_view t r ! 0, rotl (sha1_view t r ! 1) 30, sha1_view t r ! 2, sha1_view t r ! 3])"
    "length (snd (sha1_use t (x, r))) = 5" "fst (sha1_use t (x, r)) = snd (sha1_W t x)"
proof -
  consider (F) "t < 20" | (G) "20 \<le> t" "t < 40" | (H) "40 \<le> t" "t < 60" | (I) "60 \<le> t" by linarith
  then show "sha1_view (Suc t) (snd (sha1_use t (x, r))) =
    (let w = fst (sha1_W t x) in
     [rotl (sha1_view t r ! 0) 5 + fips_f t (sha1_view t r ! 1) (sha1_view t r ! 2) (sha1_view t r ! 3)
        + sha1_view t r ! 4 + fips_K t + w,
      sha1_view t r ! 0, rotl (sha1_view t r ! 1) 30, sha1_view t r ! 2, sha1_view t r ! 3])"
    by cases
       (simp_all add: sha1_use_def split_beta sha1_macro_view(1) [OF assms] sha1_F_fips sha1_G_fips sha1_H_fips
          fips_K_def ROTATE_LEFT_rotl Let_def ac_simps)
qed (simp_all add: sha1_use_def split_beta sha1_macro_view(2) [OF assms])

lemma sha1_rounds:
  assumes "length M = 16" "length H = 5"
  shows "sched_ok M t (fst (fold sha1_use [0..<t] (M, H))) \<and> length (snd (fold sha1_use [0..<t] (M, H))) = 5
    \<and> sha1_view t (snd (fold sha1_use [0..<t] (M, H))) = fold (fips_round M) [0..<t] H"
proof (induction t)
  case 0
  have "[0..<5] = [0, 1, 2, 3, 4::nat]" by (simp add: upt_rec)
  moreover have "H = map (\<lambda>j. H ! j) [0..<5]" using assms(2) by (metis map_nth)
  ultimately show ?case using assms by (simp add: sched_ok_0 sha1_view_def sha1_reg_def)
next
  case (Suc t)
  obtain x r where xr: "fold sha1_use [0..<t] (M, H) = (x, r)" by fastforce
  obtain w x' where w: "sha1_W t x = (w, x')" by fastforce
  have IH: "sched_ok M t x" "length r = 5" "sha1_view t r = fold (fips_round M) [0..<t] H" using Suc xr by simp_all
  show ?case
    using sha1_W_sched [OF IH(1) w] fips_round_macro [OF IH(2), of t x] IH(3) w xr
    by (simp add: fips_round_def [of M t] Let_def)
qed

lemma length_fips_rounds: "length H = 5 \<Longrightarrow> length (fold (fips_round M) [0..<t] H) = 5"
  by (induction t) (simp_all add: fips_round_def)

lemma sha1_view_80: "length r = 5 \<Longrightarrow> sha1_view 80 r = r"
proof -
  assume "length r = 5"
  then have "r = map (\<lambda>j. r ! j) [0..<5]" by (metis map_nth)
  moreover have "sha1_reg 80 j = j mod 5" for j
    using mod_mult_self2 [of j 5 64] by (simp add: sha1_reg_def)
  then have "sha1_view 80 r = map (\<lambda>j. r ! j) [0..<5]" by (simp add: sha1_view_def)
  ultimately show ?thesis by simp
qed

text \<open>The sixteen words of a block.\<close>

lemma be_word_4:
  "ucast b3 OR push_bit 8 (ucast b2) OR push_bit 16 (ucast b1) OR push_bit 24 (ucast b0) = be_word [b0, b1, b2, b3]"
proof -
  have b: "ucast b = (of_nat (unat b) :: uint32)" for b :: byte by simp
  have e: "be_word [b0, b1, b2, b3] = ((of_nat (unat b0) * 256 + of_nat (unat b1)) * 256 + of_nat (unat b2)) * 256 + of_nat (unat b3)"
    by (simp add: be_word_def algebra_simps)
  have s: "push_bit 8 x = x * 256" "push_bit 16 x = x * 65536" "push_bit 24 x = x * 16777216" for x :: uint32
    by (simp_all add: push_bit_eq_mult)
  have d1: "push_bit 16 (ucast b1) AND push_bit 24 (ucast b0) = (0 :: uint32)"
    by (rule bit_word_eqI) (auto simp: bit_simps dest: bit_imp_le_length)
  have d2: "push_bit 8 (ucast b2) AND (push_bit 16 (ucast b1) OR push_bit 24 (ucast b0)) = (0 :: uint32)"
    by (rule bit_word_eqI) (auto simp: bit_simps dest: bit_imp_le_length)
  have d3: "ucast b3 AND (push_bit 8 (ucast b2) OR push_bit 16 (ucast b1) OR push_bit 24 (ucast b0)) = (0 :: uint32)"
    by (rule bit_word_eqI) (auto simp: bit_simps dest: bit_imp_le_length)
  have "ucast b3 OR push_bit 8 (ucast b2) OR push_bit 16 (ucast b1) OR push_bit 24 (ucast b0)
      = ucast b3 + (push_bit 8 (ucast b2) + (push_bit 16 (ucast b1) + push_bit 24 (ucast b0 :: uint32)))"
    by (simp only: word_or_plus [OF d3]) (simp only: word_or_plus [OF d2], simp only: word_or_plus [OF d1])
  then show ?thesis unfolding s e b by (simp add: algebra_simps)
qed

lemma SHA1Decode_words:
  "length block = 4 * k \<Longrightarrow> SHA1Decode block = map (\<lambda>i. be_word (take 4 (drop (4 * i) block))) [0..<k]"
proof (induction k arbitrary: block)
  case 0
  then show ?case by simp
next
  case (Suc k)
  obtain b0 b1 b2 b3 r where block: "block = b0 # b1 # b2 # b3 # r"
    using Suc.prems by (auto simp: length_Suc_conv numeral_eq_Suc)
  have "SHA1Decode r = map (\<lambda>i. be_word (take 4 (drop (4 * i) r))) [0..<k]" using Suc block by simp
  moreover have "[0..<Suc k] = 0 # map Suc [0..<k]" by (simp add: map_Suc_upt upt_conv_Cons del: upt_Suc)
  ultimately show ?case
    unfolding block SHA1Decode.simps be_word_4 by (simp add: numeral_eq_Suc del: upt_Suc)
qed

lemma SHA1Transform_fips: "length H = 5 \<Longrightarrow> length block = 64 \<Longrightarrow> SHA1Transform H block = fips_compress H block"
proof -
  assume H: "length H = 5" and "length block = 64"
  then have M: "SHA1Decode block = map (\<lambda>i. be_word (take 4 (drop (4 * i) block))) [0..<16]"
    by (intro SHA1Decode_words) simp
  let ?M = "SHA1Decode block"
  have "length ?M = 16" by (simp add: M)
  from sha1_rounds [OF this H, of 80] have "snd (fold sha1_use [0..<80] (?M, H)) = fold (fips_round ?M) [0..<80] H"
    using sha1_view_80 by metis
  then show ?thesis by (simp add: SHA1Transform_def fips_compress_def Let_def split_beta M)
qed

lemma length_fips_compress: "length H = 5 \<Longrightarrow> length (fips_compress H block) = 5"
  by (simp add: fips_compress_def Let_def length_fips_rounds)

section \<open>Incremental hashing\<close>

lemma length_block_hash_fips: "length H = 5 \<Longrightarrow> length (block_hash fips_compress H m) = 5"
proof (induction m arbitrary: H rule: measure_induct_rule [of length])
  case (less m)
  show ?case
  proof (cases "length m < 64")
    case True
    with less.prems show ?thesis by (simp add: block_hash_short)
  next
    case False
    then have "length (drop 64 m) < length m" by simp
    from less.IH [OF this length_fips_compress [OF less.prems]] False show ?thesis
      unfolding block_hash.simps [of fips_compress H m] by simp
  qed
qed

lemma sha1_blocks_fips:
  assumes "length st = 5" "i \<le> length input"
  shows "sha1_blocks st input i
    = (block_hash fips_compress st (drop i input), i + 64 * ((length input - i) div 64))"
  using assms
proof (induction st input i rule: sha1_blocks.induct)
  case (1 st input i)
  show ?case
  proof (cases "i + 63 < length input")
    case True
    let ?st = "SHA1Transform st (take 64 (drop i input))"
    have c: "?st = fips_compress st (take 64 (drop i input))"
      using True "1.prems" by (intro SHA1Transform_fips) simp_all
    have st5: "length ?st = 5" unfolding c using "1.prems" by (intro length_fips_compress) simp
    have a: "sha1_blocks ?st input (i + 64)
        = (block_hash fips_compress ?st (drop (i + 64) input), i + 64 + 64 * ((length input - (i + 64)) div 64))"
      by (rule "1.IH" [OF True st5]) (use True in simp)
    have b: "block_hash fips_compress st (drop i input) = block_hash fips_compress ?st (drop (i + 64) input)"
    proof -
      have d: "drop i input = take 64 (drop i input) @ drop (i + 64) input" by (metis add.commute append_take_drop_id drop_drop)
      have "length (take 64 (drop i input)) = 64" using True by simp
      from block_hash_block [OF this, of fips_compress st "drop (i + 64) input"] show ?thesis unfolding c d [symmetric] .
    qed
    have cc: "(length input - i) div 64 = Suc ((length input - (i + 64)) div 64)"
    proof -
      have "(64 + x) div 64 = Suc (x div 64)" for x :: nat by simp
      moreover have "length input - i = 64 + (length input - (i + 64))" using True by simp
      ultimately show ?thesis by metis
    qed
    show ?thesis using True unfolding sha1_blocks.simps [of st] b cc by (simp add: a)
  next
    case False
    then have "length input - i < 64" by simp
    with False show ?thesis unfolding sha1_blocks.simps [of st] by (simp add: block_hash_short)
  qed
qed

text \<open>The context after the bytes of \<open>m\<close>: the bit counter, the state and the incomplete last block.\<close>

definition sha1_holds :: "PHP_SHA1_CTX \<Rightarrow> byte list \<Rightarrow> bool" where
  "sha1_holds c m \<longleftrightarrow>
     sha_count0 c = of_nat (8 * length m) \<and> sha_count1 c = of_nat (8 * length m div 2 ^ 32)
     \<and> sha_state c = block_hash fips_compress fips_H0 m
     \<and> length (sha_buffer c) = 64 \<and> take (length m mod 64) (sha_buffer c) = block_rest m"

lemma sha1_init_holds: "sha1_holds PHP_SHA1Init []"
  by (simp add: sha1_holds_def PHP_SHA1Init_def block_hash_short fips_H0_def block_rest_def)

lemma bit_count_carry:
  assumes "n < 2 ^ 32"
  shows "(if (of_nat (8 * L) + push_bit 3 (of_nat n) :: uint32) < push_bit 3 (of_nat n)
          then of_nat (8 * L div 2 ^ 32) + 1 else of_nat (8 * L div 2 ^ 32)) + drop_bit 29 (of_nat n)
    = (of_nat (8 * (L + n) div 2 ^ 32) :: uint32)"
proof -
  define M :: nat where "M = 2 ^ 32"
  define A B where "A = 8 * L" and "B = 8 * n"
  have M: "0 < M" by (simp add: M_def)
  have p: "push_bit 3 (of_nat n :: uint32) = of_nat B" by (simp add: B_def push_bit_eq_mult)
  have d: "drop_bit 29 (of_nat n :: uint32) = of_nat (B div M)"
  proof (rule word_unat_eq_iff [THEN iffD2])
    have "unat (drop_bit 29 (of_nat n :: uint32)) = n div 2 ^ 29"
      using assms by (simp only: unat_drop_bit_eq) (simp add: unat_of_nat drop_bit_eq_div)
    moreover have "B div M = n div 2 ^ 29" by (simp add: B_def M_def)
    moreover have "n div 2 ^ 29 < 2 ^ 32" using assms by (simp add: div_less_dividend less_mult_imp_div_less)
    ultimately show "unat (drop_bit 29 (of_nat n :: uint32)) = unat (of_nat (B div M) :: uint32)"
      by (simp add: unat_of_nat)
  qed
  have "(of_nat A + of_nat B :: uint32) < of_nat B \<longleftrightarrow> (A + B) mod M < B mod M"
    by (simp only: of_nat_add [symmetric] word_less_nat_alt unat_of_nat) (simp add: M_def)
  also have "\<dots> \<longleftrightarrow> M \<le> A mod M + B mod M"
  proof -
    have "(A + B) mod M = (A mod M + B mod M) mod M" by (simp add: mod_simps)
    moreover have "(x + y) mod M < y \<longleftrightarrow> M \<le> x + y" if "x < M" "y < M" for x y
      using that by (cases "M \<le> x + y") (auto simp: le_mod_geq)
    ultimately show ?thesis using M by simp
  qed
  finally have lt: "(of_nat A + of_nat B :: uint32) < of_nat B \<longleftrightarrow> M \<le> A mod M + B mod M" .
  have "(A mod M + B mod M) div M = (if M \<le> A mod M + B mod M then 1 else 0)"
  proof -
    have "A mod M < M" "B mod M < M" using M by simp_all
    then have "A mod M + B mod M < 2 * M" by linarith
    then show ?thesis using M by (auto simp: div_nat_eqI)
  qed
  then have "(A + B) div M = A div M + B div M + (if M \<le> A mod M + B mod M then 1 else 0)"
    using div_add1_eq [of A B M] by simp
  moreover have "8 * (L + n) = A + B" by (simp add: A_def B_def)
  ultimately show ?thesis
    unfolding p d A_def [symmetric] M_def [symmetric] lt by simp
qed

lemma length_write_at: "i + length src \<le> length buf \<Longrightarrow> length (write_at i src buf) = length buf"
  by (simp add: write_at_def)

lemma sha1_update_holds:
  assumes h: "sha1_holds c m" and n: "length inp < 2 ^ 31"
  shows "sha1_holds (PHP_SHA1Update c inp) (m @ inp)"
proof -
  let ?idx = "length m mod 64" and ?part = "64 - length m mod 64"
  have ix: "?idx < 64" by simp
  have buf: "length (sha_buffer c) = 64" "take ?idx (sha_buffer c) = block_rest m"
    and st: "sha_state c = block_hash fips_compress fips_H0 m"
    and cnt: "sha_count0 c = of_nat (8 * length m)" "sha_count1 c = of_nat (8 * length m div 2 ^ 32)"
    using h by (simp_all add: sha1_holds_def)
  have index: "unat (drop_bit 3 (sha_count0 c) AND 0x3F) = ?idx" unfolding cnt by (rule count_index)
  have c0: "sha_count0 c + push_bit 3 (of_nat (length inp)) = of_nat (8 * length (m @ inp))"
    by (simp add: cnt push_bit_eq_mult distrib_left)
  have c1: "(if sha_count0 c + push_bit 3 (of_nat (length inp)) < push_bit 3 (of_nat (length inp))
      then sha_count1 c + 1 else sha_count1 c) + drop_bit 29 (of_nat (length inp))
      = of_nat (8 * length (m @ inp) div 2 ^ 32)"
    using bit_count_carry [of "length inp" "length m"] n unfolding cnt by simp
  have H5: "length (block_hash fips_compress fips_H0 m) = 5"
    by (rule length_block_hash_fips) (simp add: fips_H0_def)
  have split: "block_hash fips_compress fips_H0 (m @ inp)
      = block_hash fips_compress (block_hash fips_compress fips_H0 m) (block_rest m @ inp)" by (rule block_split)
  show ?thesis
  proof (cases "?part \<le> length inp")
    case True
    let ?b = "block_rest m @ take ?part inp" and ?r = "drop ?part inp"
    let ?k = "?part + 64 * ((length inp - ?part) div 64)"
    have len_b: "length ?b = 64" using True ix by (simp add: length_block_rest)
    have wb: "write_at ?idx (take ?part inp) (sha_buffer c) = ?b"
      using True ix buf by (simp add: write_at_def)
    have app: "block_rest m @ inp = ?b @ ?r" by simp
    let ?st = "fips_compress (block_hash fips_compress fips_H0 m) ?b"
    have t: "SHA1Transform (sha_state c) ?b = ?st" unfolding st by (rule SHA1Transform_fips [OF H5 len_b])
    have "sha1_blocks ?st inp ?part = (block_hash fips_compress ?st ?r, ?k)"
      using True length_fips_compress [OF H5] by (rule sha1_blocks_fips [rotated])
    moreover have "block_hash fips_compress ?st ?r = block_hash fips_compress fips_H0 (m @ inp)"
      unfolding split app block_hash_block [OF len_b] ..
    ultimately have bl: "sha1_blocks ?st inp ?part = (block_hash fips_compress fips_H0 (m @ inp), ?k)" by simp
    have rest: "block_rest (m @ inp) = drop ?k inp"
      unfolding block_rest_append [of m] app block_rest_block [OF len_b] by (simp add: block_rest_def add.commute)
    have lr: "length (drop ?k inp) = length (m @ inp) mod 64"
      using length_block_rest [of "m @ inp"] unfolding rest .
    have "length (drop ?k inp) < 64" unfolding lr by simp
    then have "0 + length (drop ?k inp) \<le> length ?b" unfolding len_b by linarith
    from length_write_at [OF this] len_b have lw: "length (write_at 0 (drop ?k inp) ?b) = 64" by simp
    have tw: "take (length (m @ inp) mod 64) (write_at 0 (drop ?k inp) ?b) = block_rest (m @ inp)"
      unfolding lr [symmetric] rest write_at_def by simp
    have "PHP_SHA1Update c inp = c\<lparr>sha_count0 := of_nat (8 * length (m @ inp)),
        sha_count1 := of_nat (8 * length (m @ inp) div 2 ^ 32),
        sha_state := block_hash fips_compress fips_H0 (m @ inp), sha_buffer := write_at 0 (drop ?k inp) ?b\<rparr>"
      unfolding PHP_SHA1Update_def Let_def index c0 c1 [unfolded c0] using True by (simp add: wb t bl)
    then show ?thesis unfolding sha1_holds_def using lw tw by simp
  next
    case False
    have short: "length (block_rest m @ inp) < 64" using False ix by (simp add: length_block_rest)
    have rest: "block_rest (m @ inp) = block_rest m @ inp"
      unfolding block_rest_append [of m] by (rule block_rest_short [OF short])
    have "length (m @ inp) mod 64 = length (block_rest m @ inp)"
      using length_block_rest [of "m @ inp"] rest by simp
    moreover have "write_at ?idx inp (sha_buffer c) = (block_rest m @ inp) @ drop (?idx + length inp) (sha_buffer c)"
      by (simp add: write_at_def buf)
    moreover have "length (write_at ?idx inp (sha_buffer c)) = 64"
      using short buf by (subst length_write_at) (auto simp: length_block_rest)
    ultimately have tw: "take (length (m @ inp) mod 64) (write_at ?idx inp (sha_buffer c)) = block_rest (m @ inp)"
      and lw: "length (write_at ?idx inp (sha_buffer c)) = 64"
      unfolding rest by (metis append_eq_conv_conj, simp)
    have "PHP_SHA1Update c inp = c\<lparr>sha_count0 := of_nat (8 * length (m @ inp)),
        sha_count1 := of_nat (8 * length (m @ inp) div 2 ^ 32), sha_buffer := write_at ?idx inp (sha_buffer c)\<rparr>"
      unfolding PHP_SHA1Update_def Let_def index c0 c1 [unfolded c0] using False by simp
    moreover have "block_hash fips_compress fips_H0 (m @ inp) = sha_state c"
      unfolding split st by (rule block_hash_short [OF short])
    ultimately show ?thesis unfolding sha1_holds_def using lw tw by simp
  qed
qed

section \<open>Finalisation\<close>

lemma be_bytes_4: "be_bytes 4 n = map (\<lambda>k. of_nat (n div 2 ^ k)) [24, 16, 8, 0]"
proof -
  have "[0..<4] = [0, 1, 2, 3::nat]" by (simp add: upt_rec)
  then show ?thesis by (simp add: be_bytes_def)
qed

lemma word_bytes_be: "word_bytes w = be_bytes 4 (unat w)"
proof -
  have "ucast w = (of_nat (unat w) :: byte)" by simp
  then show ?thesis unfolding word_bytes_def be_bytes_4 byte_drop_bit by simp
qed

lemma be_bytes_8: "word_bytes (of_nat (N div 2 ^ 32)) @ word_bytes (of_nat N) = be_bytes 8 N"
proof -
  have w: "word_bytes (of_nat X) = map (\<lambda>k. of_nat (X div 2 ^ k)) [24, 16, 8, 0]" for X
    unfolding word_bytes_be be_bytes_4 unat_of_nat 
    using byte_of_word32 [of 24 X] byte_of_word32 [of 16 X] byte_of_word32 [of 8 X] byte_of_word32 [of 0 X] by simp
  have u: "[0..<8] = [0, 1, 2, 3, 4, 5, 6, 7::nat]" by (simp add: upt_rec)
  show ?thesis unfolding w be_bytes_def u by (simp add: div_mult2_eq [symmetric])
qed

lemma sha1_padding:
  assumes "i < 64"
  shows "take (if i < 56 then 56 - i else 120 - i) sha1_PADDING = 0x80 # replicate ((119 - i) mod 64) 0"
proof (cases "i < 56")
  case True
  then have "(119 - i) mod 64 = 55 - i" by (subst le_mod_geq) auto
  moreover obtain k where "56 - i = Suc k" "k = 55 - i" using True by (cases "56 - i") auto
  ultimately show ?thesis using True by (simp add: sha1_PADDING_def)
next
  case False
  then have "(119 - i) mod 64 = 119 - i" by simp
  moreover obtain k where "120 - i = Suc k" "k = 119 - i" using assms by (cases "120 - i") auto
  moreover have "min (119 - i) 63 = 119 - i" using False by simp
  ultimately show ?thesis using False by (simp add: sha1_PADDING_def)
qed

lemma sha1_final_digest:
  assumes h: "sha1_holds c m"
  shows "PHP_SHA1Final c = fips_sha1 m"
proof -
  let ?i = "length m mod 64"
  have i: "unat (drop_bit 3 (sha_count0 c) AND 0x3f) = ?i"
    using h count_index [of "length m"] by (simp add: sha1_holds_def)
  let ?p = "take (if ?i < 56 then 56 - ?i else 120 - ?i) sha1_PADDING"
  have p: "?p = 0x80 # replicate ((119 - ?i) mod 64) 0" by (rule sha1_padding) simp
  have bits: "word_bytes (sha_count1 c) @ word_bytes (sha_count0 c) = be_bytes 8 (8 * length m)"
    using h be_bytes_8 [of "8 * length m"] by (simp add: sha1_holds_def)
  have lp: "length ?p < 2 ^ 31" by (simp add: sha1_PADDING_def)
  have lb: "length (be_bytes 8 (8 * length m)) < 2 ^ 31" by (simp add: be_bytes_def)
  have "sha1_holds (PHP_SHA1Update (PHP_SHA1Update c ?p) (be_bytes 8 (8 * length m))) ((m @ ?p) @ be_bytes 8 (8 * length m))"
    by (intro sha1_update_holds h lp lb)
  moreover have "(m @ ?p) @ be_bytes 8 (8 * length m) = fips_pad m" unfolding p fips_pad_def by simp
  ultimately have "sha_state (PHP_SHA1Update (PHP_SHA1Update c ?p) (be_bytes 8 (8 * length m)))
      = block_hash fips_compress fips_H0 (fips_pad m)" by (simp add: sha1_holds_def)
  then show ?thesis
    unfolding PHP_SHA1Final_def Let_def i bits fips_sha1_def SHA1Encode_def
    by (simp add: word_bytes_be [abs_def])
qed

interpretation sha1: streaming_digest PHP_SHA1Init PHP_SHA1Update PHP_SHA1Final fips_sha1 sha1_holds "\<lambda>n. length n < 2 ^ 31"
  by unfold_locales (simp_all add: sha1_init_holds sha1_update_holds sha1_final_digest)

text \<open>
  (C28) The SHA-1 code computes SHA-1: whatever the pieces in which a message is given to
  \<open>PHP_SHA1Update\<close> (each shorter than \<open>2 ^ 31\<close> bytes), \<open>PHP_SHA1Final\<close> yields the digest FIPS 180
  defines for the whole message.
\<close>

theorem sha1_fips:
  "list_all (\<lambda>n. length n < 2 ^ 31) ns \<Longrightarrow>
    PHP_SHA1Final (foldl PHP_SHA1Update PHP_SHA1Init ns) = fips_sha1 (concat ns)"
  by (rule sha1.digest_of_chunks)

theorem sha1_fips_witness:
  "PHP_SHA1Final (PHP_SHA1Update (PHP_SHA1Update PHP_SHA1Init [97, 98]) [99]) = fips_sha1 [97, 98, 99]"
  using sha1_fips [of "[[97, 98], [99]]"] by simp

end
