(* ===== verification/Blog_Ext.thy ===== *)
theory Blog_Ext
  imports Zend_Value PHP_Sha1 Sandbox_Correct
begin

text \<open>
  The blog extension (ext/blog/blog.c): functions of a privileged script that register
  applications, switch them on and off and look them up in the administration database, and the
  generator of random strings. The string arguments of a PHP function reach the code as C strings.
\<close>

section \<open>Operations\<close>

definition c_string :: "string \<Rightarrow> string" where
  "c_string s = takeWhile (\<lambda>c. c \<noteq> NUL) s"

definition SHA1_LENGTH :: int where
  "SHA1_LENGTH = 40"

text \<open>\<open>rand ()\<close> returns a non-negative \<open>int\<close>.\<close>

definition random_char :: "int \<Rightarrow> char" where
  "random_char r =
     (let t = r mod 62 in
      if t < 10 then char_of (48 + t)
      else if t < 36 then char_of (65 + t - 10)
      else char_of (97 + t - 36))"

fun random_chars :: "'w externals \<Rightarrow> nat \<Rightarrow> ('w, string) php" where
  "random_chars E 0 = cret []"
| "random_chars E (Suc n) =
     cbind (xcall (x_rand E)) (\<lambda>r. cbind (random_chars E n) (\<lambda>pass. cret (random_char r # pass)))"

text \<open>
  For a negative length there is no buffer into which \<open>pass[length]\<close> could be written, and for
  \<open>INT_MAX\<close> the sum \<open>length + 1\<close> overflows.
\<close>

definition random_str_gen :: "'w externals \<Rightarrow> int \<Rightarrow> ('w, string) php" where
  "random_str_gen E len = (if len < 0 \<or> len = 2147483647 then cundef else random_chars E (nat len))"

definition do_sha1 :: "string \<Rightarrow> string" where
  "do_sha1 str = make_digest_ex (PHP_SHA1Final (PHP_SHA1Update PHP_SHA1Init (bytes_of str)))"

definition bad_parameters :: "zval \<Rightarrow> ('w, zval) php" where
  "bad_parameters r = cseq (php_error_docref E_WARNING ''bad parameters'') (cret r)"

definition fail_null :: "string \<Rightarrow> ('w, zval) php" where
  "fail_null msg = cseq (php_error_docref E_WARNING msg) (cret ZNull)"

text \<open>\<open>add_assoc_string (return_value, key, row[i], 1)\<close>: a null column is given to \<open>strlen\<close>.\<close>

fun assoc_columns :: "row \<Rightarrow> nat \<Rightarrow> string list \<Rightarrow> entries \<Rightarrow> ('w, entries) php" where
  "assoc_columns r i [] es = cret es"
| "assoc_columns r i (k # ks) es =
     cbind (column r i) (\<lambda>c. cbind (deref c) (\<lambda>v. assoc_columns r (Suc i) ks (add_assoc_string es k v)))"

definition fn_get_appinfo :: "'w externals \<Rightarrow> int option \<Rightarrow> ('w, zval) php" where
  "fn_get_appinfo E arg =
     assert_privilege (get_appid_param arg (\<lambda>app.
       cbind (clift (ltostr app)) (\<lambda>v.
       cbind (admindb_fetch_row E ''appinfo'' ''id'' v) (\<lambda>r.
         case r of
           None \<Rightarrow> fail_null (vsprintf ''appid %d not found'' [FInt app])
         | Some r \<Rightarrow>
             cbind (assoc_columns r 0 [''id'', ''appname'', ''username'', ''email'', ''password'', ''salt'', ''token'',
                ''isactive'', ''register_time''] []) (\<lambda>es. cret (ZArray es))))))"

text \<open>The rows of the new application, after the checks.\<close>

definition appinfo_fields ::
  "string \<Rightarrow> string \<Rightarrow> string \<Rightarrow> string \<Rightarrow> string \<Rightarrow> string \<Rightarrow> string \<Rightarrow> (string \<times> string) list" where
  "appinfo_fields app username email salted_pass salt token register_time =
     [(''appname'', app), (''username'', username), (''email'', email), (''password'', salted_pass),
      (''salt'', salt), (''token'', token), (''isactive'', ''0''), (''register_time'', register_time)]"

definition create_userdb :: "'w externals \<Rightarrow> int \<Rightarrow> ('w, zval) php" where
  "create_userdb E app =
     cbind (cget userdb_prefix) (\<lambda>prefix.
     cbind (clift (new_sprintf ''%s%d'' [FStr prefix, FInt app])) (\<lambda>dbname.
     cbind (random_str_gen E SHA1_LENGTH) (\<lambda>dbpass.
     cbind (clift (ltostr app)) (\<lambda>app_str.
     cbind (admindb_insert_row E ''dbconf''
              [(''id'', app_str), (''hostname'', ''localhost''), (''username'', dbname), (''password'', dbpass),
               (''dbname'', dbname)]) (\<lambda>r.
       if r = FAILURE then fail_null ''failed to save dbconf''
       else cbind (create_database E dbname) (\<lambda>r.
       if r = FAILURE then fail_null ''failed to create database''
       else cbind (grant_db_privilege E dbname ''localhost'' dbname dbpass) (\<lambda>r.
       if r = FAILURE then fail_null ''failed to grant db privilege''
       else cbind (php_connect_userdb E app) (\<lambda>r.
       if r = FAILURE then fail_null ''failed to connect to user database''
       else cret (ZLong app)))))))))"

definition register_app :: "'w externals \<Rightarrow> string \<Rightarrow> string \<Rightarrow> string \<Rightarrow> string \<Rightarrow> ('w, zval) php" where
  "register_app E app username email password =
     cbind (random_str_gen E SHA1_LENGTH) (\<lambda>salt.
     cbind (clift (new_sprintf (''%s'' @ [CHR 0x0A] @ ''%s'') [FStr password, FStr salt])) (\<lambda>salted.
     cbind (random_str_gen E 40) (\<lambda>token.
     cbind (xread (x_time E)) (\<lambda>now.
     cbind (clift (ltostr now)) (\<lambda>now_str.
     cbind (admindb_insert_row E ''appinfo''
              (appinfo_fields app username email (do_sha1 salted) salt token now_str)) (\<lambda>r.
       if r = FAILURE then fail_null ''failed to save appinfo''
       else cbind (admindb_insert_id E) (\<lambda>n. create_userdb E n)))))))"

definition create_app_checked :: "'w externals \<Rightarrow> string \<Rightarrow> string \<Rightarrow> string \<Rightarrow> string \<Rightarrow> ('w, zval) php" where
  "create_app_checked E app username email password =
     cbind (admindb_row_count E ''appinfo'' ''appname'' app) (\<lambda>n.
       if 0 < n then fail_null ''This appname has been taken''
       else
         cbind (admindb_row_count E ''appinfo'' ''email'' email) (\<lambda>n.
         cbind (cget max_blogs_per_email) (\<lambda>limit.
           if limit \<le> n then fail_null (vsprintf ''Each email can register at most %d blogs'' [FInt limit])
           else register_app E app username email password)))"

definition fn_create_app :: "'w externals \<Rightarrow> (string \<times> string \<times> string \<times> string) option \<Rightarrow> ('w, zval) php" where
  "fn_create_app E args =
     assert_privilege
       (case args of
          None \<Rightarrow> bad_parameters ZNull
        | Some (app, username, email, password) \<Rightarrow>
            create_app_checked E (c_string app) (c_string username) (c_string email) (c_string password))"

text \<open>\<open>RETURN_BOOL\<close> of a \<open>SUCCESS\<close> (0) or \<open>FAILURE\<close> (-1) code.\<close>

definition bool_of_result :: "zresult \<Rightarrow> zval" where
  "bool_of_result r = ZBool (r = FAILURE)"

definition fn_app_activate :: "'w externals \<Rightarrow> int option \<Rightarrow> ('w, zval) php" where
  "fn_app_activate E arg =
     assert_privilege (get_appid_param arg (\<lambda>app.
       cbind (admindb_update_row E ''appinfo'' app ''isactive'' ''1'') (\<lambda>r. cret (bool_of_result r))))"

definition fn_app_deactivate :: "'w externals \<Rightarrow> int option \<Rightarrow> ('w, zval) php" where
  "fn_app_deactivate E arg =
     assert_privilege (get_appid_param arg (\<lambda>app.
       cbind (admindb_update_row E ''appinfo'' app ''isactive'' ''0'') (\<lambda>r. cret (bool_of_result r))))"

definition fn_app_count :: "'w externals \<Rightarrow> (string option \<times> string option) option \<Rightarrow> ('w, zval) php" where
  "fn_app_count E args =
     assert_privilege
       (case args of
          None \<Rightarrow> bad_parameters ZNull
        | Some (Some field, Some value) \<Rightarrow>
            cbind (admindb_row_count E ''appinfo'' (c_string field) (c_string value)) (\<lambda>n. cret (ZLong n))
        | Some _ \<Rightarrow> cbind (admindb_num_rows E) (\<lambda>n. cret (ZLong n)))"

definition fn_get_appid_by_field :: "'w externals \<Rightarrow> (string \<times> string) option \<Rightarrow> ('w, zval) php" where
  "fn_get_appid_by_field E args =
     assert_privilege
       (case args of
          None \<Rightarrow> bad_parameters ZNull
        | Some (field, value) \<Rightarrow>
            cbind (admindb_fetch_field E ''appinfo'' ''id'' (c_string field) (c_string value)) (\<lambda>app.
              cret (ZLong (case app of None \<Rightarrow> -1 | Some a \<Rightarrow> atol a))))"

definition fn_check_email_count :: "'w externals \<Rightarrow> string option \<Rightarrow> ('w, zval) php" where
  "fn_check_email_count E args =
     assert_privilege
       (case args of
          None \<Rightarrow> bad_parameters (ZBool False)
        | Some email \<Rightarrow>
            cbind (cget max_blogs_per_email) (\<lambda>limit.
            cbind (admindb_row_count E ''appinfo'' ''email'' (c_string email)) (\<lambda>n. cret (ZBool (n < limit)))))"

text \<open>The \<open>long\<close> length becomes an \<open>int\<close> on the way to the generator.\<close>

definition fn_random_string :: "'w externals \<Rightarrow> int option \<Rightarrow> ('w, zval) php" where
  "fn_random_string E arg =
     (case arg of
        None \<Rightarrow> bad_parameters ZNull
      | Some len \<Rightarrow>
          if len \<le> 0 then cret ZNull
          else cbind (random_str_gen E (to_int32 len)) (\<lambda>s. cret (ZString s)))"

section \<open>Random strings\<close>

definition alphanumeric :: "char \<Rightarrow> bool" where
  "alphanumeric c \<longleftrightarrow>
     (let n = (of_char c :: nat) in 48 \<le> n \<and> n \<le> 57 \<or> 65 \<le> n \<and> n \<le> 90 \<or> 97 \<le> n \<and> n \<le> 122)"

lemma of_char_of_int: "0 \<le> n \<Longrightarrow> n < 256 \<Longrightarrow> (of_char (char_of n :: char) :: nat) = nat n" for n :: int
  by (metis char_of_nat int_nat_eq of_char_of nat_less_iff mod_less of_nat_numeral nat_mod_as_int)

lemma random_char_alphanumeric: "alphanumeric (random_char r)"
proof -
  have "0 \<le> r mod 62" "r mod 62 < 62" by simp_all
  then show ?thesis by (auto simp: alphanumeric_def random_char_def Let_def of_char_of_int)
qed

text \<open>The numbers \<open>n\<close> successive calls of \<open>rand\<close> return, and the world they leave.\<close>

fun draws :: "'w externals \<Rightarrow> nat \<Rightarrow> 'w \<Rightarrow> int list \<times> 'w" where
  "draws E 0 w = ([], w)"
| "draws E (Suc n) w =
     (case x_rand E w of (r, w1) \<Rightarrow> case draws E n w1 of (rs, w2) \<Rightarrow> (r # rs, w2))"

lemma length_draws: "length (fst (draws E n w)) = n"
  by (induction n arbitrary: w) (auto split: prod.splits, metis fst_conv)

lemma random_chars_eq:
  "random_chars E n s =
    (Ret (map random_char (fst (draws E n (world s)))), s\<lparr>world := snd (draws E n (world s))\<rparr>)"
  by (induction n arbitrary: s) (auto simp: xcall_def cbind_def split: prod.splits)

lemma random_str_gen_eq:
  assumes "0 \<le> n" "n < 2147483647"
  obtains pass w where "random_str_gen E n s = (Ret pass, s\<lparr>world := w\<rparr>)"
    "length pass = nat n" "list_all alphanumeric pass"
proof
  show "random_str_gen E n s = (Ret (map random_char (fst (draws E (nat n) (world s)))),
      s\<lparr>world := snd (draws E (nat n) (world s))\<rparr>)"
    using assms by (simp add: random_str_gen_def random_chars_eq)
qed (simp_all add: length_draws list_all_iff random_char_alphanumeric)

section \<open>Passwords\<close>

lemma do_sha1_fips: "length str < 2 ^ 31 \<Longrightarrow> do_sha1 str = make_digest_ex (fips_sha1 (bytes_of str))"
  using sha1.digest_of_chunks [of "[bytes_of str]"] by (simp add: do_sha1_def bytes_of_def)

lemma byte_nibbles: "unat (drop_bit 4 d) < 16" "unat (d AND 0x0F) < 16" for d :: byte
proof -
  have "unat d < 256" using unsigned_less [where 'a = nat, of d] by simp
  then show "unat (drop_bit 4 d) < 16" by (simp only: unsigned_drop_bit_eq) (simp add: drop_bit_eq_div take_bit_nat_eq_self)
  have "d AND 0x0F = take_bit 4 d" by (simp add: take_bit_eq_mask mask_eq_exp_minus_1)
  then show "unat (d AND 0x0F) < 16" by (simp only: unsigned_take_bit_eq) (simp add: take_bit_eq_mod)
qed

lemma hexits_not_NUL: "i < 16 \<Longrightarrow> hexits ! i \<noteq> NUL"
  using nth_mem [of i hexits] by (auto simp: hexits_def NUL_def)

lemma is_cstr_make_digest: "is_cstr (make_digest_ex d)"
  using byte_nibbles [THEN hexits_not_NUL] by (auto simp: is_cstr_def make_digest_ex_def) metis+

lemma is_cstr_alphanumeric: "list_all alphanumeric s \<Longrightarrow> is_cstr s"
  by (auto simp: is_cstr_def list_all_iff alphanumeric_def NUL_def)

lemma is_cstr_c_string: "is_cstr (c_string s)"
  by (auto simp: is_cstr_def c_string_def dest: set_takeWhileD)

lemma fail_null_not_long: "fail_null msg s \<noteq> (Ret (ZLong n), s')"
  by (simp add: fail_null_def)

lemma ltostr_cstr: "ltostr v = Ret b \<Longrightarrow> is_cstr b"
  by (auto simp: ltostr_def Let_def split: if_splits)

lemma salted_eq:
  "new_sprintf (''%s'' @ [CHR 0x0A] @ ''%s'') [FStr a, FStr b] = Ret x \<Longrightarrow> x = a @ [CHR 0x0A] @ b \<and> length x < 512"
  by (auto simp: new_sprintf_def QUERY_MAXLEN_def Let_def split: if_splits)

lemma clift_RetE:
  assumes "cbind (clift out) f s = (Ret y, t)"
  obtains x where "out = Ret x" "f x s = (Ret y, t)"
  using assms by (cases out) (simp_all add: clift_def cbind_def)

lemma insert_row_sent:
  assumes "admindb_insert_row E table fvs s = (Ret r, s')"
  shows "mysql_noresult_query E (admindb_sock s) (''INSERT INTO '' @ table @ '' SET '' @ insert_assignments 0 fvs) s = (Ret r, s')"
proof (rule clift_RetE [OF assms [unfolded admindb_insert_row_def]])
  fix q0
  assume "new_sprintf ''INSERT INTO %s SET '' [FStr table] = Ret q0"
  then have "q0 = ''INSERT INTO '' @ table @ '' SET ''" by (auto simp: new_sprintf_def Let_def split: if_splits)
  moreover assume "(let query = q0 @ insert_assignments 0 fvs in if QUERY_MAXLEN \<le> length query then cundef
    else cbind (cget admindb_sock) (\<lambda>sock. mysql_noresult_query E sock query)) s = (Ret r, s')"
  ultimately show ?thesis by (simp add: Let_def cundef_def split: if_splits)
qed

lemma register_app_ok:
  assumes run: "register_app E app username email password s = (Ret (ZLong n), s')"
    and c: "is_cstr app" "is_cstr username" "is_cstr email"
  obtains salt token now w body s1 where "length salt = 40" "list_all alphanumeric salt"
    "length token = 40" "list_all alphanumeric token"
    "read_assignments 8 body = Some (appinfo_fields app username email
       (make_digest_ex (fips_sha1 (bytes_of (password @ [CHR 0x0A] @ salt)))) salt token now)"
    "mysql_noresult_query E (admindb_sock s) (''INSERT INTO appinfo SET '' @ body) (s\<lparr>world := w\<rparr>) = (Ret SUCCESS, s1)"
proof -
  have len: "0 \<le> SHA1_LENGTH" "SHA1_LENGTH < 2147483647" by (simp_all add: SHA1_LENGTH_def)
  have len': "0 \<le> (40::int)" "(40::int) < 2147483647" by simp_all
  obtain salt w1 where salt: "random_str_gen E SHA1_LENGTH s = (Ret salt, s\<lparr>world := w1\<rparr>)"
    "length salt = nat SHA1_LENGTH" "list_all alphanumeric salt"
    by (rule random_str_gen_eq [OF len])
  define s2 where "s2 = s\<lparr>world := w1\<rparr>"
  obtain token w where token: "random_str_gen E 40 s2 = (Ret token, s2\<lparr>world := w\<rparr>)"
    "length token = nat 40" "list_all alphanumeric token"
    by (rule random_str_gen_eq [OF len'])
  note run1 = run [unfolded register_app_def, unfolded cbind_Ret [where m = "random_str_gen E SHA1_LENGTH", OF salt(1)], folded s2_def]
  obtain salted where x: "new_sprintf (''%s'' @ [CHR 0x0A] @ ''%s'') [FStr password, FStr salt] = Ret salted"
    by (rule clift_RetE [OF run1])
  from salted_eq [OF x] have sl: "salted = password @ [CHR 0x0A] @ salt" "length salted < 512" by auto
  note run2 = run1 [unfolded x clift_Ret cbind_cret, unfolded cbind_Ret [where m = "random_str_gen E 40", OF token(1)] xread_bind]
  obtain now where now: "ltostr (x_time E (world (s2\<lparr>world := w\<rparr>))) = Ret now"
    by (rule clift_RetE [OF run2])
  define fvs where "fvs = appinfo_fields app username email (do_sha1 salted) salt token now"
  note run3 = run2 [unfolded now clift_Ret cbind_cret, folded fvs_def]
  obtain r s1 where ins: "admindb_insert_row E ''appinfo'' fvs (s2\<lparr>world := w\<rparr>) = (Ret r, s1)" "r = SUCCESS"
  proof (rule cbind_RetE [OF run3])
    fix r s1
    assume "admindb_insert_row E ''appinfo'' fvs (s2\<lparr>world := w\<rparr>) = (Ret r, s1)"
      "(if r = FAILURE then fail_null ''failed to save appinfo'' else cbind (admindb_insert_id E) (create_userdb E)) s1
        = (Ret (ZLong n), s')"
    with that fail_null_not_long show thesis by (cases r) (auto split: if_splits)
  qed
  have "\<forall>(f, v) \<in> set fvs. plain_name f \<and> is_cstr v"
    using c salt(3) token(3) is_cstr_alphanumeric ltostr_cstr [OF now]
    by (simp add: fvs_def appinfo_fields_def plain_name_def do_sha1_def is_cstr_make_digest NUL_def)
      (simp add: is_cstr_def NUL_def)
  then have "read_assignments (length fvs) (insert_assignments 0 fvs) = Some fvs"
    by (rule read_insert_assignments) (simp add: fvs_def appinfo_fields_def)
  moreover have "length fvs = 8" by (simp add: fvs_def appinfo_fields_def)
  moreover have "do_sha1 salted = make_digest_ex (fips_sha1 (bytes_of (password @ [CHR 0x0A] @ salt)))"
    using do_sha1_fips [of salted] sl by simp
  ultimately have body: "read_assignments 8 (insert_assignments 0 fvs) = Some (appinfo_fields app username email
       (make_digest_ex (fips_sha1 (bytes_of (password @ [CHR 0x0A] @ salt)))) salt token now)"
    by (simp add: fvs_def)
  show thesis
    using that salt token body insert_row_sent [OF ins(1)] ins(2) by (simp add: SHA1_LENGTH_def s2_def)
qed

section \<open>Properties\<close>


text \<open>A database without applications.\<close>

definition fresh_state :: "string list \<Rightarrow> sample_world php_state" where
  "fresh_state log = sample_state\<lparr>world := (world sample_state)\<lparr>sw_log := log, sw_rows :=
     [[Some ''0'', Some ''localhost'', Some ''ub_42'', Some ''secret'', Some ''ub_42'']]\<rparr>\<rparr>"

lemma length_do_sha1: "length str < 2 ^ 31 \<Longrightarrow> length (do_sha1 str) = 40"
  using length_block_hash_fips [of fips_H0 "fips_pad (bytes_of str)"]
  by (simp add: do_sha1_fips fips_sha1_def make_digest_ex_def length_concat comp_def be_bytes_4
      sum_list_triv fips_H0_def)

lemma plain_do_sha1: "addslashes (do_sha1 str) = do_sha1 str"
proof -
  have "hexits ! i \<in> set hexits" if "i < 16" for i using that nth_mem [of i hexits] by (simp only: hexits_def) simp
  with byte_nibbles have "set (do_sha1 str) \<subseteq> set hexits" by (auto simp: do_sha1_def make_digest_ex_def)
  moreover have "plain_name hexits" by (simp add: plain_name_def hexits_def NUL_def)
  ultimately show ?thesis using plain_name_addslashes [of "do_sha1 str"] by (auto simp: plain_name_def)
qed

lemma sample_random: "random_chars sample_ext n s = (Ret (replicate n CHR ''z''), s)"
proof -
  have "draws sample_ext n w = (replicate n 61, w)" for w by (induction n) (simp_all add: sample_ext_def)
  moreover have "random_char 61 = CHR ''z''" by code_simp
  ultimately show ?thesis by (simp add: random_chars_eq)
qed

lemma fresh_noresult: "mysql_noresult_query sample_ext (admindb_sock (fresh_state l)) q (fresh_state l) = (Ret SUCCESS, fresh_state (l @ [q]))"
  by (simp add: mysql_noresult_query_def fresh_state_def sample_state_def sample_ext_def xcall_bind)

lemma fresh_insert:
  assumes "length (''INSERT INTO '' @ table @ '' SET '' @ insert_assignments 0 fvs) < QUERY_MAXLEN"
  obtains l' where "admindb_insert_row sample_ext table fvs (fresh_state l) = (Ret SUCCESS, fresh_state l')"
proof -
  have "new_sprintf ''INSERT INTO %s SET '' [FStr table] = Ret (''INSERT INTO '' @ table @ '' SET '')"
    using assms by (simp add: new_sprintf_def QUERY_MAXLEN_def)
  with assms fresh_noresult that show thesis by (simp add: admindb_insert_row_def Let_def QUERY_MAXLEN_def)
qed

lemma fresh_connect: "fst (php_connect_userdb sample_ext 42 (fresh_state l)) = Ret SUCCESS"
  by code_simp

lemma fresh_random: "random_str_gen sample_ext 40 s = (Ret (replicate 40 CHR ''z''), s)"
  by (simp add: random_str_gen_def sample_random)

lemma plain_z: "addslashes (replicate n CHR ''z'') = replicate n CHR ''z''"
  using plain_name_addslashes [of "replicate n CHR ''z''"] by (simp add: plain_name_def NUL_def)

lemma fresh_create_userdb: "fst (create_userdb sample_ext 42 (fresh_state l)) = Ret (ZLong 42)"
proof -
  let ?z = "replicate 40 CHR ''z''"
  have n: "new_sprintf ''%s%d'' [FStr ''ub_'', FInt 42] = Ret ''ub_42''" "ltostr 42 = Ret ''42''" by code_simp+
  have p: "userdb_prefix (fresh_state l) = ''ub_''" by (simp add: fresh_state_def sample_state_def)
  have "length (''INSERT INTO '' @ ''dbconf'' @ '' SET '' @ insert_assignments 0 [(''id'', ''42''), (''hostname'', ''localhost''),
      (''username'', ''ub_42''), (''password'', ?z), (''dbname'', ''ub_42'')]) < QUERY_MAXLEN"
    by (simp only: insert_assignments.simps plain_z)
      (simp add: QUERY_MAXLEN_def addslashes_def php_addslashes_def NUL_def del: replicate.simps)
  then obtain l1 where ins: "admindb_insert_row sample_ext ''dbconf'' [(''id'', ''42''), (''hostname'', ''localhost''),
      (''username'', ''ub_42''), (''password'', ?z), (''dbname'', ''ub_42'')] (fresh_state l) = (Ret SUCCESS, fresh_state l1)"
    by (rule fresh_insert)
  obtain l2 where db: "create_database sample_ext ''ub_42'' (fresh_state l1) = (Ret SUCCESS, fresh_state l2)"
    by (simp add: create_database_def new_sprintf_def QUERY_MAXLEN_def fresh_noresult)
  obtain l3 where gr: "grant_db_privilege sample_ext ''ub_42'' ''localhost'' ''ub_42'' ?z (fresh_state l2) = (Ret SUCCESS, fresh_state l3)"
    by (simp add: grant_db_privilege_def new_sprintf_def QUERY_MAXLEN_def fresh_noresult)
  from fresh_connect [of l3] obtain s3 where "php_connect_userdb sample_ext 42 (fresh_state l3) = (Ret SUCCESS, s3)"
    by (metis prod.collapse)
  with ins db gr show ?thesis
    by (simp add: create_userdb_def p n SHA1_LENGTH_def cbind_def [of "random_str_gen _ _"] fresh_random
        cbind_def [of "admindb_insert_row _ _ _"] cbind_def [of "create_database _ _"]
        cbind_def [of "grant_db_privilege _ _ _ _ _"] cbind_def [of "php_connect_userdb _ _"] del: replicate.simps)
qed

lemma fresh_register_app:
  "fst (register_app sample_ext ''bob'' ''b'' ''b@x.org'' ''pw'' (fresh_state l)) = Ret (ZLong 42)"
proof -
  let ?z = "replicate 40 CHR ''z''"
  have x: "new_sprintf (''%s'' @ [CHR 0x0A] @ ''%s'') [FStr ''pw'', FStr ?z] = Ret (''pw'' @ [CHR 0x0A] @ ?z)"
    by (simp add: new_sprintf_def QUERY_MAXLEN_def)
  have "ltostr 1400000000 = Ret ''1400000000''"
    by (simp add: ltostr_eq LONG_MAX_def show_int_def show_nat.simps digit_char_def char_of_def bit_0)
  then have now: "ltostr (x_time sample_ext w) = Ret ''1400000000''" for w by (simp add: sample_ext_def)
  define h where "h = do_sha1 (''pw'' @ [CHR 0x0A] @ ?z)"
  have h: "length h = 40" "addslashes h = h" by (simp_all add: h_def length_do_sha1 plain_do_sha1)
  have "length (''INSERT INTO '' @ ''appinfo'' @ '' SET '' @ insert_assignments 0
      (appinfo_fields ''bob'' ''b'' ''b@x.org'' h ?z ?z ''1400000000'')) < QUERY_MAXLEN"
    by (simp only: insert_assignments.simps plain_z h appinfo_fields_def)
      (simp add: QUERY_MAXLEN_def addslashes_def php_addslashes_def NUL_def h del: replicate.simps)
  then obtain l1 where ins: "admindb_insert_row sample_ext ''appinfo''
      (appinfo_fields ''bob'' ''b'' ''b@x.org'' h ?z ?z ''1400000000'') (fresh_state l) = (Ret SUCCESS, fresh_state l1)"
    by (rule fresh_insert)
  have "admindb_insert_id sample_ext (fresh_state l1) = (Ret 42, fresh_state l1)"
    by (simp add: admindb_insert_id_def fresh_state_def sample_state_def sample_ext_def xread_def)
  with ins fresh_create_userdb [of l1] show ?thesis
    by (simp add: register_app_def x [simplified] now SHA1_LENGTH_def h_def [symmetric, simplified] cbind_def [of "random_str_gen _ _"] fresh_random
        cbind_def [of "admindb_insert_row _ _ _"] cbind_def [of "admindb_insert_id _"] del: replicate.simps)
qed

lemma fresh_row_count:
  assumes "length f + length v < 400"
  obtains l' where "admindb_row_count sample_ext ''appinfo'' f v (fresh_state l) = (Ret 0, fresh_state l')"
proof -
  obtain q where q: "new_sprintf (''SELECT %s FROM %s WHERE `%s`='%s'' @ [CHR 0x27])
      [FStr ''COUNT(*)'', FStr ''appinfo'', FStr f, FStr v] = Ret q"
    using assms by (simp add: new_sprintf_def QUERY_MAXLEN_def)
  have "admindb_sock (fresh_state l) = Some 7" by (simp add: fresh_state_def sample_state_def)
  moreover have "do_mysql_query sample_ext (Some 7) q (fresh_state l) = (Ret (Some (sw_rows (world (fresh_state l)))), fresh_state (l @ [q]))"
    by (simp add: do_mysql_query_def fresh_state_def sample_state_def sample_ext_def xcall_bind)
  moreover have "atol ''0'' = 0" by code_simp
  ultimately have "admindb_row_count sample_ext ''appinfo'' f v (fresh_state l) = (Ret 0, fresh_state (l @ [q]))"
    unfolding admindb_row_count_def admindb_fetch_field_def q clift_Ret cbind_cret cbind_assoc
    by (simp add: cbind_def [of "do_mysql_query _ _ _"]) (simp add: fresh_state_def mysql_fetch_row_def)
  with that show thesis by blast
qed


text \<open>
  A random string has the requested length and only digits and letters, and nothing but the state of
  the generator changes: for every positive length below \<open>INT_MAX\<close>.
\<close>

lemma random_string_alphanumeric:
  assumes "0 < n" "n < 2147483647"
  shows "\<exists>pass w. fn_random_string E (Some n) s = (Ret (ZString pass), s\<lparr>world := w\<rparr>)
    \<and> length pass = nat n \<and> list_all alphanumeric pass"
proof -
  have n: "0 \<le> n" "to_int32 n = n" using assms by simp_all
  obtain pass w where p: "random_str_gen E n s = (Ret pass, s\<lparr>world := w\<rparr>)"
    "length pass = nat n" "list_all alphanumeric pass"
    by (rule random_str_gen_eq [OF n(1) assms(2)])
  have "fn_random_string E (Some n) s = (Ret (ZString pass), s\<lparr>world := w\<rparr>)"
    using assms(1) n(2) p(1) by (simp add: fn_random_string_def cbind_def)
  with p show ?thesis by blast
qed

text \<open>
  (C31) Switching an application on or off sends one \<open>UPDATE\<close> for its row. The functions hand the
  C result code to \<open>RETURN_BOOL\<close>: the script receives true exactly when the query failed.
\<close>

theorem app_switch_result:
  assumes "appid s = 0" "admindb_sock s = Some c"
    and "x_mysql_real_query E c (''UPDATE appinfo SET `isactive`='' @ CHR 0x27 # flag @ CHR 0x27 # '' WHERE `id`='' @ CHR 0x27 #
           show_int (to_int32 a) @ [CHR 0x27]) (world s) = (failed, w)"
    and "(f, flag) \<in> {(fn_app_activate E (Some a), ''1''), (fn_app_deactivate E (Some a), ''0'')}"
  shows "fst (f s) = Ret (ZBool failed) \<and> world (snd (f s)) = w \<and> confinement (snd (f s)) = confinement s"
proof -
  have id32: "to_int32 (to_int32 n) = to_int32 n" for n by (simp add: to_int32_def)
  have len: "length (show_int (to_int32 a)) < 30"
    using ltostr_int32 [of a] by (auto simp: ltostr_def Let_def LONG_MAXLEN_def split: if_splits)
  have q: "new_sprintf (''UPDATE %s SET `%s`='%s' WHERE `id`='%d'' @ [CHR 0x27])
      [FStr ''appinfo'', FStr ''isactive'', FStr (addslashes flag), FInt (to_int32 a)] =
    Ret (''UPDATE appinfo SET `isactive`='' @ CHR 0x27 # flag @ CHR 0x27 # '' WHERE `id`='' @ CHR 0x27 # show_int (to_int32 a) @ [CHR 0x27])"
    if "flag = ''0'' \<or> flag = ''1''"
    using that len
    by (auto simp: new_sprintf_def QUERY_MAXLEN_def Let_def id32 addslashes_def php_addslashes_def NUL_def)
  have "to_int32 (appid s) = 0" using assms(1) by simp
  with assms q show ?thesis
    by (auto simp: fn_app_activate_def fn_app_deactivate_def assert_privilege_def php_get_appid_def get_appid_param_def
        admindb_update_row_def mysql_noresult_query_def cbind_assoc xcall_bind bool_of_result_def cbind_cseq)
qed

theorem app_switch_result_witness:
  "fst (fn_app_activate sample_ext (Some 5) sample_state) = Ret (ZBool False)"
proof -
  have s: "appid sample_state = 0" "admindb_sock sample_state = Some 7" by (simp_all add: sample_state_def)
  show ?thesis
    using app_switch_result [OF s, of sample_ext "''1''" 5 False _ "fn_app_activate sample_ext (Some 5)"]
    by (simp add: sample_ext_def sample_state_def)
qed

text \<open>
  The functions of the blog extension that read or change the administration database are closed to
  applications: for a script that belongs to one they report a warning, return null and change nothing else.
\<close>

theorem blog_functions_privileged:
  assumes "0 < appid s" "appid s < 2147483648"
  shows "\<forall>f \<in> {fn_get_appinfo E i, fn_create_app E q, fn_app_activate E i, fn_app_deactivate E i,
      fn_app_count E r, fn_get_appid_by_field E t, fn_check_email_count E u}.
    f s = (Ret ZNull, s\<lparr>errors := errors s @ [(E_WARNING, ''You know it, bad boy!'')]\<rparr>)"
proof -
  have "to_int32 (appid s) \<noteq> 0" using assms by simp
  then have "assert_privilege body s = (Ret ZNull, s\<lparr>errors := errors s @ [(E_WARNING, ''You know it, bad boy!'')]\<rparr>)" for body
    by (simp add: assert_privilege_def php_get_appid_def)
  then show ?thesis
    by (simp add: fn_get_appinfo_def fn_create_app_def fn_app_activate_def fn_app_deactivate_def fn_app_count_def
        fn_get_appid_by_field_def fn_check_email_count_def)
qed

end
