(* ===== verification/Plain_Wrapper.thy ===== *)
theory Plain_Wrapper
  imports Sandbox_Correct
begin

text \<open>
  The wrapper of plain files (main/streams/plain\_wrapper.c), through which PHP code reaches the file
  system, with the rules the sandbox adds to it: only files named \<open>.php\<close> outside the upload directory
  can be included, and only trusted code opens such a file for writing. The system calls and the
  stream layer (main/streams/streams.c) are the fields of \<open>filesystem\<close>, each acting on the world; the
  call stack of the running script, which \<open>zend_fetch_debug_backtrace\<close> yields, is an argument.
\<close>

unbundle bit_operations_syntax

section \<open>Opening modes\<close>

definition O_RDONLY :: uint where "O_RDONLY = 0"

definition O_WRONLY :: uint where "O_WRONLY = 1"

definition O_RDWR :: uint where "O_RDWR = 2"

definition O_CREAT :: uint where "O_CREAT = 0x40"

definition O_EXCL :: uint where "O_EXCL = 0x80"

definition O_TRUNC :: uint where "O_TRUNC = 0x200"

definition O_APPEND :: uint where "O_APPEND = 0x400"

definition O_NONBLOCK :: uint where "O_NONBLOCK = 0x800"

lemmas open_flag_defs = O_RDONLY_def O_WRONLY_def O_RDWR_def O_CREAT_def O_EXCL_def O_TRUNC_def O_APPEND_def O_NONBLOCK_def

definition php_stream_parse_fopen_modes :: "string \<Rightarrow> uint option" where
  "php_stream_parse_fopen_modes mode =
     (let m = cstr_at mode 0;
          start = (if m = CHR ''r'' then Some 0
                   else if m = CHR ''w'' then Some (O_TRUNC OR O_CREAT)
                   else if m = CHR ''a'' then Some (O_CREAT OR O_APPEND)
                   else if m = CHR ''x'' then Some (O_CREAT OR O_EXCL)
                   else if m = CHR ''c'' then Some O_CREAT
                   else None)
      in case start of
        None \<Rightarrow> None
      | Some flags \<Rightarrow>
          (let flags = (if strchr mode (CHR ''+'') \<noteq> None then flags OR O_RDWR
                        else if flags \<noteq> 0 then flags OR O_WRONLY
                        else flags OR O_RDONLY);
               flags = (if strchr mode (CHR ''n'') \<noteq> None then flags OR O_NONBLOCK else flags)
           in Some flags))"

section \<open>Streams and the system\<close>

record file_stat =
  st_mode :: uint
  st_uid :: uint
  st_gid :: uint

definition S_ISREG :: "uint \<Rightarrow> bool" where
  "S_ISREG m \<longleftrightarrow> m AND 0xF000 = 0x8000"

definition S_ISFIFO :: "uint \<Rightarrow> bool" where
  "S_ISFIFO m \<longleftrightarrow> m AND 0xF000 = 0x1000"

text \<open>\<open>sd_sb\<close> is \<open>sb\<close>, if \<open>cached_fstat\<close> says that it is valid.\<close>

record php_stdio_stream_data =
  sd_fd :: int
  sd_is_pipe :: bool
  sd_sb :: "file_stat option"

record php_stream =
  ps_self :: php_stdio_stream_data
  ps_mode :: string
  ps_persistent_id :: "string option"
  ps_no_seek :: bool
  ps_position :: int

datatype persistent = PERSISTENT_SUCCESS php_stream | PERSISTENT_FAILURE | PERSISTENT_NOT_EXIST

text \<open>A call that fails returns no value or true, and sets \<open>errno\<close>.\<close>

record 'w filesystem =
  f_open :: "string \<Rightarrow> uint \<Rightarrow> int \<Rightarrow> 'w \<Rightarrow> int option \<times> 'w"
  f_close :: "int \<Rightarrow> 'w \<Rightarrow> 'w"
  f_fstat :: "int \<Rightarrow> 'w \<Rightarrow> file_stat option"
  f_lseek :: "int \<Rightarrow> 'w \<Rightarrow> int \<times> 'w"
  f_stat :: "string \<Rightarrow> 'w \<Rightarrow> file_stat option"
  f_lstat :: "string \<Rightarrow> 'w \<Rightarrow> file_stat option"
  f_opendir :: "string \<Rightarrow> 'w \<Rightarrow> int option \<times> 'w"
  f_unlink :: "string \<Rightarrow> 'w \<Rightarrow> bool \<times> 'w"
  f_rename :: "string \<Rightarrow> string \<Rightarrow> 'w \<Rightarrow> bool \<times> 'w"
  f_mkdir :: "string \<Rightarrow> uint \<Rightarrow> 'w \<Rightarrow> bool \<times> 'w"
  f_rmdir :: "string \<Rightarrow> 'w \<Rightarrow> bool \<times> 'w"
  f_chmod :: "string \<Rightarrow> uint \<Rightarrow> 'w \<Rightarrow> bool \<times> 'w"
  f_chown :: "string \<Rightarrow> uint \<Rightarrow> uint \<Rightarrow> 'w \<Rightarrow> bool \<times> 'w"
  f_utime :: "string \<Rightarrow> (int \<times> int) option \<Rightarrow> 'w \<Rightarrow> bool \<times> 'w"
  f_access :: "string \<Rightarrow> 'w \<Rightarrow> bool"
  f_fopen_w :: "string \<Rightarrow> 'w \<Rightarrow> int option \<times> 'w"
  f_fclose :: "int \<Rightarrow> 'w \<Rightarrow> 'w"
  f_errno :: "'w \<Rightarrow> int"
  f_strerror :: "'w \<Rightarrow> string"
  f_uid_by_name :: "string \<Rightarrow> 'w \<Rightarrow> uint option"
  f_gid_by_name :: "string \<Rightarrow> 'w \<Rightarrow> uint option"
  f_expand :: "string \<Rightarrow> 'w \<Rightarrow> string option"
  f_copy_file :: "string \<Rightarrow> string \<Rightarrow> 'w \<Rightarrow> zresult \<times> 'w"
  f_clear_stat_cache :: "bool \<Rightarrow> 'w \<Rightarrow> 'w"
  f_persistent_stream :: "string \<Rightarrow> 'w \<Rightarrow> persistent \<times> 'w"
  f_stream_alloc :: "php_stream \<Rightarrow> 'w \<Rightarrow> 'w"
  f_stream_close :: "php_stream \<Rightarrow> 'w \<Rightarrow> 'w"
  f_glob_opener :: "string \<Rightarrow> string \<Rightarrow> uint \<Rightarrow> 'w \<Rightarrow> int option \<times> 'w"

definition xdo :: "('w \<Rightarrow> 'w) \<Rightarrow> ('w, unit) php" where
  "xdo f = cmodify (\<lambda>s. s\<lparr>world := f (world s)\<rparr>)"

definition ESPIPE :: int where "ESPIPE = 29"

definition EXDEV :: int where "EXDEV = 18"

definition EPERM :: int where "EPERM = 1"

definition do_fstat :: "'w filesystem \<Rightarrow> php_stdio_stream_data \<Rightarrow> bool \<Rightarrow> ('w, bool \<times> php_stdio_stream_data) php" where
  "do_fstat F d force =
     (if sd_sb d = None \<or> force then
        cbind (xread (f_fstat F (sd_fd d))) (\<lambda>sb. cret (sb \<noteq> None, d\<lparr>sd_sb := sb\<rparr>))
      else cret (True, d))"

text \<open>Memory for a stream is always found: \<open>pemalloc\<close> ends the request or the process otherwise.\<close>

definition php_stream_fopen_from_fd_int ::
  "'w filesystem \<Rightarrow> int \<Rightarrow> string \<Rightarrow> string option \<Rightarrow> ('w, php_stream) php" where
  "php_stream_fopen_from_fd_int F fd mode persistent_id =
     (let stream = \<lparr>ps_self = \<lparr>sd_fd = fd, sd_is_pipe = False, sd_sb = None\<rparr>, ps_mode = mode,
                    ps_persistent_id = persistent_id, ps_no_seek = False, ps_position = 0\<rparr>
      in cseq (xdo (f_stream_alloc F stream)) (cret stream))"

definition php_stream_fopen_from_fd ::
  "'w filesystem \<Rightarrow> int \<Rightarrow> string \<Rightarrow> string option \<Rightarrow> ('w, php_stream) php" where
  "php_stream_fopen_from_fd F fd mode persistent_id =
     cbind (php_stream_fopen_from_fd_int F fd mode persistent_id) (\<lambda>stream.
     cbind (if 0 \<le> sd_fd (ps_self stream) then
              cbind (do_fstat F (ps_self stream) False) (\<lambda>(ok, self).
                cret (self\<lparr>sd_is_pipe := (ok \<and> (case sd_sb self of None \<Rightarrow> False | Some sb \<Rightarrow> S_ISFIFO (st_mode sb)))\<rparr>))
            else cret (ps_self stream)) (\<lambda>self.
       if sd_is_pipe self then cret (stream\<lparr>ps_self := self, ps_no_seek := True\<rparr>)
       else
         cbind (xcall (f_lseek F (sd_fd self))) (\<lambda>pos.
         cbind (xread (f_errno F)) (\<lambda>errno.
           if pos = -1 \<and> errno = ESPIPE
           then cret (stream\<lparr>ps_self := self\<lparr>sd_is_pipe := True\<rparr>, ps_no_seek := True, ps_position := 0\<rparr>)
           else cret (stream\<lparr>ps_self := self, ps_position := pos\<rparr>)))))"

section \<open>Opening a file\<close>

text \<open>The file and line of a call, or nothing for a call made by an internal function.\<close>

type_synonym frame = "(string \<times> int) option"

fun trusted_frames :: "frame list \<Rightarrow> ('w, zresult) php" where
  "trusted_frames [] = cret SUCCESS"
| "trusted_frames (None # frames) = trusted_frames frames"
| "trusted_frames (Some (file_name, line) # frames) =
     cbind (is_in_trusted_code_dir file_name) (\<lambda>r.
       if r \<noteq> SUCCESS then
         cseq (php_error_docref E_WARNING (vsprintf ''Access violation from untrusted PHP code: file %s, line %ld''
                 [FStr file_name, FInt line]))
              (cret FAILURE)
       else trusted_frames frames)"

text \<open>Without any frame the code reads an uninitialised pointer.\<close>

definition is_in_trusted_php_code :: "frame list \<Rightarrow> ('w, zresult) php" where
  "is_in_trusted_php_code backtrace = (if backtrace = [] then cundef else trusted_frames backtrace)"

definition REPORT_ERRORS :: uint where "REPORT_ERRORS = 0x8"

definition STREAM_OPEN_FOR_INCLUDE :: uint where "STREAM_OPEN_FOR_INCLUDE = 0x80"

definition STREAM_DISABLE_OPEN_BASEDIR :: uint where "STREAM_DISABLE_OPEN_BASEDIR = 0x400"

definition STREAM_OPEN_PERSISTENT :: uint where "STREAM_OPEN_PERSISTENT = 0x800"

definition STREAM_USE_GLOB_DIR_OPEN :: uint where "STREAM_USE_GLOB_DIR_OPEN = 0x1000"

definition STREAM_ASSUME_REALPATH :: uint where "STREAM_ASSUME_REALPATH = 0x4000"

abbreviation has_option :: "uint \<Rightarrow> uint \<Rightarrow> bool" where
  "has_option options bit_mask \<equiv> options AND bit_mask \<noteq> 0"

text \<open>\<open>strlen (s) >= sizeof (".php")\<close> and the last four characters are \<open>.php\<close>.\<close>

definition php_extension :: "string \<Rightarrow> bool" where
  "php_extension s \<longleftrightarrow> 5 \<le> length s \<and> drop (length s - 4) s = ''.php''"

text \<open>The checks of the sandbox before the file is opened.\<close>

definition include_allowed :: "'w externals \<Rightarrow> string \<Rightarrow> ('w, bool) php" where
  "include_allowed E realpath =
     (if \<not> php_extension realpath then
        cseq (php_error_docref E_ERROR ''USTC blog sandbox: For security reasons, executing files without .php extension is forbidden.'')
             (cret False)
      else
        cbind (xread (\<lambda>w. x_expand_filepath E w realpath)) (\<lambda>path_to_check.
        cbind (deref path_to_check) (\<lambda>path_to_check.
        cbind (is_in_upload_dir path_to_check) (\<lambda>r.
          if r = SUCCESS then
            cseq (php_error_docref E_ERROR ''USTC blog sandbox: For security reasons, executing files in WordPress upload directory is forbidden.'')
                 (cret False)
          else cret True))))"

definition write_allowed :: "frame list \<Rightarrow> string \<Rightarrow> ('w, bool) php" where
  "write_allowed backtrace realpath =
     (if php_extension realpath then
        cbind (is_in_trusted_php_code backtrace) (\<lambda>r.
          if r \<noteq> SUCCESS then
            cseq (php_error_docref E_ERROR (''USTC blog sandbox: For security reasons, writting to files with .php extension is only allowed ''
                    @ ''from WordPress core. PHP files cannot be modified from your plugin/theme.''))
                 (cret False)
          else cret True)
      else cret True)"

text \<open>From the call of \<open>open\<close> on: the stream and the path stored in \<open>opened_path\<close>.\<close>

definition open_realpath ::
  "'w filesystem \<Rightarrow> string \<Rightarrow> string \<Rightarrow> uint \<Rightarrow> string option \<Rightarrow> uint \<Rightarrow> ('w, (php_stream \<times> string) option) php" where
  "open_realpath F realpath mode open_flags persistent_id options =
     cbind (xcall (f_open F realpath open_flags 438)) (\<lambda>fd.
       case fd of
         None \<Rightarrow> cret None
       | Some fd \<Rightarrow>
           if has_option options STREAM_OPEN_FOR_INCLUDE then
             cbind (php_stream_fopen_from_fd_int F fd mode persistent_id) (\<lambda>ret.
             cbind (do_fstat F (ps_self ret) False) (\<lambda>(ok, self).
               case sd_sb self of
                 Some sb \<Rightarrow>
                   if ok \<and> \<not> S_ISREG (st_mode sb) then cseq (xdo (f_stream_close F ret)) (cret None)
                   else cret (Some (ret\<lparr>ps_self := self\<rparr>, realpath))
               | None \<Rightarrow> cret (Some (ret\<lparr>ps_self := self\<rparr>, realpath))))
           else
             cbind (php_stream_fopen_from_fd F fd mode persistent_id) (\<lambda>ret. cret (Some (ret, realpath))))"

definition checked_open ::
  "'w externals \<Rightarrow> 'w filesystem \<Rightarrow> frame list \<Rightarrow> string \<Rightarrow> string \<Rightarrow> uint \<Rightarrow> string option \<Rightarrow> uint
     \<Rightarrow> ('w, (php_stream \<times> string) option) php" where
  "checked_open E F backtrace realpath mode open_flags persistent_id options =
     cbind (if has_option options STREAM_OPEN_FOR_INCLUDE then include_allowed E realpath else cret True) (\<lambda>ok.
       if \<not> ok then cret None
       else
         cbind (if open_flags \<noteq> 0 then write_allowed backtrace realpath else cret True) (\<lambda>ok.
           if \<not> ok then cret None
           else open_realpath F realpath mode open_flags persistent_id options))"

definition php_stream_fopen ::
  "'w externals \<Rightarrow> 'w filesystem \<Rightarrow> frame list \<Rightarrow> string \<Rightarrow> string \<Rightarrow> uint \<Rightarrow> ('w, (php_stream \<times> string) option) php" where
  "php_stream_fopen E F backtrace filename mode options =
     (case php_stream_parse_fopen_modes mode of
        None \<Rightarrow>
          if has_option options REPORT_ERRORS
          then cseq (php_error_docref E_WARNING (vsprintf (''`%s'' @ [CHR 0x27] @ '' is not a valid mode for fopen'') [FStr mode]))
                    (cret None)
          else cret None
      | Some open_flags \<Rightarrow>
          cbind (if has_option options STREAM_ASSUME_REALPATH then cret (Some filename)
                 else xread (\<lambda>w. x_expand_filepath E w filename)) (\<lambda>realpath.
          case realpath of
            None \<Rightarrow> cret None
          | Some realpath \<Rightarrow>
              if has_option options STREAM_OPEN_PERSISTENT then
                (let persistent_id = vsprintf ''streams_stdio_%d_%s'' [FInt (uint open_flags), FStr realpath] in
                 cbind (xcall (f_persistent_stream F persistent_id)) (\<lambda>r.
                   case r of
                     PERSISTENT_SUCCESS ret \<Rightarrow> cret (Some (ret, realpath))
                   | PERSISTENT_FAILURE \<Rightarrow> cundef
                   | PERSISTENT_NOT_EXIST \<Rightarrow>
                       checked_open E F backtrace realpath mode open_flags (Some persistent_id) options))
              else checked_open E F backtrace realpath mode open_flags None options))"

section \<open>The operations of the wrapper\<close>

definition php_plain_files_stream_opener ::
  "'w externals \<Rightarrow> 'w filesystem \<Rightarrow> frame list \<Rightarrow> string \<Rightarrow> string \<Rightarrow> uint \<Rightarrow> ('w, (php_stream \<times> string) option) php" where
  "php_plain_files_stream_opener E F backtrace path mode options =
     cbind (if has_option options STREAM_DISABLE_OPEN_BASEDIR then cret 0 else php_check_open_basedir E path) (\<lambda>r.
       if r \<noteq> 0 then cret None else php_stream_fopen E F backtrace path mode options)"

text \<open>The result is the directory handle of the new stream.\<close>

definition php_plain_files_dir_opener ::
  "'w externals \<Rightarrow> 'w filesystem \<Rightarrow> string \<Rightarrow> string \<Rightarrow> uint \<Rightarrow> ('w, int option) php" where
  "php_plain_files_dir_opener E F path mode options =
     (if has_option options STREAM_USE_GLOB_DIR_OPEN then xcall (f_glob_opener F path mode options)
      else
        cbind (if has_option options STREAM_DISABLE_OPEN_BASEDIR then cret 0 else php_check_open_basedir E path) (\<lambda>r.
          if r \<noteq> 0 then cret None else xcall (f_opendir F path)))"

definition tolower :: "char \<Rightarrow> char" where
  "tolower c = (let n = of_char c in if 65 \<le> n \<and> n \<le> (90::nat) then char_of (n + 32) else c)"

definition strip_file_scheme :: "string \<Rightarrow> string" where
  "strip_file_scheme url = (if strncmp0 (map tolower url) ''file://'' 7 then drop 7 url else url)"

definition PHP_STREAM_URL_STAT_LINK :: uint where "PHP_STREAM_URL_STAT_LINK = 1"

definition PHP_STREAM_URL_STAT_QUIET :: uint where "PHP_STREAM_URL_STAT_QUIET = 2"

definition php_plain_files_url_stater ::
  "'w externals \<Rightarrow> 'w filesystem \<Rightarrow> string \<Rightarrow> uint \<Rightarrow> ('w, file_stat option) php" where
  "php_plain_files_url_stater E F url flags =
     (let url = strip_file_scheme url in
      cbind (php_check_open_basedir_ex E url (\<not> has_option flags PHP_STREAM_URL_STAT_QUIET)) (\<lambda>r.
        if r \<noteq> 0 then cret None
        else if has_option flags PHP_STREAM_URL_STAT_LINK then xread (f_lstat F url)
        else xread (f_stat F url)))"

definition warn_errno :: "'w filesystem \<Rightarrow> 'a \<Rightarrow> ('w, 'a) php" where
  "warn_errno F r = cbind (xread (f_strerror F)) (\<lambda>msg. cseq (php_error_docref E_WARNING msg) (cret r))"

definition php_plain_files_unlink :: "'w externals \<Rightarrow> 'w filesystem \<Rightarrow> string \<Rightarrow> uint \<Rightarrow> ('w, int) php" where
  "php_plain_files_unlink E F url options =
     (let url = strip_file_scheme url in
      cbind (php_check_open_basedir E url) (\<lambda>r.
        if r \<noteq> 0 then cret 0
        else
          cbind (xcall (f_unlink F url)) (\<lambda>failed.
            if failed then (if has_option options REPORT_ERRORS then warn_errno F 0 else cret 0)
            else cseq (xdo (f_clear_stat_cache F True)) (cret 1))))"

text \<open>After \<open>chmod\<close> or \<open>chown\<close> of the copy failed: the source is removed anyway on \<open>EPERM\<close>.\<close>

definition rename_restricted :: "'w filesystem \<Rightarrow> string \<Rightarrow> ('w, int) php" where
  "rename_restricted F url_from =
     cbind (xread (f_errno F)) (\<lambda>errno.
       if errno = EPERM
       then cseq (warn_errno F ()) (cseq (xcall (f_unlink F url_from)) (cret 1))
       else warn_errno F 0)"

text \<open>Renaming across file systems: copy, restore mode and owner, remove the source.\<close>

definition rename_by_copy :: "'w filesystem \<Rightarrow> string \<Rightarrow> string \<Rightarrow> ('w, int) php" where
  "rename_by_copy F url_from url_to =
     cbind (xcall (f_copy_file F url_from url_to)) (\<lambda>r.
       if r \<noteq> SUCCESS then warn_errno F 0
       else
         cbind (xread (f_stat F url_from)) (\<lambda>sb.
         case sb of
           None \<Rightarrow> warn_errno F 0
         | Some sb \<Rightarrow>
             cbind (xcall (f_chmod F url_to (st_mode sb))) (\<lambda>failed.
               if failed then rename_restricted F url_from
               else
                 cbind (xcall (f_chown F url_to (st_uid sb) (st_gid sb))) (\<lambda>failed.
                   if failed then rename_restricted F url_from
                   else cseq (xcall (f_unlink F url_from)) (cret 1)))))"

definition php_plain_files_rename ::
  "'w externals \<Rightarrow> 'w filesystem \<Rightarrow> string option \<Rightarrow> string option \<Rightarrow> ('w, int) php" where
  "php_plain_files_rename E F url_from url_to =
     (case (url_from, url_to) of
        (Some url_from, Some url_to) \<Rightarrow>
          (let url_from = strip_file_scheme url_from; url_to = strip_file_scheme url_to in
           cbind (php_check_open_basedir E url_from) (\<lambda>r.
             if r \<noteq> 0 then cret 0
             else
               cbind (php_check_open_basedir E url_to) (\<lambda>r.
                 if r \<noteq> 0 then cret 0
                 else
                   cbind (xcall (f_rename F url_from url_to)) (\<lambda>failed.
                     if failed then
                       cbind (xread (f_errno F)) (\<lambda>errno.
                         if errno = EXDEV then rename_by_copy F url_from url_to else warn_errno F 0)
                     else cseq (xdo (f_clear_stat_cache F True)) (cret 1)))))
      | _ \<Rightarrow> cret 0)"

definition php_plain_files_rmdir :: "'w externals \<Rightarrow> 'w filesystem \<Rightarrow> string \<Rightarrow> ('w, int) php" where
  "php_plain_files_rmdir E F url =
     (let url = strip_file_scheme url in
      cbind (php_check_open_basedir E url) (\<lambda>r.
        if r \<noteq> 0 then cret 0
        else
          cbind (xcall (f_rmdir F url)) (\<lambda>failed.
            if failed then warn_errno F 0
            else cseq (xdo (f_clear_stat_cache F True)) (cret 1))))"

text \<open>The option of \<open>stream_metadata\<close> with its value.\<close>

datatype stream_meta =
  META_TOUCH "(int \<times> int) option" | META_OWNER_NAME string | META_OWNER int
| META_GROUP_NAME string | META_GROUP int | META_ACCESS int | META_UNKNOWN int

definition meta_touch :: "'w filesystem \<Rightarrow> string \<Rightarrow> (int \<times> int) option \<Rightarrow> ('w, bool option) php" where
  "meta_touch F url newtime =
     cbind (xread (f_access F url)) (\<lambda>exists.
     cbind (if exists then cret True
            else
              cbind (xcall (f_fopen_w F url)) (\<lambda>file_handle.
              case file_handle of
                None \<Rightarrow>
                  cbind (xread (f_strerror F)) (\<lambda>msg.
                    cseq (php_error_docref E_WARNING (vsprintf ''Unable to create file %s because %s'' [FStr url, FStr msg]))
                         (cret False))
              | Some h \<Rightarrow> cseq (xdo (f_fclose F h)) (cret True))) (\<lambda>ok.
       if ok then cbind (xcall (f_utime F url newtime)) (\<lambda>failed. cret (Some failed)) else cret None))"

text \<open>\<open>None\<close>: the function has already returned 0; otherwise whether the system call failed.\<close>

definition meta_change :: "'w filesystem \<Rightarrow> string \<Rightarrow> stream_meta \<Rightarrow> ('w, bool option) php" where
  "meta_change F url opt =
     (case opt of
        META_TOUCH newtime \<Rightarrow> meta_touch F url newtime
      | META_OWNER_NAME name \<Rightarrow>
          cbind (xread (f_uid_by_name F name)) (\<lambda>uid.
          case uid of
            None \<Rightarrow> cseq (php_error_docref E_WARNING (vsprintf ''Unable to find uid for %s'' [FStr name])) (cret None)
          | Some uid \<Rightarrow> cbind (xcall (f_chown F url uid (-1))) (\<lambda>failed. cret (Some failed)))
      | META_OWNER uid \<Rightarrow> cbind (xcall (f_chown F url (word_of_int uid) (-1))) (\<lambda>failed. cret (Some failed))
      | META_GROUP_NAME name \<Rightarrow>
          cbind (xread (f_gid_by_name F name)) (\<lambda>gid.
          case gid of
            None \<Rightarrow> cseq (php_error_docref E_WARNING (vsprintf ''Unable to find gid for %s'' [FStr name])) (cret None)
          | Some gid \<Rightarrow> cbind (xcall (f_chown F url (-1) gid)) (\<lambda>failed. cret (Some failed)))
      | META_GROUP gid \<Rightarrow> cbind (xcall (f_chown F url (-1) (word_of_int gid))) (\<lambda>failed. cret (Some failed))
      | META_ACCESS mode \<Rightarrow> cbind (xcall (f_chmod F url (word_of_int mode))) (\<lambda>failed. cret (Some failed))
      | META_UNKNOWN n \<Rightarrow>
          cseq (php_error_docref E_WARNING (vsprintf ''Unknown option %d for stream_metadata'' [FInt n])) (cret None))"

definition php_plain_files_metadata :: "'w externals \<Rightarrow> 'w filesystem \<Rightarrow> string \<Rightarrow> stream_meta \<Rightarrow> ('w, int) php" where
  "php_plain_files_metadata E F url opt =
     (let url = strip_file_scheme url in
      cbind (php_check_open_basedir E url) (\<lambda>r.
        if r \<noteq> 0 then cret 0
        else
          cbind (meta_change F url opt) (\<lambda>ret.
          case ret of
            None \<Rightarrow> cret 0
          | Some failed \<Rightarrow>
              if failed then
                cbind (xread (f_strerror F)) (\<lambda>msg.
                  cseq (php_error_docref E_WARNING (vsprintf ''Operation failed: %s'' [FStr msg])) (cret 0))
              else cseq (xdo (f_clear_stat_cache F False)) (cret 1))))"

section \<open>Creating directories\<close>

definition php_mkdir :: "'w externals \<Rightarrow> 'w filesystem \<Rightarrow> string \<Rightarrow> int \<Rightarrow> ('w, int) php" where
  "php_mkdir E F dir mode =
     cbind (php_check_open_basedir E dir) (\<lambda>r.
       if r \<noteq> 0 then cret (-1)
       else cbind (xcall (f_mkdir F dir (word_of_int mode))) (\<lambda>failed.
              if failed then warn_errno F (-1) else cret 0))"

text \<open>
  The recursive case works in a buffer that holds the path and its NUL; \<open>buf_string buf i\<close> is the C string
  at \<open>buf + i\<close>.
\<close>

definition buf_string :: "string \<Rightarrow> nat \<Rightarrow> string" where
  "buf_string buf i = takeWhile (\<lambda>c. c \<noteq> NUL) (drop i buf)"

text \<open>\<open>while (p > buf && *(p-1) == DEFAULT_SLASH)\<close>: the buffer, \<open>p\<close> and \<open>n\<close> afterwards.\<close>

fun cut_slashes :: "string \<Rightarrow> nat \<Rightarrow> nat \<Rightarrow> string \<times> nat \<times> nat" where
  "cut_slashes buf 0 n = (buf, 0, n)"
| "cut_slashes buf (Suc p) n =
     (if buf ! p = CHR ''/'' then cut_slashes (buf[p := NUL]) p (Suc n) else (buf, Suc p, n))"

text \<open>The loop that writes the slashes back.\<close>

fun restore_slashes :: "string \<Rightarrow> nat \<Rightarrow> nat \<Rightarrow> string" where
  "restore_slashes buf p 0 = buf[p := CHR ''/'']"
| "restore_slashes buf p (Suc n) = restore_slashes (buf[p := CHR ''/'']) (Suc p) n"

definition last_slash :: "string \<Rightarrow> nat \<Rightarrow> nat option" where
  "last_slash buf offset =
     (case strrchr (buf_string buf offset) (CHR ''/'') of
        Some i \<Rightarrow> Some (offset + i)
      | None \<Rightarrow> if offset \<noteq> 1 then strrchr (buf_string buf 0) (CHR ''/'') else None)"

definition slash_count :: "string \<Rightarrow> nat" where
  "slash_count buf = length (filter (\<lambda>c. c = CHR ''/'') buf)"

lemma slash_count_cut: "i < length buf \<Longrightarrow> buf ! i = CHR ''/'' \<Longrightarrow> slash_count (buf[i := NUL]) < slash_count buf"
proof (induction buf arbitrary: i)
  case (Cons c buf)
  then show ?case by (cases i) (auto simp: slash_count_def NUL_def)
qed simp

lemma slash_count_le: "slash_count (buf[i := NUL]) \<le> slash_count buf"
proof (induction buf arbitrary: i)
  case (Cons c buf)
  then show ?case by (cases i) (auto simp: slash_count_def NUL_def le_SucI)
qed (simp add: slash_count_def)

lemma slash_count_cut_slashes: "slash_count (fst (cut_slashes buf p n)) \<le> slash_count buf"
  by (induction buf p n rule: cut_slashes.induct) (auto intro: order_trans [OF _ slash_count_le])

lemma buf_string_nth:
  assumes "strrchr (buf_string buf k) c = Some i"
  shows "k + i < length buf \<and> buf ! (k + i) = c"
proof -
  have i: "i < length (buf_string buf k)" "buf_string buf k ! i = c" using strrchr_Some [OF assms] by auto
  have "length (buf_string buf k) \<le> length (drop k buf)" unfolding buf_string_def by (rule length_takeWhile_le)
  with i have "i < length (drop k buf)" by simp
  moreover have "buf_string buf k ! i = drop k buf ! i"
    using i(1) takeWhile_nth unfolding buf_string_def by metis
  ultimately show ?thesis using i(2) by simp
qed

lemma last_slash_nth: "last_slash buf offset = Some p \<Longrightarrow> p < length buf \<and> buf ! p = CHR ''/''"
  using buf_string_nth [of buf offset] buf_string_nth [of buf 0]
  by (auto simp: last_slash_def split: option.splits if_splits)

lemma find_top_decreases:
  assumes "last_slash buf k = Some p" "(buf', y) = cut_slashes (buf[p := NUL]) p 0"
  shows "slash_count buf' < slash_count buf"
proof -
  have "slash_count buf' \<le> slash_count (buf[p := NUL])"
    using slash_count_cut_slashes [of "buf[p := NUL]" p 0] assms(2) by (metis fst_conv)
  also have "\<dots> < slash_count buf" using last_slash_nth [OF assms(1)] slash_count_cut by blast
  finally show ?thesis .
qed

text \<open>The first loop: the buffer ends below the nearest existing directory, \<open>p\<close> at the slash after it.\<close>

function find_top :: "(string \<Rightarrow> bool) \<Rightarrow> string \<Rightarrow> nat \<Rightarrow> string \<times> nat option" where
  "find_top exists buf offset =
     (case last_slash buf offset of
        None \<Rightarrow> (buf, None)
      | Some p \<Rightarrow>
          (case cut_slashes (buf[p := NUL]) p 0 of
             (buf', p', n) \<Rightarrow>
               if exists (buf_string buf' 0) then (restore_slashes buf' p' n, Some (p' + n))
               else find_top exists buf' offset))"
  by pat_completeness auto
termination
  by (relation "measure (\<lambda>(e, buf, k). slash_count buf)") (auto intro: find_top_decreases)

declare find_top.simps [simp del]

text \<open>The second loop, for the values of \<open>p\<close> that are left; the result is \<open>ret\<close>.\<close>

fun create_below :: "'w filesystem \<Rightarrow> int \<Rightarrow> uint \<Rightarrow> string \<Rightarrow> nat list \<Rightarrow> ('w, int) php" where
  "create_below F mode options buf [] = cret 0"
| "create_below F mode options buf (p # ps) =
     (if buf ! p = NUL then
        (let buf = buf[p := CHR ''/''] in
         if buf ! (p + 1) \<noteq> NUL then
           cbind (xcall (f_mkdir F (buf_string buf 0) (word_of_int mode))) (\<lambda>failed.
             if failed then (if has_option options REPORT_ERRORS then warn_errno F (-1) else cret (-1))
             else create_below F mode options buf ps)
         else create_below F mode options buf ps)
      else create_below F mode options buf ps)"

definition mkdir_recursive ::
  "'w externals \<Rightarrow> 'w filesystem \<Rightarrow> string \<Rightarrow> int \<Rightarrow> uint \<Rightarrow> string \<Rightarrow> ('w, int) php" where
  "mkdir_recursive E F dir mode options path =
     (let buf = path @ [NUL]; e = length path; slash = strchr (take (length dir) buf) (CHR ''/'');
          offset = (case slash of None \<Rightarrow> 0 | Some i \<Rightarrow> i + 1)
      in if slash = None \<and> length buf < length dir then cundef
         else
           cbind (xread (\<lambda>w.
                    if slash \<noteq> None \<and> length dir = 1 then (buf, slash)
                    else find_top (\<lambda>d. f_stat F d w \<noteq> None) buf offset)) (\<lambda>(buf, p).
             if p = Some 0 then php_mkdir E F dir mode
             else
               cbind (php_mkdir E F (buf_string buf 0) mode) (\<lambda>ret.
                 if ret \<noteq> 0 then cret ret
                 else
                   (let p = (case p of None \<Rightarrow> 0 | Some p \<Rightarrow> p) in
                    if e \<le> p then cundef else create_below F mode options buf [Suc p..<e]))))"

definition PHP_STREAM_MKDIR_RECURSIVE :: uint where "PHP_STREAM_MKDIR_RECURSIVE = 1"

definition php_plain_files_mkdir ::
  "'w externals \<Rightarrow> 'w filesystem \<Rightarrow> string \<Rightarrow> int \<Rightarrow> uint \<Rightarrow> ('w, int) php" where
  "php_plain_files_mkdir E F dir mode options =
     (let dir = strip_file_scheme dir in
      if \<not> has_option options PHP_STREAM_MKDIR_RECURSIVE then
        cbind (php_mkdir E F dir mode) (\<lambda>ret. cret (if ret < 0 then 0 else 1))
      else
        cbind (xread (f_expand F dir)) (\<lambda>path.
        case path of
          None \<Rightarrow> cseq (php_error_docref E_WARNING ''Invalid path'') (cret 0)
        | Some path \<Rightarrow>
            cbind (mkdir_recursive E F dir mode options path) (\<lambda>ret. cret (if ret < 0 then 0 else 1))))"

section \<open>Searching a path\<close>

text \<open>The directory list, with the directory of the running script appended.\<close>

definition search_path :: "string option \<Rightarrow> string \<Rightarrow> string" where
  "search_path exec_fname path =
     (case exec_fname of
        None \<Rightarrow> path
      | Some exec \<Rightarrow>
          (case strrchr exec (CHR ''/'') of
             None \<Rightarrow> path
           | Some i \<Rightarrow> if cstr_at exec 0 = CHR ''['' \<or> i = 0 then path else path @ '':'' @ take i exec))"

function try_paths ::
  "'w externals \<Rightarrow> 'w filesystem \<Rightarrow> frame list \<Rightarrow> string \<Rightarrow> string \<Rightarrow> string \<Rightarrow> uint
     \<Rightarrow> ('w, (php_stream \<times> string) option) php" where
  "try_paths E F backtrace ptr filename mode options =
     (if ptr = [] then cret None
      else
        (let sep = strchr ptr (CHR '':'');
             part = (case sep of None \<Rightarrow> ptr | Some i \<Rightarrow> take i ptr);
             full = part @ ''/'' @ filename; trypath = take (MAXPATHLEN - 1) full;
             next_part = (case sep of None \<Rightarrow> cret None | Some i \<Rightarrow> try_paths E F backtrace (drop (Suc i) ptr) filename mode options)
         in if part = [] then next_part
            else
              cseq (if MAXPATHLEN \<le> length full
                    then php_error_docref E_NOTICE (vsprintf ''%s/%s path was truncated to %d''
                           [FStr part, FStr filename, FInt (int MAXPATHLEN)])
                    else cret ())
              (cbind (if has_option options STREAM_DISABLE_OPEN_BASEDIR then cret 0
                      else php_check_open_basedir_ex E trypath False) (\<lambda>r.
                 if r \<noteq> 0 then next_part
                 else
                   cbind (php_stream_fopen E F backtrace trypath mode options) (\<lambda>stream.
                     if stream \<noteq> None then cret stream else next_part)))))"
  by pat_completeness auto
termination
  by (relation "measure (\<lambda>(E, F, b, ptr, rest). length ptr)") auto

declare try_paths.simps [simp del]

text \<open>\<open>filename\<close> starts with a dot and another dot or a slash, and the dots are followed by a slash.\<close>

definition relative_name :: "string \<Rightarrow> bool" where
  "relative_name filename \<longleftrightarrow>
     cstr_at filename 0 = CHR ''.'' \<and>
     (cstr_at filename 1 = CHR ''/'' \<or>
      cstr_at filename 1 = CHR ''.'' \<and> cstr_at (dropWhile (\<lambda>c. c = CHR ''.'') filename) 0 = CHR ''/'')"

definition php_stream_fopen_with_path ::
  "'w externals \<Rightarrow> 'w filesystem \<Rightarrow> frame list \<Rightarrow> string option \<Rightarrow> string option \<Rightarrow> string \<Rightarrow> string option \<Rightarrow> uint
     \<Rightarrow> ('w, (php_stream \<times> string) option) php" where
  "php_stream_fopen_with_path E F backtrace exec_fname filename mode path options =
     (case filename of
        None \<Rightarrow> cret None
      | Some filename \<Rightarrow>
          if relative_name filename \<or> cstr_at filename 0 = CHR ''/'' then
            php_plain_files_stream_opener E F backtrace filename mode options
          else
            (case path of
               None \<Rightarrow> php_stream_fopen E F backtrace filename mode options
             | Some path \<Rightarrow>
                 if path = [] then php_stream_fopen E F backtrace filename mode options
                 else try_paths E F backtrace (search_path exec_fname path) filename mode options))"

end
