(* ===== verification/Plain_Wrapper_Correct.thy ===== *)
theory Plain_Wrapper_Correct
  imports Plain_Wrapper
begin

text \<open>
  Properties of the plain-files wrapper: which files can be included and written, that every operation
  refuses a path outside \<open>open_basedir\<close> without touching the system, and where recursive directory
  creation works.
\<close>

unbundle bit_operations_syntax

section \<open>A concrete file system\<close>

text \<open>Every call succeeds and is logged.\<close>

definition log_call :: "string \<Rightarrow> string \<Rightarrow> sample_world \<Rightarrow> sample_world" where
  "log_call name path w = w\<lparr>sw_log := sw_log w @ [name @ path]\<rparr>"

definition sample_fs :: "sample_world filesystem" where
  "sample_fs =
     \<lparr> f_open = (\<lambda>p fl m w. (Some 5, log_call ''open '' p w)), f_close = (\<lambda>h w. w),
       f_fstat = (\<lambda>h w. Some \<lparr>st_mode = 0x81A4, st_uid = 33, st_gid = 33\<rparr>), f_lseek = (\<lambda>h w. (0, w)),
       f_stat = (\<lambda>p w. if p = ''/srv'' then Some \<lparr>st_mode = 0x41ED, st_uid = 33, st_gid = 33\<rparr> else None),
       f_lstat = (\<lambda>p w. None), f_opendir = (\<lambda>p w. (Some 6, log_call ''opendir '' p w)),
       f_unlink = (\<lambda>p w. (False, log_call ''unlink '' p w)),
       f_rename = (\<lambda>p q w. (False, log_call (''rename '' @ p @ '' '') q w)),
       f_mkdir = (\<lambda>p m w. (False, log_call ''mkdir '' p w)), f_rmdir = (\<lambda>p w. (False, log_call ''rmdir '' p w)),
       f_chmod = (\<lambda>p m w. (False, w)), f_chown = (\<lambda>p u g w. (False, w)), f_utime = (\<lambda>p v w. (False, w)),
       f_access = (\<lambda>p w. True), f_fopen_w = (\<lambda>p w. (Some 7, log_call ''create '' p w)), f_fclose = (\<lambda>h w. w),
       f_errno = (\<lambda>w. 0), f_strerror = (\<lambda>w. ''Success''), f_uid_by_name = (\<lambda>n w. Some 33), f_gid_by_name = (\<lambda>n w. Some 33),
       f_expand = (\<lambda>p w. if p = [] then None else Some p), f_copy_file = (\<lambda>p q w. (SUCCESS, w)),
       f_clear_stat_cache = (\<lambda>b w. w), f_persistent_stream = (\<lambda>i w. (PERSISTENT_NOT_EXIST, w)),
       f_stream_alloc = (\<lambda>st w. w), f_stream_close = (\<lambda>st w. w), f_glob_opener = (\<lambda>p m opt w. (None, w)) \<rparr>"

section \<open>Tests that change nothing\<close>

lemma trusted_code_dir_state: "is_in_trusted_code_dir f s = (Ret r, s') \<Longrightarrow> s' = s"
  by (simp add: is_in_trusted_code_dir_def cget_def)

lemma upload_dir_state: "is_in_upload_dir f s = (Ret r, s') \<Longrightarrow> s' = s"
  by (auto simp: is_in_upload_dir_def cbind_def cget_def Let_def app_root_path_eq
      split: option.splits if_splits prod.splits outcome.splits)

lemma trusted_frames_SUCCESS:
  "trusted_frames fs s = (Ret SUCCESS, s') \<Longrightarrow>
    s' = s \<and> (\<forall>f line. Some (f, line) \<in> set fs \<longrightarrow> is_in_trusted_code_dir f s = (Ret SUCCESS, s))"
proof (induction fs rule: trusted_frames.induct)
  case (3 f line fs)
  then obtain r u where r: "is_in_trusted_code_dir f s = (Ret r, u)"
    and k: "(if r \<noteq> SUCCESS then cseq (php_error_docref E_WARNING (vsprintf ''Access violation from untrusted PHP code: file %s, line %ld''
        [FStr f, FInt line])) (cret FAILURE) else trusted_frames fs) u = (Ret SUCCESS, s')"
    by (auto elim!: cbind_RetE simp del: vsprintf.simps)
  then have "u = s" "r = SUCCESS" using trusted_code_dir_state by (auto split: if_splits)
  with r k 3 show ?case by auto
qed auto

section \<open>Including and writing\<close>

lemma include_allowed_True:
  assumes "include_allowed E p s = (Ret True, s')"
  shows "s' = s \<and> php_extension p \<and> (\<exists>q. x_expand_filepath E (world s) p = Some q \<and> is_in_upload_dir q s = (Ret FAILURE, s))"
proof -
  have ext: "php_extension p" using assms by (auto simp: include_allowed_def split: if_splits)
  obtain q where q: "x_expand_filepath E (world s) p = Some q"
    using assms ext by (cases "x_expand_filepath E (world s) p") (auto simp: include_allowed_def cbind_def xread_def)
  from assms ext q obtain r u where r: "is_in_upload_dir q s = (Ret r, u)" "r \<noteq> SUCCESS" "s' = u"
    by (auto simp: include_allowed_def elim!: cbind_RetE split: if_splits)
  then have "u = s" "r = FAILURE" using upload_dir_state by (auto, cases r) auto
  with ext q r show ?thesis by auto
qed

lemma write_allowed_True:
  assumes "write_allowed bt p s = (Ret True, s')"
  shows "s' = s \<and> (php_extension p \<longrightarrow> bt \<noteq> [] \<and>
    (\<forall>f line. Some (f, line) \<in> set bt \<longrightarrow> is_in_trusted_code_dir f s = (Ret SUCCESS, s)))"
proof (cases "php_extension p")
  case False
  with assms show ?thesis by (simp add: write_allowed_def)
next
  case True
  with assms obtain u where "is_in_trusted_php_code bt s = (Ret SUCCESS, u)" "s' = u"
    by (auto simp: write_allowed_def elim!: cbind_RetE split: if_splits)
  with trusted_frames_SUCCESS [of bt s u] show ?thesis
    by (auto simp: is_in_trusted_php_code_def cundef_def split: if_splits)
qed

lemma open_realpath_Some:
  assumes "open_realpath F p mode flags pid options s = (Ret (Some (st, opened)), s')"
  shows "opened = p \<and> fst (f_open F p flags 438 (world s)) \<noteq> None"
  using assms
  by (auto simp: open_realpath_def xcall_bind xdo_def elim!: cbind_RetE split: prod.splits option.splits if_splits)

lemma checked_open_Some:
  assumes "checked_open E F bt p mode flags pid options s = (Ret (Some (st, opened)), s')"
  shows "opened = p \<and> fst (f_open F p flags 438 (world s)) \<noteq> None
    \<and> (has_option options STREAM_OPEN_FOR_INCLUDE \<longrightarrow>
        php_extension p \<and> (\<exists>q. x_expand_filepath E (world s) p = Some q \<and> is_in_upload_dir q s = (Ret FAILURE, s)))
    \<and> (flags \<noteq> 0 \<and> php_extension p \<longrightarrow> bt \<noteq> [] \<and>
        (\<forall>f line. Some (f, line) \<in> set bt \<longrightarrow> is_in_trusted_code_dir f s = (Ret SUCCESS, s)))"
proof -
  obtain ok s1 where 1: "(if has_option options STREAM_OPEN_FOR_INCLUDE then include_allowed E p else cret True) s = (Ret ok, s1)"
    and k1: "(if \<not> ok then cret None else cbind (if flags \<noteq> 0 then write_allowed bt p else cret True) (\<lambda>ok.
           if \<not> ok then cret None else open_realpath F p mode flags pid options)) s1 = (Ret (Some (st, opened)), s')"
    using assms unfolding checked_open_def by (rule cbind_RetE)
  then have ok: "ok" by (auto split: if_splits)
  have s1: "s1 = s" using 1 ok include_allowed_True [of E p s s1] by (auto split: if_splits)
  from k1 ok obtain ok2 s2 where 2: "(if flags \<noteq> 0 then write_allowed bt p else cret True) s = (Ret ok2, s2)"
    and k2: "(if \<not> ok2 then cret None else open_realpath F p mode flags pid options) s2 = (Ret (Some (st, opened)), s')"
    by (auto simp: s1 elim!: cbind_RetE)
  then have ok2: "ok2" by (auto split: if_splits)
  have s2: "s2 = s" using 2 ok2 write_allowed_True [of bt p s s2] by (auto split: if_splits)
  show ?thesis
    using 1 2 ok ok2 s1 s2 include_allowed_True [of E p s s1] write_allowed_True [of bt p s s2]
      open_realpath_Some [of F p mode flags pid options s st opened s'] k2
    by (auto split: if_splits)
qed



text \<open>
  Which modes count as writing: the flags of a valid mode are zero exactly when the mode starts with
  \<open>r\<close> and has neither a plus nor the non-blocking \<open>n\<close>, and the file may then not be created, truncated or written.
\<close>

theorem fopen_modes_read_only:
  assumes "php_stream_parse_fopen_modes mode = Some flags"
  shows "(flags = 0 \<longleftrightarrow> cstr_at mode 0 = CHR ''r'' \<and> CHR ''+'' \<notin> set mode \<and> CHR ''n'' \<notin> set mode)
    \<and> (cstr_at mode 0 \<noteq> CHR ''r'' \<longrightarrow> flags AND O_CREAT = O_CREAT)
    \<and> (flags AND 3 = O_RDWR \<longleftrightarrow> CHR ''+'' \<in> set mode)"
  using assms
  by (auto simp: php_stream_parse_fopen_modes_def Let_def open_flag_defs strchr_None split: if_splits option.splits)

section \<open>Paths outside the allowed directories\<close>

text \<open>The restriction in force: path resolution is sane and the list of directories is \<open>dirs\<close>.\<close>

definition confined :: "'w externals \<Rightarrow> string \<Rightarrow> 'w php_state \<Rightarrow> bool" where
  "confined E dirs s \<longleftrightarrow>
     resolver_ok E (world s) \<and> open_basedir s = Some dirs \<and> dirs \<noteq> []"

definition allows :: "'w externals \<Rightarrow> string \<Rightarrow> 'w php_state \<Rightarrow> string \<Rightarrow> bool" where
  "allows E dirs s path \<longleftrightarrow> length path < MAXPATHLEN \<and> dirs_allow E (world s) dirs path"

definition refuses :: "('w, 'r) php \<Rightarrow> 'r \<Rightarrow> 'w php_state \<Rightarrow> bool" where
  "refuses m r s \<longleftrightarrow> (\<exists>msgs. m s = (Ret r, s\<lparr>errors := errors s @ msgs\<rparr>))"

lemma errors_update_self: "s\<lparr>errors := errors s\<rparr> = s"
  by simp

lemma check_result:
  assumes "confined E dirs s"
  obtains msgs where "php_check_open_basedir_ex E path warn s
    = (Ret (if allows E dirs s path then 0 else -1), s\<lparr>errors := errors s @ msgs\<rparr>)"
proof (cases "length path < MAXPATHLEN")
  case True
  have loop: "basedir_loop E (world s) dirs path = Ret (if dirs_allow E (world s) dirs path then 0 else -1)"
    using assms True by (intro basedir_loop_eq) (auto simp: confined_def)
  show thesis
  proof (cases "allows E dirs s path \<or> \<not> warn")
    case True
    with loop assms \<open>length path < MAXPATHLEN\<close> show thesis
      by (intro that [of "[]"]) (auto simp: php_check_open_basedir_ex_def confined_def allows_def)
  next
    case False
    with loop assms \<open>length path < MAXPATHLEN\<close> show thesis
      by (intro that [of "[(E_WARNING, vsprintf ''open_basedir restriction in effect. File(%s) is not within the allowed path(s): (%s)''
            [FStr path, FStr dirs])]"])
        (auto simp: php_check_open_basedir_ex_def confined_def allows_def)
  qed
next
  case False
  then have "MAXPATHLEN - 1 < length path" by (simp add: MAXPATHLEN_def)
  with False assms that show thesis
    by (auto simp: php_check_open_basedir_ex_def confined_def allows_def)
qed

text \<open>
  The contract of an operation that is guarded by the restriction: when the test of its path fails, the
  operation ends at once with its failure value. \<open>enabled\<close> says whether the caller left the test on.
\<close>

locale guarded_operation =
  fixes E :: "'w externals" and target :: "string \<Rightarrow> string" and operation :: "string \<Rightarrow> ('w, 'r) php"
    and warn :: bool and enabled :: bool and refusal :: 'r
  assumes guarded: "enabled \<Longrightarrow> php_check_open_basedir_ex E (target p) warn s = (Ret r, s1) \<Longrightarrow> r \<noteq> 0 \<Longrightarrow>
    operation p s = (Ret refusal, s1)"
begin

lemma outside_refused:
  assumes "enabled" "confined E dirs s" "\<not> allows E dirs s (target p)"
  shows "refuses (operation p) refusal s"
proof -
  obtain msgs where "php_check_open_basedir_ex E (target p) warn s = (Ret (-1), s\<lparr>errors := errors s @ msgs\<rparr>)"
    using check_result [OF assms(2), of "target p" warn] assms(3) by auto
  from guarded [OF assms(1) this] show ?thesis by (auto simp: refuses_def)
qed

end

interpretation stream_opener: guarded_operation E id
  "\<lambda>p. php_plain_files_stream_opener E F bt p mode options" True "\<not> has_option options STREAM_DISABLE_OPEN_BASEDIR" None
  for E :: "'w externals" and F bt mode options
  by unfold_locales (simp add: php_plain_files_stream_opener_def php_check_open_basedir_def cbind_Ret Let_def)

interpretation dir_opener: guarded_operation E id "\<lambda>p. php_plain_files_dir_opener E F p mode options" True
  "\<not> has_option options STREAM_DISABLE_OPEN_BASEDIR \<and> \<not> has_option options STREAM_USE_GLOB_DIR_OPEN" None
  for E :: "'w externals" and F mode options
  by unfold_locales (simp add: php_plain_files_dir_opener_def php_check_open_basedir_def cbind_Ret Let_def)

interpretation url_stater: guarded_operation E strip_file_scheme "\<lambda>p. php_plain_files_url_stater E F p flags"
  "\<not> has_option flags PHP_STREAM_URL_STAT_QUIET" True None
  for E :: "'w externals" and F flags
  by unfold_locales (simp add: php_plain_files_url_stater_def cbind_Ret Let_def)

interpretation unlink: guarded_operation E strip_file_scheme "\<lambda>p. php_plain_files_unlink E F p options" True True 0
  for E :: "'w externals" and F options
  by unfold_locales (simp add: php_plain_files_unlink_def php_check_open_basedir_def cbind_Ret Let_def)

interpretation rename_from: guarded_operation E strip_file_scheme "\<lambda>p. php_plain_files_rename E F (Some p) (Some q)" True True 0
  for E :: "'w externals" and F q
  by unfold_locales (simp add: php_plain_files_rename_def php_check_open_basedir_def cbind_Ret Let_def)

interpretation rmdir: guarded_operation E strip_file_scheme "\<lambda>p. php_plain_files_rmdir E F p" True True 0
  for E :: "'w externals" and F
  by unfold_locales (simp add: php_plain_files_rmdir_def php_check_open_basedir_def cbind_Ret Let_def)

interpretation metadata: guarded_operation E strip_file_scheme "\<lambda>p. php_plain_files_metadata E F p opt" True True 0
  for E :: "'w externals" and F opt
  by unfold_locales (simp add: php_plain_files_metadata_def php_check_open_basedir_def cbind_Ret Let_def)

interpretation mkdir_once: guarded_operation E strip_file_scheme "\<lambda>p. php_plain_files_mkdir E F p mode options" True
  "\<not> has_option options PHP_STREAM_MKDIR_RECURSIVE" 0
  for E :: "'w externals" and F mode options
  by unfold_locales (simp add: php_plain_files_mkdir_def php_mkdir_def php_check_open_basedir_def cbind_Ret cbind_assoc Let_def)

lemma rename_to_refused:
  assumes c: "confined E dirs s" and q: "\<not> allows E dirs s (strip_file_scheme q)"
  shows "refuses (php_plain_files_rename E F (Some p) (Some q)) 0 s"
proof (cases "allows E dirs s (strip_file_scheme p)")
  case False
  with rename_from.outside_refused [OF _ c] show ?thesis by simp
next
  case True
  then obtain msgs where 1: "php_check_open_basedir_ex E (strip_file_scheme p) True s = (Ret 0, s\<lparr>errors := errors s @ msgs\<rparr>)"
    using check_result [OF c, of "strip_file_scheme p" True] by auto
  let ?s = "s\<lparr>errors := errors s @ msgs\<rparr>"
  have "confined E dirs ?s" "\<not> allows E dirs ?s (strip_file_scheme q)" using c q by (simp_all add: confined_def allows_def)
  then obtain more where "php_check_open_basedir_ex E (strip_file_scheme q) True ?s = (Ret (-1), ?s\<lparr>errors := errors ?s @ more\<rparr>)"
    using check_result [of E dirs ?s "strip_file_scheme q" True] by auto
  with 1 have "php_plain_files_rename E F (Some p) (Some q) s = (Ret 0, s\<lparr>errors := errors s @ msgs @ more\<rparr>)"
    by (simp add: php_plain_files_rename_def php_check_open_basedir_def cbind_def Let_def)
  then show ?thesis by (auto simp: refuses_def)
qed



text \<open>
  (C33) Renaming is not subject to the rule for \<open>.php\<close> files: for two allowed paths the call is made and its
  success reported whatever the new name ends in; neither the call stack nor the upload directory is looked
  at. A script can therefore write a file under another name and rename it to one that can be executed.
\<close>

theorem rename_ignores_php_rule:
  assumes "confined E dirs s" "allows E dirs s (strip_file_scheme p)" "allows E dirs s (strip_file_scheme q)"
    and "f_rename F (strip_file_scheme p) (strip_file_scheme q) (world s) = (False, w)"
  shows "\<exists>msgs. php_plain_files_rename E F (Some p) (Some q) s
    = (Ret 1, s\<lparr>errors := errors s @ msgs, world := f_clear_stat_cache F True w\<rparr>)"
proof -
  obtain msgs where 1: "php_check_open_basedir_ex E (strip_file_scheme p) True s = (Ret 0, s\<lparr>errors := errors s @ msgs\<rparr>)"
    using check_result [OF assms(1), of "strip_file_scheme p" True] assms(2) by auto
  let ?s = "s\<lparr>errors := errors s @ msgs\<rparr>"
  have "confined E dirs ?s" "allows E dirs ?s (strip_file_scheme q)"
    using assms(1,3) by (simp_all add: confined_def allows_def)
  then obtain more where "php_check_open_basedir_ex E (strip_file_scheme q) True ?s = (Ret 0, ?s\<lparr>errors := errors ?s @ more\<rparr>)"
    using check_result [of E dirs ?s "strip_file_scheme q" True] by auto
  with 1 assms(4) show ?thesis
    by (intro exI [of _ "msgs @ more"])
      (simp add: php_plain_files_rename_def php_check_open_basedir_def cbind_def Let_def xcall_def xdo_def)
qed

theorem rename_ignores_php_rule_witness:
  "\<exists>msgs w. php_plain_files_rename sample_ext sample_fs (Some ''/srv/app/x'') (Some ''/srv/app/x.php'')
      (sample_state\<lparr>open_basedir := Some ''/srv/app''\<rparr>)
    = (Ret 1, sample_state\<lparr>open_basedir := Some ''/srv/app'', errors := msgs, world := w\<rparr>)"
proof -
  let ?s = "sample_state\<lparr>open_basedir := Some ''/srv/app''\<rparr>"
  have c: "confined sample_ext ''/srv/app'' ?s"
    by (simp add: confined_def sample_resolver_ok)
  have p: "strip_file_scheme ''/srv/app/x'' = ''/srv/app/x''" "strip_file_scheme ''/srv/app/x.php'' = ''/srv/app/x.php''"
    by code_simp+
  have "resolve_name sample_ext w ''/srv/app/x.php'' = Some (''/srv/app'', ''/srv/app'', 9)" for w
    by (simp add: resolve_name_def resolve_parents.simps sample_paths)
  then have a: "allows sample_ext ''/srv/app'' ?s ''/srv/app/x''" "allows sample_ext ''/srv/app'' ?s ''/srv/app/x.php''"
    by (simp_all add: allows_def dirs_allow_def basedir_allows_def sample_dirs sample_paths basedir_dir_def MAXPATHLEN_def
        sample_resolve base_of_def in_tree_def)
  show ?thesis
    using rename_ignores_php_rule [OF c, of "''/srv/app/x''" "''/srv/app/x.php''" sample_fs] a p
    by (auto simp: sample_fs_def sample_state_def)
qed

section \<open>Creating a chain of directories\<close>

text \<open>The buffer of the recursive creation: the path with some of its slashes replaced by NUL.\<close>

definition cut_path :: "string \<Rightarrow> string \<Rightarrow> bool" where
  "cut_path path buf \<longleftrightarrow> length buf = Suc (length path) \<and> buf ! length path = NUL \<and>
     (\<forall>i < length path. buf ! i = path ! i \<or> buf ! i = NUL \<and> path ! i = CHR ''/'')"

lemma cut_path_cut: "cut_path path buf \<Longrightarrow> buf ! i = CHR ''/'' \<Longrightarrow> i < length path \<Longrightarrow> cut_path path (buf[i := NUL])"
  by (auto simp: cut_path_def nth_list_update NUL_def)

lemma cut_path_restore:
  "cut_path path buf \<Longrightarrow> i < length path \<Longrightarrow> path ! i = CHR ''/'' \<Longrightarrow> cut_path path (buf[i := CHR ''/''])"
  by (auto simp: cut_path_def nth_list_update)

lemma slash_in_path: "cut_path path buf \<Longrightarrow> i < length buf \<Longrightarrow> buf ! i = CHR ''/'' \<Longrightarrow> i < length path \<and> path ! i = CHR ''/''"
  by (auto simp: cut_path_def less_Suc_eq NUL_def)

lemma cut_slashes_cut_path:
  "cut_path path buf \<Longrightarrow> p \<le> length path \<Longrightarrow> cut_slashes buf p n = (buf', p', n') \<Longrightarrow>
    cut_path path buf' \<and> n \<le> n' \<and> p' + (n' - n) = p \<and> (\<forall>i. p' \<le> i \<and> i < p \<longrightarrow> path ! i = CHR ''/'')"
proof (induction buf p n rule: cut_slashes.induct)
  case (2 buf p n)
  show ?case
  proof (cases "buf ! p = CHR ''/''")
    case True
    have "p < length buf" using 2(2,3) by (simp add: cut_path_def)
    then have p: "p < length path" "path ! p = CHR ''/''" using slash_in_path [OF 2(2) _ True] by auto
    have "cut_path path (buf[p := NUL])" using 2(2) True p(1) by (rule cut_path_cut)
    with 2 True p show ?thesis by (auto simp: less_Suc_eq)
  qed (use 2 in auto)
qed simp

lemma restore_slashes_cut_path:
  "cut_path path buf \<Longrightarrow> p + n < length path \<Longrightarrow> (\<forall>i. p \<le> i \<and> i \<le> p + n \<longrightarrow> path ! i = CHR ''/'') \<Longrightarrow>
    cut_path path (restore_slashes buf p n)"
  by (induction buf p n rule: restore_slashes.induct) (auto simp: cut_path_restore)

lemma find_top_cut_path:
  "cut_path path buf \<Longrightarrow> find_top ex buf offset = (buf', p) \<Longrightarrow>
    cut_path path buf' \<and> (\<forall>i. p = Some i \<longrightarrow> i < length path)"
proof (induction ex buf offset rule: find_top.induct)
  case (1 ex buf offset)
  show ?case
  proof (cases "last_slash buf offset")
    case None
    with 1 show ?thesis by (simp add: find_top.simps [of ex buf])
  next
    case (Some k)
    then have k: "k < length path" "path ! k = CHR ''/''" "buf ! k = CHR ''/''"
      using last_slash_nth [OF Some] slash_in_path [OF 1(2)] by auto
    obtain b q n where c: "cut_slashes (buf[k := NUL]) k 0 = (b, q, n)" by (metis prod_cases3)
    have b: "cut_path path b" "q + n = k" "\<forall>i. q \<le> i \<and> i < k \<longrightarrow> path ! i = CHR ''/''"
      using cut_slashes_cut_path [OF cut_path_cut [OF 1(2) k(3,1)] _ c] k(1) by auto
    show ?thesis
    proof (cases "ex (buf_string b 0)")
      case True
      then have "buf' = restore_slashes b q n" "p = Some k"
        using 1(3) Some c b(2) by (auto simp: find_top.simps [of ex buf])
      moreover have "cut_path path (restore_slashes b q n)"
        using b k by (intro restore_slashes_cut_path) (auto simp: le_less)
      ultimately show ?thesis using k by simp
    next
      case False
      then have "find_top ex b offset = (buf', p)" using 1(3) Some c by (simp add: find_top.simps [of ex buf])
      with 1(1) [OF Some c [symmetric] refl False b(1)] show ?thesis by simp
    qed
  qed
qed

text \<open>Where the bytes of the buffer are cut and restored.\<close>

lemma cut_slashes_nth:
  "p < length buf \<Longrightarrow> cut_slashes buf p n = (b, q, n') \<Longrightarrow>
    length b = length buf \<and> q \<le> p \<and> (\<forall>j < q. b ! j = buf ! j) \<and> (\<forall>j. q \<le> j \<and> j < p \<longrightarrow> b ! j = NUL) \<and> (\<forall>j \<ge> p. b ! j = buf ! j)"
proof (induction buf p n rule: cut_slashes.induct)
  case (2 buf p n)
  then show ?case by (cases "buf ! p = CHR ''/''") (auto simp: less_Suc_eq nth_list_update)
qed auto

lemma restore_slashes_nth:
  "p + n < length buf \<Longrightarrow> length (restore_slashes buf p n) = length buf \<and>
    (\<forall>j. restore_slashes buf p n ! j = (if p \<le> j \<and> j \<le> p + n then CHR ''/'' else buf ! j))"
  by (induction buf p n rule: restore_slashes.induct) (auto simp: nth_list_update)

lemma buf_string_no_NUL:
  assumes "strrchr (buf_string buf k) c = Some i" "j \<le> i"
  shows "buf ! (k + j) \<noteq> NUL"
proof -
  have "j < length (buf_string buf k)" using strrchr_Some [OF assms(1)] assms(2) by simp
  moreover from this have "j < length (drop k buf)"
    using length_takeWhile_le [of "\<lambda>c. c \<noteq> NUL" "drop k buf"] by (simp add: buf_string_def)
  ultimately show ?thesis
    using nth_mem [of j "buf_string buf k"] takeWhile_nth [of j "\<lambda>c. c \<noteq> NUL" "drop k buf"] set_takeWhileD
    unfolding buf_string_def by fastforce
qed

lemma buf_string_empty: "k < length buf \<Longrightarrow> buf ! k = NUL \<Longrightarrow> buf_string buf k = []"
  by (simp add: buf_string_def Cons_nth_drop_Suc [symmetric])

lemma find_top_found:
  assumes "find_top ex buf 1 = (buf', Some i)" "buf ! 0 = NUL \<longrightarrow> buf_string buf 1 = []"
  shows "\<forall>j \<le> i. buf' ! j \<noteq> NUL"
  using assms
proof (induction ex buf "1 :: nat" rule: find_top.induct)
  case (1 ex buf)
  obtain k where k: "last_slash buf 1 = Some k"
    using 1(2) by (cases "last_slash buf 1") (auto simp: find_top.simps [of ex buf])
  then obtain i0 where i0: "strrchr (buf_string buf 1) (CHR ''/'') = Some i0" "k = 1 + i0"
    by (auto simp: last_slash_def split: option.splits)
  have k_len: "k < length buf" using last_slash_nth [OF k] by simp
  have "buf ! 0 \<noteq> NUL" using 1(3) i0(1) by auto
  moreover have "buf ! (1 + j) \<noteq> NUL" if "j \<le> i0" for j using buf_string_no_NUL [OF i0(1) that] .
  ultimately have nn: "buf ! j \<noteq> NUL" if "j \<le> k" for j using that i0(2) by (cases j) auto
  obtain b q n where c: "cut_slashes (buf[k := NUL]) k 0 = (b, q, n)" by (metis prod_cases3)
  have b: "length b = length buf" "q \<le> k" "\<forall>j < q. b ! j = buf ! j" "\<forall>j. q \<le> j \<and> j \<le> k \<longrightarrow> b ! j = NUL"
    using cut_slashes_nth [of k "buf[k := NUL]" 0 b q n] c k_len by (auto simp: le_less)
  have qn: "q + n = k"
  proof -
    have "q' + n' = p + m \<and> m \<le> n'" if "cut_slashes x p m = (x', q', n')" for x p m x' q' n'
      using that by (induction x p m rule: cut_slashes.induct) (auto split: if_splits)
    from this [OF c] show ?thesis by simp
  qed
  show ?case
  proof (cases "ex (buf_string b 0)")
    case True
    then have "buf' = restore_slashes b q n" "i = k"
      using 1(2) k c qn by (auto simp: find_top.simps [of ex buf])
    then show ?thesis using restore_slashes_nth [of q n b] qn k_len b nn by (auto simp: NUL_def)
  next
    case False
    have "buf_string b 1 = []" if "b ! 0 = NUL"
    proof -
      have "q = 0" using that b(3) nn by (metis gr0I le0)
      then show ?thesis using b(1,4) i0(2) k_len by (intro buf_string_empty) auto
    qed
    moreover have "find_top ex b 1 = (buf', Some i)" using False 1(2) k c by (simp add: find_top.simps [of ex buf])
    ultimately show ?thesis using 1(1) [OF k c [symmetric] refl False] by simp
  qed
qed

text \<open>The directories the second loop creates, one after the other.\<close>

fun targets :: "string \<Rightarrow> nat list \<Rightarrow> string list" where
  "targets buf [] = []"
| "targets buf (p # ps) =
     (if buf ! p = NUL then
        (let buf = buf[p := CHR ''/''] in
         if buf ! (p + 1) \<noteq> NUL then buf_string buf 0 # targets buf ps else targets buf ps)
      else targets buf ps)"

fun make_dirs :: "'w filesystem \<Rightarrow> int \<Rightarrow> uint \<Rightarrow> string list \<Rightarrow> ('w, int) php" where
  "make_dirs F mode options [] = cret 0"
| "make_dirs F mode options (d # ds) =
     cbind (xcall (f_mkdir F d (word_of_int mode))) (\<lambda>failed.
       if failed then (if has_option options REPORT_ERRORS then warn_errno F (-1) else cret (-1))
       else make_dirs F mode options ds)"

lemma create_below_targets: "create_below F mode options buf ps = make_dirs F mode options (targets buf ps)"
  by (induction buf ps rule: targets.induct) (simp_all add: Let_def cong: if_cong)

lemma cut_path_string:
  assumes c: "cut_path path buf" and path: "is_cstr path"
  obtains k where "buf_string buf 0 = take k path" "k \<le> length path" "buf ! k = NUL" "\<forall>j < k. buf ! j \<noteq> NUL"
    "k < length path \<longrightarrow> path ! k = CHR ''/''"
proof -
  let ?k = "length (buf_string buf 0)"
  have len: "length buf = Suc (length path)" "buf ! length path = NUL" using c by (auto simp: cut_path_def)
  have lt: "?k < length buf"
  proof (rule ccontr)
    assume "\<not> ?k < length buf"
    then have "takeWhile (\<lambda>c. c \<noteq> NUL) buf = buf"
      using length_takeWhile_le [of "\<lambda>c. c \<noteq> NUL" buf] takeWhile_eq_take [of "\<lambda>c. c \<noteq> NUL" buf]
      by (simp add: buf_string_def)
    then show False using len nth_mem [of "length path" buf] by (metis set_takeWhileD lessI)
  qed
  have nul: "buf ! ?k = NUL" using nth_length_takeWhile [of "\<lambda>c. c \<noteq> NUL" buf] lt by (simp add: buf_string_def)
  have nn: "buf ! j \<noteq> NUL" if "j < ?k" for j
    using that nth_mem [of j "buf_string buf 0"] takeWhile_nth [of j "\<lambda>c. c \<noteq> NUL" buf]
    by (auto simp: buf_string_def dest: set_takeWhileD)
  have eq: "buf ! j = path ! j" if "j < ?k" for j
  proof -
    have "j < length path" using that lt len(1) by linarith
    with nn [OF that] c show ?thesis by (auto simp: cut_path_def)
  qed
  have "buf_string buf 0 = take ?k path"
    using lt len(1) eq by (intro nth_equalityI) (auto simp: buf_string_def takeWhile_nth)
  moreover have "?k < length path \<longrightarrow> path ! ?k = CHR ''/''"
  proof
    assume "?k < length path"
    then have "path ! ?k \<noteq> NUL" using path by (metis is_cstr_def nth_mem)
    with nul c \<open>?k < length path\<close> show "path ! ?k = CHR ''/''" by (auto simp: cut_path_def)
  qed
  ultimately show thesis using that lt len(1) nul nn by auto
qed

lemma targets_below:
  assumes "cut_path path buf" "is_cstr path" "k \<le> p" "\<forall>j < p. buf ! j \<noteq> NUL" "b \<le> length path"
    "k < length path" "path ! k = CHR ''/''" "p = k \<or> k < p"
  shows "\<forall>d \<in> set (targets buf [p..<b]). prefix d path \<and> prefix (take k path @ ''/'') d"
  using assms
proof (induction "b - p" arbitrary: buf p)
  case 0
  then show ?case by simp
next
  case (Suc n)
  then have up: "[p..<b] = p # [Suc p..<b]" by (simp add: upt_conv_Cons)
  have p: "p < length path" using Suc by simp
  have n: "n = b - Suc p" using Suc by simp
  show ?case
  proof (cases "buf ! p = NUL")
    case False
    with Suc.prems have "\<forall>j < Suc p. buf ! j \<noteq> NUL" by (auto simp: less_Suc_eq)
    with Suc.hyps(1) [OF n Suc.prems(1,2)] Suc.prems False show ?thesis by (simp add: up)
  next
    case True
    then have s: "path ! p = CHR ''/''"
    proof -
      have "path ! p \<noteq> NUL" using Suc.prems(2) p by (metis is_cstr_def nth_mem)
      with True Suc.prems(1) p show ?thesis by (auto simp: cut_path_def)
    qed
    let ?b = "buf[p := CHR ''/'']"
    have cb: "cut_path path ?b" using cut_path_restore [OF Suc.prems(1) p s] .
    have nn: "\<forall>j < Suc p. ?b ! j \<noteq> NUL"
      using Suc.prems(1,4) p by (auto simp: less_Suc_eq cut_path_def nth_list_update NUL_def)
    have rest: "\<forall>d \<in> set (targets ?b [Suc p..<b]). prefix d path \<and> prefix (take k path @ ''/'') d"
      using Suc.hyps(1) [OF n cb Suc.prems(2) _ nn Suc.prems(5-7)] Suc.prems(3) by simp
    obtain m where m: "buf_string ?b 0 = take m path" "m \<le> length path" "?b ! m = NUL"
      using cut_path_string [OF cb Suc.prems(2)] by metis
    then have "k < m" using nn Suc.prems(3) by (metis less_Suc_eq_le le_less_trans not_less)
    then have "prefix (take k path @ ''/'') (take m path)"
      using Suc.prems(6,7) m(2) by (metis Suc_leI take_Suc_conv_app_nth take_is_prefix prefix_order.trans
          take_take min_absorb1)
    with rest m(1) True show ?thesis by (auto simp: up Let_def take_is_prefix)
  qed
qed



end
