(* ===== verification/Worker.thy ===== *)
theory Worker
  imports Daemon_Correct Blog_Ext Plain_Wrapper_Correct
begin

text \<open>
  A request as a state machine: after the sandbox extension has started it, the script of an
  application performs any sequence of the operations that reach the state of the worker: the functions
  of the three extensions, \<open>ini_set\<close> of \<open>open_basedir\<close> and the file operations. The invariant is what the
  sandbox promises: the request keeps its application, and what it may reach only shrinks.
\<close>

section \<open>Operations that leave the confinement alone\<close>

lemma keeps_xdo [keeps_intros]: "keeps confinement (xdo f)"
  unfolding xdo_def by (intro keeps_intros) simp

lemma keeps_case_outcome [keeps_intros]:
  "(\<And>x. keeps f (k x)) \<Longrightarrow> keeps f (case p of PERSISTENT_SUCCESS x \<Rightarrow> k x | PERSISTENT_FAILURE \<Rightarrow> cundef | PERSISTENT_NOT_EXIST \<Rightarrow> m)"
  if "keeps f m"
  using that by (cases p) (simp_all add: keeps_basic)

subsection \<open>The daemon extension\<close>

lemma keeps_REQ_APPEND [keeps_intros]: "keeps confinement (REQ_APPEND r t)"
  unfolding REQ_APPEND_def by (intro keeps_intros)

lemma keeps_convert_to_string [keeps_intros]: "keeps confinement (convert_to_string v)"
  by (cases v) (auto simp: convert_to_string_def intro: keeps_intros)

lemma keeps_request_key [keeps_intros]: "keeps confinement (request_key k)"
  by (cases k) (auto simp: request_key_def intro: keeps_intros)

lemma keeps_parse_request_data [keeps_intros]: "keeps confinement (parse_request_data r es)"
  by (induction es arbitrary: r) (auto intro!: keeps_intros)

lemma keeps_post_params [keeps_intros]: "keeps confinement (post_params_loop b r es)"
  by (induction es arbitrary: b r) (auto intro!: keeps_intros)

lemma keeps_parse_request [keeps_intros]: "keeps confinement (parse_request m a d)"
  unfolding parse_request_def request_appid_def request_appname_def php_get_appid_def php_get_appname_def Let_def
  by (intro keeps_intros)

lemma keeps_recv_loop [keeps_intros]: "keeps confinement (recv_loop E sd buf)"
proof (induction E sd buf rule: recv_loop.induct)
  case (1 E sd buf)
  show ?case
    unfolding recv_loop.simps [of E sd buf] using 1 by (intro keeps_intros) auto
qed

lemma keeps_get_response [keeps_intros]: "keeps confinement (daemon_get_response E r)"
  unfolding daemon_get_response_def by (intro keeps_intros) simp_all

lemma keeps_parse_fields [keeps_intros]: "keeps confinement (parse_fields r es)"
proof (induction r es rule: parse_fields.induct)
  case (1 r es)
  show ?case
    unfolding parse_fields.simps [of r es] unexpected_char_def response_value_def Let_def
    using 1 by (intro keeps_intros) (simp_all add: Let_def)
qed

lemma keeps_request_daemon [keeps_intros]: "keeps confinement (php_request_daemon E r m a d)"
  unfolding php_request_daemon_def daemon_die_def php_parse_response_def by (intro keeps_intros)

lemma keeps_app_root_url [keeps_intros]: "keeps confinement (php_app_root_url E)"
  unfolding php_app_root_url_def by (intro keeps_intros)

lemma keeps_is_url_allowed [keeps_intros]: "keeps confinement (is_url_allowed u)"
  unfolding is_url_allowed_def by (intro keeps_intros)

lemma keeps_wrong_parameters [keeps_intros]: "keeps confinement (wrong_parameters u r)"
  unfolding wrong_parameters_def by (intro keeps_intros)

lemma keeps_daemon_call [keeps_intros]:
  "keeps confinement (daemon_bool E m a d)" "keeps confinement (daemon_value E m a d)"
  unfolding daemon_bool_def daemon_value_def by (intro keeps_intros)+

lemmas daemon_defs = fn_install_plugin_def fn_remove_plugin_def fn_install_theme_def fn_remove_theme_def fn_sendmail_def
  fn_set_3rdparty_domain_def fn_install_ssl_key_def fn_access_log_def fn_is_url_allowed_def fn_http_get_def fn_http_post_def
  fn_request_daemon_def fn_parse_response_def

subsection \<open>File operations\<close>

lemma keeps_basedir_check [keeps_intros]:
  "keeps confinement (php_check_open_basedir_ex E p w)" "keeps confinement (php_check_open_basedir E p)"
  unfolding php_check_open_basedir_def php_check_open_basedir_ex_def by (intro keeps_intros)+

lemma keeps_trusted_frames [keeps_intros]: "keeps confinement (trusted_frames fs)"
proof (induction fs rule: trusted_frames.induct)
  case (3 f line fs)
  then show ?case
    unfolding trusted_frames.simps is_in_trusted_code_dir_def by (intro keeps_intros) auto
qed (simp_all only: trusted_frames.simps keeps_basic)

lemma keeps_include_allowed [keeps_intros]: "keeps confinement (include_allowed E p)"
  unfolding include_allowed_def is_in_upload_dir_def php_app_root_path_def Let_def
  by (intro keeps_intros)

lemma keeps_write_allowed [keeps_intros]: "keeps confinement (write_allowed bt p)"
  unfolding write_allowed_def is_in_trusted_php_code_def by (intro keeps_intros)

lemma keeps_open_realpath [keeps_intros]: "keeps confinement (open_realpath F p m fl i opt)"
  unfolding open_realpath_def php_stream_fopen_from_fd_def php_stream_fopen_from_fd_int_def do_fstat_def Let_def
  by (intro keeps_intros)

lemma keeps_fopen [keeps_intros]: "keeps confinement (php_stream_fopen E F bt f m opt)"
  unfolding php_stream_fopen_def checked_open_def Let_def by (intro keeps_intros)

lemma keeps_warn_errno [keeps_intros]: "keeps confinement (warn_errno F r)"
  unfolding warn_errno_def by (intro keeps_intros)

lemma keeps_mkdir [keeps_intros]: "keeps confinement (php_mkdir E F d m)"
  unfolding php_mkdir_def by (intro keeps_intros)

lemma keeps_make_dirs [keeps_intros]: "keeps confinement (make_dirs F m opt ds)"
proof (induction ds)
  case (Cons d ds)
  then show ?case unfolding make_dirs.simps by (intro keeps_intros)
qed (simp only: make_dirs.simps keeps_basic)

lemma keeps_meta_change [keeps_intros]: "keeps confinement (meta_change F u opt)"
  by (cases opt) (auto simp: meta_change_def meta_touch_def intro!: keeps_intros)

lemma keeps_try_paths [keeps_intros]: "keeps confinement (try_paths E F bt ptr f m opt)"
proof (induction E F bt ptr f m opt rule: try_paths.induct)
  case (1 E F bt ptr f m opt)
  show ?case
    unfolding try_paths.simps [of E F bt ptr] Let_def using 1 by (intro keeps_intros) auto
qed

lemma keeps_file_operations:
  "keeps confinement (php_plain_files_stream_opener E F bt p m opt)" "keeps confinement (php_plain_files_dir_opener E F p m opt)"
  "keeps confinement (php_plain_files_url_stater E F p fl)" "keeps confinement (php_plain_files_unlink E F p opt)"
  "keeps confinement (php_plain_files_rename E F u v)" "keeps confinement (php_plain_files_mkdir E F p n opt)"
  "keeps confinement (php_plain_files_rmdir E F p)" "keeps confinement (php_plain_files_metadata E F p meta)"
  "keeps confinement (php_stream_fopen_with_path E F bt x y m z opt)"
  unfolding php_plain_files_stream_opener_def php_plain_files_dir_opener_def php_plain_files_url_stater_def
    php_plain_files_unlink_def php_plain_files_rename_def php_plain_files_mkdir_def php_plain_files_rmdir_def
    php_plain_files_metadata_def php_stream_fopen_with_path_def mkdir_recursive_def create_below_targets
    rename_by_copy_def rename_restricted_def Let_def
  by (intro keeps_intros)+

section \<open>A script at work\<close>

definition forget :: "('w, 'a) php \<Rightarrow> ('w, unit) php" where
  "forget m = cseq m (cret ())"

text \<open>What a script can do to the state of the worker.\<close>

inductive script_call :: "'w externals \<Rightarrow> 'w filesystem \<Rightarrow> ('w, unit) php \<Rightarrow> bool" for E F where
  connect_userdb: "script_call E F (forget (fn_connect_userdb E a))"
| app_isactive: "script_call E F (forget (fn_app_isactive E a))"
| set_appid: "script_call E F (forget (fn_set_appid E a))"
| get_appid: "script_call E F (forget fn_get_appid)"
| get_appname: "script_call E F (forget fn_get_appname)"
| app_root_url: "script_call E F (forget (fn_app_root_url E))"
| app_root_path: "script_call E F (forget fn_app_root_path)"
| get_appinfo: "script_call E F (forget (fn_get_appinfo E a))"
| create_app: "script_call E F (forget (fn_create_app E q))"
| app_activate: "script_call E F (forget (fn_app_activate E a))"
| app_deactivate: "script_call E F (forget (fn_app_deactivate E a))"
| app_count: "script_call E F (forget (fn_app_count E c))"
| get_appid_by_field: "script_call E F (forget (fn_get_appid_by_field E v))"
| check_email_count: "script_call E F (forget (fn_check_email_count E m))"
| random_string: "script_call E F (forget (fn_random_string E a))"
| install_blog_filesystem: "script_call E F (forget (fn_install_blog_filesystem E m))"
| install_plugin: "script_call E F (forget (fn_install_plugin E v))"
| remove_plugin: "script_call E F (forget (fn_remove_plugin E m))"
| install_theme: "script_call E F (forget (fn_install_theme E v))"
| remove_theme: "script_call E F (forget (fn_remove_theme E m))"
| sendmail: "script_call E F (forget (fn_sendmail E w))"
| set_3rdparty_domain: "script_call E F (forget (fn_set_3rdparty_domain E d))"
| install_ssl_key: "script_call E F (forget (fn_install_ssl_key E m))"
| http_get: "script_call E F (forget (fn_http_get E m))"
| http_post: "script_call E F (forget (fn_http_post E h))"
| parse_response: "script_call E F (forget (fn_parse_response m))"
| ini_set: "script_call E F (forget (ini_set_open_basedir E n))"
| query: "script_call E F (forget sandbox_query_num_inc)"
| open_stream: "script_call E F (forget (php_plain_files_stream_opener E F bt p mode opt))"
| open_dir: "script_call E F (forget (php_plain_files_dir_opener E F p mode opt))"
| open_with_path: "script_call E F (forget (php_stream_fopen_with_path E F bt x y mode z opt))"
| url_stat: "script_call E F (forget (php_plain_files_url_stater E F p fl))"
| unlink: "script_call E F (forget (php_plain_files_unlink E F p opt))"
| rename: "script_call E F (forget (php_plain_files_rename E F x y))"
| mkdir: "script_call E F (forget (php_plain_files_mkdir E F p perm opt))"
| rmdir: "script_call E F (forget (php_plain_files_rmdir E F p))"
| metadata: "script_call E F (forget (php_plain_files_metadata E F p meta))"

inductive script_run :: "'w externals \<Rightarrow> 'w filesystem \<Rightarrow> 'w php_state \<Rightarrow> 'w php_state \<Rightarrow> bool" for E F where
  start: "script_run E F s s"
| call: "script_run E F s t \<Longrightarrow> script_call E F m \<Longrightarrow> m t = (Ret (), u) \<Longrightarrow> script_run E F s u"

lemma forget_Ret: "forget m s = (Ret (), s') \<longleftrightarrow> (\<exists>r. m s = (Ret r, s'))"
  by (auto simp: forget_def cseq_def cbind_def split: prod.splits outcome.splits)

lemma keeps_forget: "keeps f m \<Longrightarrow> keeps f (forget m)"
  unfolding forget_def by (intro keeps_intros)

lemma privileged_refused:
  assumes "0 < appid s" "appid s < 2147483648"
  shows "assert_privilege body s = (Ret ZNull, s\<lparr>errors := errors s @ [(E_WARNING, ''You know it, bad boy!'')]\<rparr>)"
  using assms by (simp add: assert_privilege_def php_get_appid_def)

lemma privileged_step:
  "0 < appid s \<Longrightarrow> appid s < 2147483648 \<Longrightarrow> forget (assert_privilege body) s = (Ret (), s') \<Longrightarrow> confinement s' = confinement s"
  by (auto simp: forget_Ret privileged_refused)

lemma keeps_step: "keeps confinement m \<Longrightarrow> forget m s = (Ret (), s') \<Longrightarrow> confinement s' = confinement s"
  by (auto simp: forget_Ret dest: keepsD)

lemma keeps_sandbox_functions:
  "keeps confinement fn_get_appid" "keeps confinement fn_get_appname" "keeps confinement (fn_app_root_url E)"
  "keeps confinement fn_app_root_path" "keeps confinement sandbox_query_num_inc"
  unfolding fn_get_appid_def fn_get_appname_def fn_app_root_url_def fn_app_root_path_def php_app_root_path_def
    sandbox_query_num_inc_def Let_def
  by (intro keeps_intros; simp)+

lemma keeps_random_string: "keeps confinement (fn_random_string E a)"
proof -
  have "keeps confinement (random_chars E n)" for n
    by (auto simp: keeps_def random_chars_eq)
  then show ?thesis
    unfolding fn_random_string_def random_str_gen_def bad_parameters_def by (intro keeps_intros)
qed

lemma keeps_daemon_functions:
  "keeps confinement (fn_install_plugin E v)" "keeps confinement (fn_remove_plugin E m)"
  "keeps confinement (fn_install_theme E v)" "keeps confinement (fn_remove_theme E m)"
  "keeps confinement (fn_sendmail E w)" "keeps confinement (fn_set_3rdparty_domain E d)"
  "keeps confinement (fn_install_ssl_key E m)" "keeps confinement (fn_http_get E m)" "keeps confinement (fn_http_post E h)"
  "keeps confinement (fn_parse_response m)"
  unfolding daemon_defs assert_allow_url_def http_post_data_def parse_post_params_def php_parse_response_def Let_def
  by (intro keeps_intros)+

lemmas unguarded_steps = keeps_sandbox_functions [THEN keeps_step] keeps_random_string [THEN keeps_step]
  keeps_daemon_functions [THEN keeps_step] keeps_file_operations [THEN keeps_step]

lemmas guarded_defs = fn_connect_userdb_def fn_app_isactive_def fn_set_appid_def fn_get_appinfo_def fn_create_app_def
  fn_app_activate_def fn_app_deactivate_def fn_app_count_def fn_get_appid_by_field_def fn_check_email_count_def
  fn_install_blog_filesystem_def

lemma guarded_steps:
  assumes "0 < appid s" "appid s < 2147483648"
  shows "forget (fn_connect_userdb E a) s = (Ret (), s') \<Longrightarrow> confinement s' = confinement s"
    "forget (fn_app_isactive E a) s = (Ret (), s') \<Longrightarrow> confinement s' = confinement s"
    "forget (fn_set_appid E a) s = (Ret (), s') \<Longrightarrow> confinement s' = confinement s"
    "forget (fn_get_appinfo E a) s = (Ret (), s') \<Longrightarrow> confinement s' = confinement s"
    "forget (fn_create_app E q) s = (Ret (), s') \<Longrightarrow> confinement s' = confinement s"
    "forget (fn_app_activate E a) s = (Ret (), s') \<Longrightarrow> confinement s' = confinement s"
    "forget (fn_app_deactivate E a) s = (Ret (), s') \<Longrightarrow> confinement s' = confinement s"
    "forget (fn_app_count E c) s = (Ret (), s') \<Longrightarrow> confinement s' = confinement s"
    "forget (fn_get_appid_by_field E v) s = (Ret (), s') \<Longrightarrow> confinement s' = confinement s"
    "forget (fn_check_email_count E m) s = (Ret (), s') \<Longrightarrow> confinement s' = confinement s"
    "forget (fn_install_blog_filesystem E m) s = (Ret (), s') \<Longrightarrow> confinement s' = confinement s"
  unfolding guarded_defs by (erule privileged_step [OF assms])+

text \<open>Only \<open>ini_set\<close> can change what the confinement consists of.\<close>

lemma script_call_confinement:
  assumes "script_call E F m" "0 < appid s" "appid s < 2147483648" "m s = (Ret (), s')"
  shows "confinement s' = confinement s \<or> (\<exists>v r. ini_set_open_basedir E v s = (Ret r, s'))"
  using assms(1)
proof (cases rule: script_call.cases)
  case (ini_set n)
  with assms(4) show ?thesis by (auto simp: forget_Ret)
qed (use assms(4) in \<open>simp add: guarded_steps [OF assms(2,3)] unguarded_steps\<close>)+

section \<open>What a script may reach\<close>

text \<open>
  What the invariant relies on besides \<open>resolver_ok\<close>: path resolution does not change while the script
  runs.
\<close>

definition static_paths :: "'w externals \<Rightarrow> bool" where
  "static_paths E \<longleftrightarrow>
     (\<forall>w w'. x_expand_filepath E w = x_expand_filepath E w' \<and> x_realpath E w = x_realpath E w'
        \<and> x_readlink E w = x_readlink E w' \<and> x_getcwd E w = x_getcwd E w')"

lemma static_paths_world:
  assumes "static_paths E"
  shows "resolver_ok E w = resolver_ok E w'" "no_root E w d = no_root E w' d" "dirs_allow E w d p = dirs_allow E w' d p"
proof -
  have e: "x_expand_filepath E w = x_expand_filepath E w'" "x_realpath E w = x_realpath E w'"
    "x_readlink E w = x_readlink E w'" "x_getcwd E w = x_getcwd E w'"
    using assms unfolding static_paths_def by blast+
  have b: "basedir_dir E w = basedir_dir E w'" by (simp add: basedir_dir_def e fun_eq_iff)
  have r: "resolve_name E w = resolve_name E w'" unfolding fun_eq_iff resolve_name_def e by simp
  show "resolver_ok E w = resolver_ok E w'" by (simp add: resolver_ok_def e)
  show "no_root E w d = no_root E w' d" by (simp add: no_root_def e b)
  show "dirs_allow E w d p = dirs_allow E w' d p" by (simp add: dirs_allow_def basedir_allows_def e b r)
qed

lemma tightened_no_root:
  assumes ok: "resolver_ok E w" and nr: "no_root E w old"
    and tight: "\<forall>d \<in> set (split_sep (CHR '':'') new). d = [] \<or> (length d < MAXPATHLEN \<and> dirs_allow E w old d)"
  shows "no_root E w new"
  unfolding no_root_def
proof (intro ballI notI)
  fix d
  assume d: "d \<in> set (split_sep (CHR '':'') new)" and rb: "x_expand_filepath E w (basedir_dir E w d) = Some ''/''"
  have "d \<noteq> []" using rb ok by (auto simp: basedir_dir_empty resolver_ok_def)
  with tight d no_root_allows [OF ok nr expand_basedir_dir [OF ok rb]] show False by auto
qed

lemma ini_set_effect:
  assumes cur: "open_basedir s = Some old" "old \<noteq> []" and ok: "resolver_ok E (world s)"
    and run: "ini_set_open_basedir E v s = (Ret r, s')"
  shows "confinement s' = confinement s \<or> (v \<noteq> [] \<and> s' = s\<lparr>open_basedir := Some v\<rparr> \<and>
    (\<forall>d \<in> set (split_sep (CHR '':'') v). d = [] \<or> (length d < MAXPATHLEN \<and> dirs_allow E (world s) old d)))"
proof (cases "v = []")
  case True
  with run cur show ?thesis by (simp add: ini_set_open_basedir_def OnUpdateBaseDir_def)
next
  case False
  have k: "keeps confinement (tighter_loop E p)" for p
  proof (induction E p rule: tighter_loop.induct)
    case (1 E ptr)
    show ?case unfolding tighter_loop.simps [of E ptr] Let_def using 1 by (intro keeps_intros) auto
  qed
  from run cur False obtain q u where q: "tighter_loop E v s = (Ret q, u)"
    and c: "(if q = SUCCESS then cseq (cmodify (\<lambda>s. s\<lparr>open_basedir := Some v\<rparr>)) (cret SUCCESS) else cret FAILURE) u = (Ret r, s')"
    by (auto simp: ini_set_open_basedir_def OnUpdateBaseDir_def elim!: cbind_RetE)
  show ?thesis
  proof (cases "q = SUCCESS")
    case True
    with tighter_loop_checks [OF ok cur, of v u] q c False show ?thesis by auto
  next
    case False
    with c keepsD [OF k q] show ?thesis by simp
  qed
qed

text \<open>The invariant of a running request, with respect to the state in which it started.\<close>

definition request_inv :: "'w externals \<Rightarrow> 'w php_state \<Rightarrow> string \<Rightarrow> 'w php_state \<Rightarrow> bool" where
  "request_inv E s0 dirs s \<longleftrightarrow>
     appid s = appid s0 \<and> appname s = appname s0 \<and> chroot_basedir s = chroot_basedir s0
     \<and> chroot_basedir_peruser s = chroot_basedir_peruser s0 \<and>
     (\<exists>d. open_basedir s = Some d \<and> d \<noteq> [] \<and> no_root E (world s) d
        \<and> (\<forall>path. dirs_allow E (world s) d path \<longrightarrow> dirs_allow E (world s) dirs path))"

lemma request_inv_step:
  assumes inv: "request_inv E s0 dirs s" and st: "static_paths E" and ok: "\<forall>w. resolver_ok E w"
    and app: "0 < appid s0" "appid s0 < 2147483648" and step: "script_call E F m" "m s = (Ret (), s')"
  shows "request_inv E s0 dirs s'"
proof -
  obtain d where d: "open_basedir s = Some d" "d \<noteq> []" "no_root E (world s) d"
    "\<forall>path. dirs_allow E (world s) d path \<longrightarrow> dirs_allow E (world s) dirs path"
    using inv by (auto simp: request_inv_def)
  have a: "0 < appid s" "appid s < 2147483648" using inv app by (auto simp: request_inv_def)
  have same: "request_inv E s0 dirs s'" if "confinement s' = confinement s"
    using inv that d static_paths_world [OF st, where w = "world s'" and w' = "world s"]
    by (auto simp: request_inv_def confinement_def)
  from script_call_confinement [OF step(1) a step(2)] show ?thesis
  proof (elim disjE exE)
    fix v r
    assume "ini_set_open_basedir E v s = (Ret r, s')"
    from ini_set_effect [OF d(1,2) ok [rule_format] this] show ?thesis
    proof (elim disjE conjE)
      assume v: "v \<noteq> []" "s' = s\<lparr>open_basedir := Some v\<rparr>"
        and tight: "\<forall>e \<in> set (split_sep (CHR '':'') v). e = [] \<or> (length e < MAXPATHLEN \<and> dirs_allow E (world s) d e)"
      have "no_root E (world s) v" using tightened_no_root [OF _ d(3) tight] ok by blast
      moreover have "dirs_allow E (world s) dirs path" if "dirs_allow E (world s) v path" for path
        using dirs_allow_trans [OF _ d(3) that tight] ok d(4) by blast
      ultimately show ?thesis using inv v by (auto simp: request_inv_def)
    qed (rule same)
  qed (rule same)
qed



end
