(* ===== verification/Mysql_Correct.thy ===== *)
theory Mysql_Correct
  imports Sandbox_Correct
begin

text \<open>The limit on database links and the accounting of open links.\<close>

lemma keeps_resolve_default_port: "keeps (\<lambda>s. (num_links s, max_links s)) (resolve_default_port E)"
  unfolding resolve_default_port_def Let_def by (intro keeps_intros) simp

lemma keeps_set_default_link: "keeps (\<lambda>s. (num_links s, max_links s)) (php_mysql_set_default_link rid)"
  unfolding php_mysql_set_default_link_def by (intro keeps_intros) simp_all

lemma xcall_links: "xcall f s = (Ret x, s') \<Longrightarrow> num_links s' = num_links s \<and> max_links s' = max_links s"
  by (auto simp: xcall_def split: prod.splits)

lemma deref_Ret: "deref p s = (Ret x, s') \<Longrightarrow> s' = s \<and> p = Some x"
  by (cases p) auto



end
