(* ===== verification/PHP_Md5.thy ===== *)
theory PHP_Md5
  imports Message_Digest
begin

text \<open>
  The MD5 message digest (ext/standard/md5.c): the context with its byte counter split into 29 and 32
  bits, the processing of one or more blocks with the names of the four registers permuted from
  step to step, the incremental update and the finalisation, which completes the last block in
  the buffer itself. The digest is shown equal to the definition of RFC 1321 for every way of
  cutting the message into pieces (each shorter than \<open>2 ^ 31\<close> bytes, as PHP's strings are).
\<close>

unbundle bit_operations_syntax

section \<open>Operations\<close>

record PHP_MD5_CTX =
  md_lo :: uint32
  md_hi :: uint32
  md_abcd :: "uint32 list"
  md_buffer :: "byte list"

definition md5_F :: "uint32 \<Rightarrow> uint32 \<Rightarrow> uint32 \<Rightarrow> uint32" where
  "md5_F x y z = z XOR (x AND (y XOR z))"

definition md5_G :: "uint32 \<Rightarrow> uint32 \<Rightarrow> uint32 \<Rightarrow> uint32" where
  "md5_G x y z = y XOR (z AND (x XOR y))"

definition md5_H :: "uint32 \<Rightarrow> uint32 \<Rightarrow> uint32 \<Rightarrow> uint32" where
  "md5_H x y z = x XOR y XOR z"

definition md5_I :: "uint32 \<Rightarrow> uint32 \<Rightarrow> uint32 \<Rightarrow> uint32" where
  "md5_I x y z = y XOR (x OR NOT z)"

text \<open>
  The \<open>i\<close>-th use of the macro \<open>STEP\<close>. The registers are numbered \<open>a = 0\<close> to \<open>d = 3\<close>; the \<open>j\<close>-th register
  argument of the \<open>i\<close>-th use is the register \<open>j - i\<close> modulo 4.
\<close>

definition md5_reg :: "nat \<Rightarrow> nat \<Rightarrow> nat" where
  "md5_reg i j = (j + 3 * i) mod 4"

definition md5_STEP ::
  "(uint32 \<Rightarrow> uint32 \<Rightarrow> uint32 \<Rightarrow> uint32) \<Rightarrow> nat \<Rightarrow> uint32 \<Rightarrow> uint32 \<Rightarrow> nat \<Rightarrow> uint32 list \<Rightarrow> uint32 list" where
  "md5_STEP f i x t s r =
     (let a = md5_reg i 0; b = md5_reg i 1; c = md5_reg i 2; d = md5_reg i 3;
          r = r[a := r ! a + (f (r ! b) (r ! c) (r ! d) + x + t)];
          r = r[a := push_bit s (r ! a) OR drop_bit (32 - s) (r ! a AND 0xffffffff)]
      in r[a := r ! a + r ! b])"

text \<open>\<open>SET (n)\<close>: four bytes, the least significant first.\<close>

definition md5_SET :: "byte list \<Rightarrow> nat \<Rightarrow> uint32" where
  "md5_SET ptr n =
     ucast (ptr ! (n * 4)) OR push_bit 8 (ucast (ptr ! (n * 4 + 1)))
       OR push_bit 16 (ucast (ptr ! (n * 4 + 2))) OR push_bit 24 (ucast (ptr ! (n * 4 + 3)))"

text \<open>The other arguments of the 64 uses: the index of the word, the constant and the shift.\<close>

definition md5_steps :: "(nat \<times> uint32 \<times> nat) list" where
  "md5_steps =
     [(0, 0xd76aa478, 7), (1, 0xe8c7b756, 12), (2, 0x242070db, 17), (3, 0xc1bdceee, 22),
      (4, 0xf57c0faf, 7), (5, 0x4787c62a, 12), (6, 0xa8304613, 17), (7, 0xfd469501, 22),
      (8, 0x698098d8, 7), (9, 0x8b44f7af, 12), (10, 0xffff5bb1, 17), (11, 0x895cd7be, 22),
      (12, 0x6b901122, 7), (13, 0xfd987193, 12), (14, 0xa679438e, 17), (15, 0x49b40821, 22),
      (1, 0xf61e2562, 5), (6, 0xc040b340, 9), (11, 0x265e5a51, 14), (0, 0xe9b6c7aa, 20),
      (5, 0xd62f105d, 5), (10, 0x02441453, 9), (15, 0xd8a1e681, 14), (4, 0xe7d3fbc8, 20),
      (9, 0x21e1cde6, 5), (14, 0xc33707d6, 9), (3, 0xf4d50d87, 14), (8, 0x455a14ed, 20),
      (13, 0xa9e3e905, 5), (2, 0xfcefa3f8, 9), (7, 0x676f02d9, 14), (12, 0x8d2a4c8a, 20),
      (5, 0xfffa3942, 4), (8, 0x8771f681, 11), (11, 0x6d9d6122, 16), (14, 0xfde5380c, 23),
      (1, 0xa4beea44, 4), (4, 0x4bdecfa9, 11), (7, 0xf6bb4b60, 16), (10, 0xbebfbc70, 23),
      (13, 0x289b7ec6, 4), (0, 0xeaa127fa, 11), (3, 0xd4ef3085, 16), (6, 0x04881d05, 23),
      (9, 0xd9d4d039, 4), (12, 0xe6db99e5, 11), (15, 0x1fa27cf8, 16), (2, 0xc4ac5665, 23),
      (0, 0xf4292244, 6), (7, 0x432aff97, 10), (14, 0xab9423a7, 15), (5, 0xfc93a039, 21),
      (12, 0x655b59c3, 6), (3, 0x8f0ccc92, 10), (10, 0xffeff47d, 15), (1, 0x85845dd1, 21),
      (8, 0x6fa87e4f, 6), (15, 0xfe2ce6e0, 10), (6, 0xa3014314, 15), (13, 0x4e0811a1, 21),
      (4, 0xf7537e82, 6), (11, 0xbd3af235, 10), (2, 0x2ad7d2bb, 15), (9, 0xeb86d391, 21)]"

definition md5_use :: "byte list \<Rightarrow> nat \<Rightarrow> uint32 list \<Rightarrow> uint32 list" where
  "md5_use ptr i r =
     (case md5_steps ! i of (n, t, s) \<Rightarrow>
        md5_STEP (if i < 16 then md5_F else if i < 32 then md5_G else if i < 48 then md5_H else md5_I)
          i (md5_SET ptr n) t s r)"

definition md5_block :: "uint32 list \<Rightarrow> byte list \<Rightarrow> uint32 list" where
  "md5_block abcd ptr = map2 (+) (fold (md5_use ptr) [0..<64] abcd) abcd"

text \<open>\<open>body\<close>: the data are the \<open>size\<close> bytes to process, a positive multiple of 64.\<close>

function md5_body :: "uint32 list \<Rightarrow> byte list \<Rightarrow> uint32 list" where
  "md5_body abcd data =
     (let abcd = md5_block abcd (take 64 data)
      in if length data \<le> 64 then abcd else md5_body abcd (drop 64 data))"
  by pat_completeness auto
termination
  by (relation "measure (\<lambda>(abcd, data). length data)") auto

declare md5_body.simps [simp del]

definition PHP_MD5Init :: PHP_MD5_CTX where
  "PHP_MD5Init =
     \<lparr>md_lo = 0, md_hi = 0, md_abcd = [0x67452301, 0xefcdab89, 0x98badcfe, 0x10325476],
      md_buffer = replicate 64 0\<rparr>"

definition PHP_MD5Update :: "PHP_MD5_CTX \<Rightarrow> byte list \<Rightarrow> PHP_MD5_CTX" where
  "PHP_MD5Update ctx data =
     (let saved_lo = md_lo ctx;
          size = (of_nat (length data) :: 64 word);
          lo = ucast ((ucast saved_lo + size) AND 0x1fffffff);
          hi = (if lo < saved_lo then md_hi ctx + 1 else md_hi ctx) + ucast (drop_bit 29 size);
          ctx = ctx\<lparr>md_lo := lo, md_hi := hi\<rparr>;
          used = unat (saved_lo AND 0x3f);
          free = 64 - used
      in
      if used \<noteq> 0 \<and> length data < free then ctx\<lparr>md_buffer := write_at used data (md_buffer ctx)\<rparr>
      else
        (let (ctx, data) =
               (if used \<noteq> 0 then
                  (let buf = write_at used (take free data) (md_buffer ctx)
                   in (ctx\<lparr>md_abcd := md5_body (md_abcd ctx) buf, md_buffer := buf\<rparr>, drop free data))
                else (ctx, data));
             (ctx, data) =
               (if 64 \<le> length data then
                  (let n = 64 * (length data div 64)
                   in (ctx\<lparr>md_abcd := md5_body (md_abcd ctx) (take n data)\<rparr>, drop n data))
                else (ctx, data))
         in ctx\<lparr>md_buffer := write_at 0 data (md_buffer ctx)\<rparr>))"

definition le_word_bytes :: "uint32 \<Rightarrow> byte list" where
  "le_word_bytes w = [ucast w, ucast (drop_bit 8 w), ucast (drop_bit 16 w), ucast (drop_bit 24 w)]"

definition PHP_MD5Final :: "PHP_MD5_CTX \<Rightarrow> byte list" where
  "PHP_MD5Final ctx =
     (let used = unat (md_lo ctx AND 0x3f);
          buf = write_at used [0x80] (md_buffer ctx);
          used = used + 1;
          free = 64 - used;
          (abcd, buf, used, free) =
            (if free < 8 then
               (let buf = write_at used (replicate free 0) buf in (md5_body (md_abcd ctx) buf, buf, 0, 64))
             else (md_abcd ctx, buf, used, free));
          buf = write_at used (replicate (free - 8) 0) buf;
          lo = push_bit 3 (md_lo ctx);
          buf = write_at 56 (le_word_bytes lo) buf;
          buf = write_at 60 (le_word_bytes (md_hi ctx)) buf;
          abcd = md5_body abcd buf
      in concat (map le_word_bytes abcd))"

section \<open>RFC 1321\<close>

text \<open>The definition of the standard, used as the reference.\<close>

definition rfc_f :: "nat \<Rightarrow> uint32 \<Rightarrow> uint32 \<Rightarrow> uint32 \<Rightarrow> uint32" where
  "rfc_f i x y z =
     (if i < 16 then (x AND y) OR (NOT x AND z)
      else if i < 32 then (x AND z) OR (y AND NOT z)
      else if i < 48 then x XOR y XOR z
      else y XOR (x OR NOT z))"

definition rfc_k :: "nat \<Rightarrow> nat" where
  "rfc_k i = (if i < 16 then i else if i < 32 then (5 * i + 1) mod 16
              else if i < 48 then (3 * i + 5) mod 16 else (7 * i) mod 16)"

definition rfc_s :: "nat \<Rightarrow> nat" where
  "rfc_s i = (if i < 16 then [7, 12, 17, 22] else if i < 32 then [5, 9, 14, 20]
              else if i < 48 then [4, 11, 16, 23] else [6, 10, 15, 21]) ! (i mod 4)"

definition rfc_T :: "uint32 list" where
  "rfc_T =
     [0xd76aa478, 0xe8c7b756, 0x242070db, 0xc1bdceee,
      0xf57c0faf, 0x4787c62a, 0xa8304613, 0xfd469501,
      0x698098d8, 0x8b44f7af, 0xffff5bb1, 0x895cd7be,
      0x6b901122, 0xfd987193, 0xa679438e, 0x49b40821,
      0xf61e2562, 0xc040b340, 0x265e5a51, 0xe9b6c7aa,
      0xd62f105d, 0x02441453, 0xd8a1e681, 0xe7d3fbc8,
      0x21e1cde6, 0xc33707d6, 0xf4d50d87, 0x455a14ed,
      0xa9e3e905, 0xfcefa3f8, 0x676f02d9, 0x8d2a4c8a,
      0xfffa3942, 0x8771f681, 0x6d9d6122, 0xfde5380c,
      0xa4beea44, 0x4bdecfa9, 0xf6bb4b60, 0xbebfbc70,
      0x289b7ec6, 0xeaa127fa, 0xd4ef3085, 0x04881d05,
      0xd9d4d039, 0xe6db99e5, 0x1fa27cf8, 0xc4ac5665,
      0xf4292244, 0x432aff97, 0xab9423a7, 0xfc93a039,
      0x655b59c3, 0x8f0ccc92, 0xffeff47d, 0x85845dd1,
      0x6fa87e4f, 0xfe2ce6e0, 0xa3014314, 0x4e0811a1,
      0xf7537e82, 0xbd3af235, 0x2ad7d2bb, 0xeb86d391]"

definition rfc_rotl :: "uint32 \<Rightarrow> nat \<Rightarrow> uint32" where
  "rfc_rotl x n = push_bit n x OR drop_bit (32 - n) x"

definition rfc_round :: "uint32 list \<Rightarrow> nat \<Rightarrow> uint32 list \<Rightarrow> uint32 list" where
  "rfc_round X i r =
     [r ! 3, r ! 1 + rfc_rotl (r ! 0 + rfc_f i (r ! 1) (r ! 2) (r ! 3) + X ! rfc_k i + rfc_T ! i) (rfc_s i),
      r ! 1, r ! 2]"

definition le_word :: "byte list \<Rightarrow> uint32" where
  "le_word bs = of_nat (foldr (\<lambda>b n. unat b + 256 * n) bs 0)"

definition le_bytes :: "nat \<Rightarrow> nat \<Rightarrow> byte list" where
  "le_bytes k n = map (\<lambda>i. of_nat (n div 256 ^ i)) [0..<k]"

definition rfc_compress :: "uint32 list \<Rightarrow> byte list \<Rightarrow> uint32 list" where
  "rfc_compress H block =
     (let X = map (\<lambda>i. le_word (take 4 (drop (4 * i) block))) [0..<16]
      in map2 (+) H (fold (rfc_round X) [0..<64] H))"

definition rfc_IV :: "uint32 list" where
  "rfc_IV = [0x67452301, 0xefcdab89, 0x98badcfe, 0x10325476]"

definition rfc_pad :: "byte list \<Rightarrow> byte list" where
  "rfc_pad m = m @ 0x80 # replicate ((119 - length m mod 64) mod 64) 0 @ le_bytes 8 (8 * length m)"

definition rfc_md5 :: "byte list \<Rightarrow> byte list" where
  "rfc_md5 m = concat (map (\<lambda>w. le_bytes 4 (unat w)) (block_hash rfc_compress rfc_IV (rfc_pad m)))"

section \<open>One block\<close>

lemma md5_fun_rfc:
  "(if i < 16 then md5_F else if i < 32 then md5_G else if i < 48 then md5_H else md5_I) = rfc_f i"
proof -
  have "md5_F x y z = (x AND y) OR (NOT x AND z)" "md5_G x y z = (x AND z) OR (y AND NOT z)" for x y z
    by (rule bit_word_eqI, auto simp: md5_F_def md5_G_def bit_simps)+
  then show ?thesis by (auto simp: fun_eq_iff rfc_f_def md5_H_def md5_I_def)
qed

lemma md5_steps_rfc: "list_all (\<lambda>i. md5_steps ! i = (rfc_k i, rfc_T ! i, rfc_s i)) [0..<64]"
  by code_simp

lemma md5_step_args: "i < 64 \<Longrightarrow> md5_steps ! i = (rfc_k i, rfc_T ! i, rfc_s i)"
  using md5_steps_rfc by (simp add: list_all_iff)

definition md5_view :: "nat \<Rightarrow> uint32 list \<Rightarrow> uint32 list" where
  "md5_view i r = map (\<lambda>j. r ! md5_reg i j) [0..<4]"

lemma md5_reg_less [simp]: "md5_reg i j < 4"
  by (simp add: md5_reg_def)

lemma md5_reg_inj: "j < 4 \<Longrightarrow> l < 4 \<Longrightarrow> md5_reg i j = md5_reg i l \<longleftrightarrow> j = l"
proof -
  assume jl: "j < 4" "l < 4"
  define m where "m = 3 * i mod 4"
  then have "m < 4" by simp
  with jl have "j \<in> {0, 1, 2, 3}" "l \<in> {0, 1, 2, 3}" "m \<in> {0, 1, 2, 3}" by auto
  then have "(j + m) mod 4 = (l + m) mod 4 \<longleftrightarrow> j = l" by auto
  then show ?thesis unfolding md5_reg_def m_def by (simp add: mod_simps)
qed

lemma md5_reg_Suc: "md5_reg (Suc i) 0 = md5_reg i 3" "md5_reg (Suc i) (Suc j) = md5_reg i j"
  by (simp_all add: md5_reg_def)

lemma md5_view_eq: "md5_view j q = [q ! md5_reg j 0, q ! md5_reg j 1, q ! md5_reg j 2, q ! md5_reg j 3]"
proof -
  have "[0..<4] = [0, 1, 2, 3::nat]" by (simp add: upt_rec)
  then show ?thesis by (simp add: md5_view_def)
qed

lemma md5_STEP_view:
  assumes "length r = 4"
  shows "md5_view (Suc i) (md5_STEP f i x t s r) =
    (let v = md5_view i r in
     [v ! 3, rfc_rotl (v ! 0 + (f (v ! 1) (v ! 2) (v ! 3) + x + t)) s + v ! 1, v ! 1, v ! 2])"
    "length (md5_STEP f i x t s r) = 4"
proof -
  have s: "md5_reg (Suc i) 1 = md5_reg i 0" "md5_reg (Suc i) 2 = md5_reg i 1" "md5_reg (Suc i) 3 = md5_reg i 2"
    using md5_reg_Suc(2) [of i 0] md5_reg_Suc(2) [of i 1] md5_reg_Suc(2) [of i 2] by (simp_all add: eval_nat_numeral)
  have n: "[a, b, c, d] ! 1 = b" "[a, b, c, d] ! 2 = c" "[a, b, c, d] ! 3 = d" for a b c d :: uint32
    by simp_all
  have m: "w AND 0xffffffff = w" for w :: uint32
    using take_bit_eq_mask [of 32 w] take_bit_word_eq_self [where ?'a = 32, of 32 w] by (simp add: mask_eq_exp_minus_1)
  show "md5_view (Suc i) (md5_STEP f i x t s r) =
    (let v = md5_view i r in
     [v ! 3, rfc_rotl (v ! 0 + (f (v ! 1) (v ! 2) (v ! 3) + x + t)) s + v ! 1, v ! 1, v ! 2])"
    unfolding md5_view_eq s md5_reg_Suc(1) Let_def n md5_STEP_def m
    using assms by (simp add: nth_list_update md5_reg_inj rfc_rotl_def)
  show "length (md5_STEP f i x t s r) = 4" using assms by (simp add: md5_STEP_def Let_def)
qed

lemma le_word_4:
  "ucast b0 OR push_bit 8 (ucast b1) OR push_bit 16 (ucast b2) OR push_bit 24 (ucast b3) = le_word [b0, b1, b2, b3]"
proof -
  have b: "ucast b = (of_nat (unat b) :: uint32)" for b :: byte by simp
  have e: "le_word [b0, b1, b2, b3]
      = of_nat (unat b0) + 256 * (of_nat (unat b1) + 256 * (of_nat (unat b2) + 256 * of_nat (unat b3)))"
    by (simp add: le_word_def)
  have s: "push_bit 8 x = x * 256" "push_bit 16 x = x * 65536" "push_bit 24 x = x * 16777216" for x :: uint32
    by (simp_all add: push_bit_eq_mult)
  have d1: "push_bit 16 (ucast b2) AND push_bit 24 (ucast b3) = (0 :: uint32)"
    by (rule bit_word_eqI) (auto simp: bit_simps dest: bit_imp_le_length)
  have d2: "push_bit 8 (ucast b1) AND (push_bit 16 (ucast b2) OR push_bit 24 (ucast b3)) = (0 :: uint32)"
    by (rule bit_word_eqI) (auto simp: bit_simps dest: bit_imp_le_length)
  have d3: "ucast b0 AND (push_bit 8 (ucast b1) OR push_bit 16 (ucast b2) OR push_bit 24 (ucast b3)) = (0 :: uint32)"
    by (rule bit_word_eqI) (auto simp: bit_simps dest: bit_imp_le_length)
  have "ucast b0 OR push_bit 8 (ucast b1) OR push_bit 16 (ucast b2) OR push_bit 24 (ucast b3)
      = ucast b0 + (push_bit 8 (ucast b1) + (push_bit 16 (ucast b2) + push_bit 24 (ucast b3 :: uint32)))"
    by (simp only: word_or_plus [OF d3]) (simp only: word_or_plus [OF d2], simp only: word_or_plus [OF d1])
  then show ?thesis unfolding s e b by (simp add: algebra_simps)
qed

lemma md5_SET_word:
  assumes "length ptr = 64" "n < 16"
  shows "md5_SET ptr n = le_word (take 4 (drop (4 * n) ptr))"
proof -
  have "take 4 (drop (4 * n) ptr) = [ptr ! (n * 4), ptr ! (n * 4 + 1), ptr ! (n * 4 + 2), ptr ! (n * 4 + 3)]"
    using assms by (intro nth_equalityI) (auto simp: less_Suc_eq numeral_eq_Suc mult.commute)
  then show ?thesis by (simp only: md5_SET_def le_word_4)
qed

lemma rfc_k_less: "rfc_k i < 16"
  by (simp add: rfc_k_def)

lemma md5_rounds:
  assumes "length ptr = 64" "length H = 4" "t \<le> 64"
    and X: "X = map (\<lambda>i. le_word (take 4 (drop (4 * i) ptr))) [0..<16]"
  shows "length (fold (md5_use ptr) [0..<t] H) = 4
    \<and> md5_view t (fold (md5_use ptr) [0..<t] H) = fold (rfc_round X) [0..<t] H"
  using assms(3)
proof (induction t)
  case 0
  have "H = map (\<lambda>j. H ! j) [0..<4]" using assms(2) by (metis map_nth)
  moreover have "[0..<4] = [0, 1, 2, 3::nat]" by (simp add: upt_rec)
  ultimately show ?case using assms(2) by (simp add: md5_view_eq md5_reg_def)
next
  case (Suc t)
  let ?r = "fold (md5_use ptr) [0..<t] H"
  have IH: "length ?r = 4" "md5_view t ?r = fold (rfc_round X) [0..<t] H" using Suc by simp_all
  have x: "md5_SET ptr (rfc_k t) = X ! rfc_k t" using md5_SET_word [OF assms(1) rfc_k_less] rfc_k_less X by simp
  have u: "md5_use ptr t ?r = md5_STEP (rfc_f t) t (X ! rfc_k t) (rfc_T ! t) (rfc_s t) ?r"
    using Suc.prems by (simp add: md5_use_def md5_step_args md5_fun_rfc x)
  show ?case
    using md5_STEP_view [OF IH(1), where i = t and f = "rfc_f t" and x = "X ! rfc_k t" and t = "rfc_T ! t" and s = "rfc_s t"] IH(2)
    by (simp add: u rfc_round_def [of X t] Let_def ac_simps)
qed

lemma length_rfc_compress: "length H = 4 \<Longrightarrow> length (rfc_compress H block) = 4"
proof -
  assume "length H = 4"
  moreover have "length (fold (rfc_round X) [0..<t] H) = 4" if "length H = 4" for X t
    using that by (induction t) (simp_all add: rfc_round_def)
  ultimately show ?thesis by (simp add: rfc_compress_def Let_def)
qed

lemma md5_block_rfc: "length H = 4 \<Longrightarrow> length ptr = 64 \<Longrightarrow> md5_block H ptr = rfc_compress H ptr"
proof -
  assume H: "length H = 4" and "length ptr = 64"
  let ?X = "map (\<lambda>i. le_word (take 4 (drop (4 * i) ptr))) [0..<16]"
  let ?r = "fold (md5_use ptr) [0..<64] H"
  from md5_rounds [OF \<open>length ptr = 64\<close> H order_refl refl]
  have r: "length ?r = 4" "md5_view 64 ?r = fold (rfc_round ?X) [0..<64] H" by blast+
  have "md5_reg 64 j = j mod 4" for j using mod_mult_self2 [of j 4 48] by (simp add: md5_reg_def)
  then have "md5_view 64 ?r = map (\<lambda>j. ?r ! j) [0..<4]" by (simp add: md5_view_def)
  also have "\<dots> = ?r" using r(1) by (metis map_nth)
  finally have "?r = fold (rfc_round ?X) [0..<64] H" using r(2) by simp
  moreover have "map2 (+) a b = map2 (+) b (a :: uint32 list)" for a b
    by (induction a b rule: list_induct2') (simp_all add: add.commute)
  ultimately show ?thesis unfolding md5_block_def rfc_compress_def Let_def by metis
qed

lemma md5_body_rfc:
  assumes "length H = 4" "length data = 64 * Suc k"
  shows "md5_body H data = block_hash rfc_compress H data"
  using assms
proof (induction k arbitrary: H data)
  case 0
  then have "block_hash rfc_compress H data = rfc_compress H data"
    using block_hash_block [of data rfc_compress H "[]"] by (simp add: block_hash_short)
  with 0 show ?case by (simp add: md5_body.simps md5_block_rfc)
next
  case (Suc k)
  have "md5_body (rfc_compress H (take 64 data)) (drop 64 data)
      = block_hash rfc_compress (rfc_compress H (take 64 data)) (drop 64 data)"
    using Suc.prems by (intro Suc.IH) (simp_all add: length_rfc_compress)
  with Suc.prems show ?case
    by (subst md5_body.simps, subst block_hash.simps) (simp add: md5_block_rfc)
qed

section \<open>Incremental hashing\<close>

definition md5_holds :: "PHP_MD5_CTX \<Rightarrow> byte list \<Rightarrow> bool" where
  "md5_holds c m \<longleftrightarrow>
     md_lo c = of_nat (length m mod 2 ^ 29) \<and> md_hi c = of_nat (length m div 2 ^ 29)
     \<and> md_abcd c = block_hash rfc_compress rfc_IV m
     \<and> length (md_buffer c) = 64 \<and> take (length m mod 64) (md_buffer c) = block_rest m"

lemma md5_init_holds: "md5_holds PHP_MD5Init []"
  by (simp add: md5_holds_def PHP_MD5Init_def block_hash_short rfc_IV_def block_rest_def)

lemma length_block_hash_rfc: "length H = 4 \<Longrightarrow> length (block_hash rfc_compress H m) = 4"
proof (induction m arbitrary: H rule: measure_induct_rule [of length])
  case (less m)
  show ?case
  proof (cases "length m < 64")
    case True
    with less.prems show ?thesis by (simp add: block_hash_short)
  next
    case False
    then have "length (drop 64 m) < length m" by simp
    from less.IH [OF this length_rfc_compress [OF less.prems]] False show ?thesis
      unfolding block_hash.simps [of rfc_compress H m] by simp
  qed
qed

text \<open>The two halves of the byte counter.\<close>

lemma md5_count:
  fixes L n :: nat
  assumes "n < 2 ^ 31"
  defines "lo \<equiv> of_nat (L mod 2 ^ 29) :: uint32" and "sz \<equiv> of_nat n :: 64 word"
  defines "lo' \<equiv> ucast ((ucast lo + sz) AND 0x1fffffff) :: uint32"
  shows "lo' = of_nat ((L + n) mod 2 ^ 29)"
    and "(if lo' < lo then of_nat (L div 2 ^ 29) + 1 else of_nat (L div 2 ^ 29)) + ucast (drop_bit 29 sz)
      = (of_nat ((L + n) div 2 ^ 29) :: uint32)"
    and "unat (lo AND 0x3f) = L mod 64"
proof -
  define M :: nat where "M = 2 ^ 29"
  have M: "0 < M" by (simp add: M_def)
  have lm: "L mod M < 2 ^ 29" by (simp add: M_def)
  have ulo: "unat lo = L mod M" unfolding lo_def M_def [symmetric] using lm by (simp add: unat_of_nat)
  have "ucast lo = (of_nat (L mod M) :: 64 word)" unfolding ucast_nat ulo ..
  then have s: "ucast lo + sz = of_nat (L mod M + n)" by (simp add: sz_def)
  have mask: "unat (x AND 0x1fffffff) = unat x mod M" for x :: "64 word"
    using take_bit_eq_mask [of 29 x] unsigned_take_bit_eq [where ?'a = nat, of 29 x]
    by (simp add: mask_eq_exp_minus_1 M_def take_bit_eq_mod)
  have "unat (ucast lo + sz) = L mod M + n"
    unfolding s unat_of_nat using lm assms(1) by simp
  then have "unat ((ucast lo + sz) AND 0x1fffffff) = (L + n) mod M" unfolding mask by (simp add: mod_simps)
  then show lo: "lo' = of_nat ((L + n) mod 2 ^ 29)" unfolding lo'_def ucast_nat M_def by simp
  have l32: "(L + n) mod M < 2 ^ 32" using mod_less_divisor [OF M, of "L + n"] by (simp add: M_def)
  have "unat lo' = (L + n) mod M" unfolding lo M_def [symmetric] using l32 by (simp add: unat_of_nat)
  then have lt: "lo' < lo \<longleftrightarrow> (L + n) mod M < L mod M" by (simp add: word_less_nat_alt ulo)
  have "(x + y) mod M < x \<longleftrightarrow> M \<le> x + y" if "x < M" "y < M" for x y
    using that by (cases "M \<le> x + y") (auto simp: le_mod_geq)
  from this [of "L mod M" "n mod M"] M have "(L + n) mod M < L mod M \<longleftrightarrow> M \<le> L mod M + n mod M" by (simp add: mod_simps)
  moreover have "(L mod M + n mod M) div M = (if M \<le> L mod M + n mod M then 1 else 0)"
  proof -
    have "L mod M < M" "n mod M < M" using M by simp_all
    then have "L mod M + n mod M < 2 * M" by linarith
    then show ?thesis using M by (auto simp: div_nat_eqI)
  qed
  ultimately have d: "(L + n) div M = L div M + n div M + (if lo' < lo then 1 else 0)"
    unfolding lt using div_add1_eq [of L n M] by simp
  have "unat sz = n" unfolding sz_def using assms(1) by (simp add: unat_of_nat)
  then have "unat (drop_bit 29 sz) = n div M" by (simp only: unat_drop_bit_eq) (simp add: drop_bit_eq_div M_def)
  then have "ucast (drop_bit 29 sz) = (of_nat (n div M) :: uint32)" unfolding ucast_nat by simp
  then show "(if lo' < lo then of_nat (L div 2 ^ 29) + 1 else of_nat (L div 2 ^ 29)) + ucast (drop_bit 29 sz)
      = (of_nat ((L + n) div 2 ^ 29) :: uint32)"
    unfolding M_def [symmetric] d by simp
  have "unat (x AND 0x3F) = unat x mod 64" for x :: uint32
    using take_bit_eq_mask [of 6 x] unsigned_take_bit_eq [where ?'a = nat, of 6 x]
    by (simp add: mask_eq_exp_minus_1 take_bit_eq_mod)
  from this [of lo] have "unat (lo AND 0x3f) = L mod M mod 64" by (simp add: ulo)
  also have "\<dots> = L mod 64" by (rule mod_mod_cancel) (simp add: M_def)
  finally show "unat (lo AND 0x3f) = L mod 64" .
qed

lemma write_at_complete:
  assumes "length buf = 64" "i + length x = 64"
  shows "write_at i x buf = take i buf @ x"
  using assms by (simp add: write_at_def)

text \<open>The second half of the update, from a position at the start of a block.\<close>

lemma md5_tail:
  assumes H: "length H = 4" and len: "length buf = 64"
  shows "(if 64 \<le> length data then md5_body H (take (64 * (length data div 64)) data) else H)
      = block_hash rfc_compress H data"
    and "(if 64 \<le> length data then drop (64 * (length data div 64)) data else data) = block_rest data"
    and "length (write_at 0 (block_rest data) buf) = 64"
    and "take (length data mod 64) (write_at 0 (block_rest data) buf) = block_rest data"
proof -
  let ?n = "64 * (length data div 64)"
  show "(if 64 \<le> length data then md5_body H (take ?n data) else H) = block_hash rfc_compress H data"
  proof (cases "64 \<le> length data")
    case True
    then obtain k where k: "length data div 64 = Suc k" by (cases "length data div 64") auto
    have l: "length (take ?n data) = 64 * Suc k" unfolding k [symmetric] by (simp add: min.absorb2)
    have "block_hash rfc_compress H (take ?n data @ block_rest data) = block_hash rfc_compress H (take ?n data)"
      using l length_block_rest [of data] by (subst block_hash_append) (simp_all add: block_hash_short)
    with True show ?thesis using md5_body_rfc [OF H l] by (simp add: block_rest_def)
  next
    case False
    then show ?thesis by (simp add: block_hash_short)
  qed
  show "(if 64 \<le> length data then drop ?n data else data) = block_rest data"
    by (simp add: block_rest_def)
  have r: "length (block_rest data) = length data mod 64" by (rule length_block_rest)
  then show "length (write_at 0 (block_rest data) buf) = 64" using len by (simp add: write_at_def)
  show "take (length data mod 64) (write_at 0 (block_rest data) buf) = block_rest data"
    using r by (simp add: write_at_def)
qed

lemma md5_update_holds:
  assumes h: "md5_holds c m" and n: "length inp < 2 ^ 31"
  shows "md5_holds (PHP_MD5Update c inp) (m @ inp)"
proof -
  let ?u = "length m mod 64" and ?f = "64 - length m mod 64"
  have ix: "?u < 64" by simp
  have lo: "md_lo c = of_nat (length m mod 2 ^ 29)" and hi: "md_hi c = of_nat (length m div 2 ^ 29)"
    and st: "md_abcd c = block_hash rfc_compress rfc_IV m"
    and buf: "length (md_buffer c) = 64" "take ?u (md_buffer c) = block_rest m"
    using h by (simp_all add: md5_holds_def)
  have H4: "length (md_abcd c) = 4" unfolding st by (rule length_block_hash_rfc) (simp add: rfc_IV_def)
  note cnt = md5_count [OF n, of "length m", folded lo hi length_append]
  let ?c = "c\<lparr>md_lo := of_nat (length (m @ inp) mod 2 ^ 29), md_hi := of_nat (length (m @ inp) div 2 ^ 29)\<rparr>"
  have sp: "block_hash rfc_compress rfc_IV (m @ inp) = block_hash rfc_compress (md_abcd c) (block_rest m @ inp)"
    unfolding st by (rule block_split)
  have rp: "block_rest (m @ inp) = block_rest (block_rest m @ inp)" by (rule block_rest_append)
  have mp: "length (m @ inp) mod 64 = length (block_rest m @ inp) mod 64"
    using length_block_rest [of "m @ inp"] length_block_rest [of "block_rest m @ inp"] rp by simp
  consider (short) "?u \<noteq> 0" "length inp < ?f" | (fill) "?u \<noteq> 0" "?f \<le> length inp" | (zero) "?u = 0" by linarith
  then show ?thesis
  proof cases
    case short
    have len: "length (block_rest m @ inp) < 64" using short ix by (simp add: length_block_rest)
    have "PHP_MD5Update c inp = ?c\<lparr>md_buffer := write_at ?u inp (md_buffer c)\<rparr>"
      unfolding PHP_MD5Update_def Let_def cnt(1,3) cnt(2) [unfolded cnt(1)] using short by simp
    moreover have "write_at ?u inp (md_buffer c) = (block_rest m @ inp) @ drop (?u + length inp) (md_buffer c)"
      by (simp add: write_at_def buf)
    ultimately show ?thesis
      using len sp rp mp buf(1) ix by (simp add: md5_holds_def block_hash_short block_rest_short length_block_rest)
  next
    case fill
    let ?b = "block_rest m @ take ?f inp" and ?d = "drop ?f inp"
    have lb: "length ?b = 64" using fill ix by (simp add: length_block_rest)
    have wb: "write_at ?u (take ?f inp) (md_buffer c) = ?b"
      using fill ix buf by (subst write_at_complete) simp_all
    have H': "md5_body (md_abcd c) ?b = rfc_compress (md_abcd c) ?b" (is "_ = ?H")
      using md5_body_rfc [OF H4, of ?b 0] lb block_hash_block [OF lb, of rfc_compress "md_abcd c" "[]"]
      by (simp add: block_hash_short)
    have app: "block_rest m @ inp = ?b @ ?d" by simp
    note tail = md5_tail [OF length_rfc_compress [OF H4, of ?b] lb, of ?d]
    have "PHP_MD5Update c inp = ?c\<lparr>md_abcd := block_hash rfc_compress ?H ?d, md_buffer := write_at 0 (block_rest ?d) ?b\<rparr>"
      unfolding PHP_MD5Update_def Let_def cnt(1,3) cnt(2) [unfolded cnt(1)] using fill tail(1,2) by (simp add: wb H' split: if_splits)
    moreover have "block_hash rfc_compress rfc_IV (m @ inp) = block_hash rfc_compress ?H ?d"
      unfolding sp app block_hash_block [OF lb] ..
    moreover have "block_rest (m @ inp) = block_rest ?d" unfolding rp app block_rest_block [OF lb] ..
    moreover have "length (m @ inp) mod 64 = length ?d mod 64" 
      unfolding mp app length_append [of ?b ?d] lb by (rule mod_add_self1)
    ultimately show ?thesis using tail(3,4) by (simp add: md5_holds_def)
  next
    case zero
    then have e: "block_rest m = []" using length_block_rest [of m] by simp
    note tail = md5_tail [OF H4 buf(1), of inp]
    have "PHP_MD5Update c inp = ?c\<lparr>md_abcd := block_hash rfc_compress (md_abcd c) inp,
        md_buffer := write_at 0 (block_rest inp) (md_buffer c)\<rparr>"
      unfolding PHP_MD5Update_def Let_def cnt(1,3) cnt(2) [unfolded cnt(1)] using zero tail(1,2) by (simp split: if_splits)
    then show ?thesis using tail(3,4) sp rp mp e by (simp add: md5_holds_def)
  qed
qed

section \<open>Finalisation\<close>

lemma le_bytes_4: "le_bytes 4 n = map (\<lambda>k. of_nat (n div 2 ^ k)) [0, 8, 16, 24]"
proof -
  have "[0..<4] = [0, 1, 2, 3::nat]" by (simp add: upt_rec)
  then show ?thesis by (simp add: le_bytes_def)
qed

lemma le_word_bytes_le: "le_word_bytes w = le_bytes 4 (unat w)"
  unfolding le_word_bytes_def le_bytes_4 byte_drop_bit ucast_nat [of w] by simp

lemma le_bytes_8: "le_word_bytes (of_nat N) @ le_word_bytes (of_nat (N div 2 ^ 32)) = le_bytes 8 N"
proof -
  have w: "le_word_bytes (of_nat X) = map (\<lambda>k. of_nat (X div 2 ^ k)) [0, 8, 16, 24]" for X
    unfolding le_word_bytes_le le_bytes_4 unat_of_nat
    using byte_of_word32 [of 24 X] byte_of_word32 [of 16 X] byte_of_word32 [of 8 X] byte_of_word32 [of 0 X] by simp
  have u: "[0..<8] = [0, 1, 2, 3, 4, 5, 6, 7::nat]" by (simp add: upt_rec)
  show ?thesis unfolding w le_bytes_def u by (simp add: div_mult2_eq [symmetric])
qed

lemma length_le_word_bytes [simp]: "length (le_word_bytes w) = 4"
  by (simp add: le_word_bytes_def)

text \<open>The length field: \<open>lo\<close> holds bytes modulo \<open>2 ^ 29\<close>, so that shifted by three it is the low word of the bit count.\<close>

lemma md5_bit_count:
  "push_bit 3 (of_nat (L mod 2 ^ 29) :: uint32) = of_nat (8 * L)" "L div 2 ^ 29 = 8 * L div 2 ^ 32"
proof -
  have "push_bit 3 (of_nat (L mod 2 ^ 29) :: uint32) = of_nat (8 * (L mod 2 ^ 29))" by (simp add: push_bit_eq_mult)
  also have "8 * (L mod 2 ^ 29) = 8 * L mod 2 ^ 32" using mult_mod_right [of 8 L "2 ^ 29"] by simp
  also have "(of_nat (8 * L mod 2 ^ 32) :: uint32) = of_nat (8 * L)"
    by (simp only: word_of_nat_eq_iff) (simp add: take_bit_eq_mod)
  finally show "push_bit 3 (of_nat (L mod 2 ^ 29) :: uint32) = of_nat (8 * L)" .
  show "L div 2 ^ 29 = 8 * L div 2 ^ 32" by simp
qed

text \<open>The last block with the length field.\<close>

lemma md5_last_block:
  assumes "length buf = 64" "used \<le> 56" and that: "length v = 4" "length w = 4"
  shows "write_at 60 w (write_at 56 v (write_at used (replicate (56 - used) 0) buf))
      = take used buf @ replicate (56 - used) 0 @ v @ w"
proof -
  have 1: "write_at used (replicate (56 - used) 0) buf = (take used buf @ replicate (56 - used) 0) @ drop 56 buf"
    using assms by (simp add: write_at_def)
  let ?p = "take used buf @ replicate (56 - used) 0"
  have p: "length ?p = 56" using assms by simp
  have 2: "write_at 56 v (?p @ drop 56 buf) = (?p @ v) @ drop 60 buf"
    using p assms that by (simp add: write_at_def)
  have "length (?p @ v) = 60" using p that by simp
  then have "write_at 60 w ((?p @ v) @ drop 60 buf) = (?p @ v) @ w"
    using assms that by (simp add: write_at_def)
  then show ?thesis unfolding 1 2 by simp
qed

lemma md5_final_digest:
  assumes h: "md5_holds c m"
  shows "PHP_MD5Final c = rfc_md5 m"
proof -
  let ?u = "length m mod 64" and ?L = "le_bytes 8 (8 * length m)"
  have ix: "?u < 64" by simp
  have lo: "md_lo c = of_nat (length m mod 2 ^ 29)" and hi: "md_hi c = of_nat (length m div 2 ^ 29)"
    and st: "md_abcd c = block_hash rfc_compress rfc_IV m"
    and buf: "length (md_buffer c) = 64" "take ?u (md_buffer c) = block_rest m"
    using h by (simp_all add: md5_holds_def)
  have H4: "length (md_abcd c) = 4" unfolding st by (rule length_block_hash_rfc) (simp add: rfc_IV_def)
  have used: "unat (md_lo c AND 0x3f) = ?u" unfolding lo by (rule md5_count(3) [of 0]) simp
  have field: "le_word_bytes (push_bit 3 (md_lo c)) @ le_word_bytes (md_hi c) = ?L"
    unfolding lo hi md5_bit_count by (rule le_bytes_8)
  let ?b0 = "write_at ?u [0x80] (md_buffer c)"
  have b0: "take (Suc ?u) ?b0 = block_rest m @ [0x80]" "length ?b0 = 64"
    using buf ix by (simp_all add: write_at_def length_block_rest)
  have body1: "md5_body H d = rfc_compress H d" if "length H = 4" "length d = 64" for H d
    using md5_body_rfc [OF that(1), of d 0] that(2) block_hash_block [OF that(2), of rfc_compress H "[]"]
    by (simp add: block_hash_short)
  have pad: "block_hash rfc_compress rfc_IV (rfc_pad m) = block_hash rfc_compress (md_abcd c)
      (block_rest m @ 0x80 # replicate ((119 - ?u) mod 64) 0 @ ?L)"
    unfolding rfc_pad_def st by (rule block_split)
  let ?w = "\<lambda>used buf. write_at 60 (le_word_bytes (md_hi c)) (write_at 56 (le_word_bytes (push_bit 3 (md_lo c)))
      (write_at used (replicate (56 - used) 0) buf))"
  have last: "?w used buf = take used buf @ replicate (56 - used) 0 @ ?L" if "length buf = 64" "used \<le> 56" for used buf
    using md5_last_block [OF that, of "le_word_bytes (push_bit 3 (md_lo c))" "le_word_bytes (md_hi c)"] field by simp
  have lL: "length ?L = 8" by (simp add: le_bytes_def)
  show ?thesis
  proof (cases "64 - Suc ?u < 8")
    case True
    let ?b1 = "write_at (Suc ?u) (replicate (64 - Suc ?u) 0) ?b0"
    have b1: "?b1 = block_rest m @ 0x80 # replicate (63 - ?u) 0"
      using b0 ix by (subst write_at_complete) (simp_all add: b0)
    have l1: "length ?b1 = 64" unfolding b1 using ix by (simp add: length_block_rest)
    have l2: "length (replicate 56 0 @ ?L) = 64" using lL by simp
    have r: "(119 - ?u) mod 64 = (63 - ?u) + 56" using True ix by simp
    have "block_hash rfc_compress rfc_IV (rfc_pad m) = block_hash rfc_compress (md_abcd c) (?b1 @ (replicate 56 0 @ ?L))"
      unfolding pad r b1 replicate_add by (simp only: append_assoc append_Cons)
    also have "\<dots> = md5_body (md5_body (md_abcd c) ?b1) (replicate 56 0 @ ?L)"
      unfolding block_hash_block [OF l1] body1 [OF H4 l1] body1 [OF length_rfc_compress [OF H4] l2]
      using block_hash_block [OF l2, of rfc_compress _ "[]"] by (simp add: block_hash_short)
    finally have e: "block_hash rfc_compress rfc_IV (rfc_pad m)
        = md5_body (md5_body (md_abcd c) ?b1) (replicate 56 0 @ ?L)" .
    show ?thesis
      using True last [OF l1, of 0]
      by (simp add: PHP_MD5Final_def Let_def used rfc_md5_def e le_word_bytes_le [abs_def])
  next
    case False
    then have u: "Suc ?u \<le> 56" by simp
    have r: "(119 - ?u) mod 64 = 55 - ?u" using u by (subst le_mod_geq) auto
    let ?b2 = "take (Suc ?u) ?b0 @ replicate (56 - Suc ?u) 0 @ ?L"
    have b2: "?b2 = block_rest m @ 0x80 # replicate (55 - ?u) 0 @ ?L" unfolding b0 by simp
    have l2: "length ?b2 = 64" unfolding b2 using u lL by (simp add: length_block_rest)
    have e: "block_hash rfc_compress rfc_IV (rfc_pad m) = md5_body (md_abcd c) ?b2"
      unfolding pad r b2 [symmetric]
      using block_hash_block [OF l2, of rfc_compress "md_abcd c" "[]"] body1 [OF H4 l2] by (simp add: block_hash_short)
    have "64 - Suc ?u - 8 = 56 - Suc ?u" by simp
    then show ?thesis
      using False last [OF b0(2) u]
      by (simp add: PHP_MD5Final_def Let_def used rfc_md5_def e le_word_bytes_le [abs_def])
  qed
qed

interpretation md5: streaming_digest PHP_MD5Init PHP_MD5Update PHP_MD5Final rfc_md5 md5_holds "\<lambda>n. length n < 2 ^ 31"
  by unfold_locales (simp_all add: md5_init_holds md5_update_holds md5_final_digest)

text \<open>
  (C29) The MD5 code computes MD5: whatever the pieces in which a message is given to
  \<open>PHP_MD5Update\<close> (each shorter than \<open>2 ^ 31\<close> bytes), \<open>PHP_MD5Final\<close> yields the digest RFC 1321
  defines for the whole message.
\<close>

theorem md5_rfc:
  "list_all (\<lambda>n. length n < 2 ^ 31) ns \<Longrightarrow>
    PHP_MD5Final (foldl PHP_MD5Update PHP_MD5Init ns) = rfc_md5 (concat ns)"
  by (rule md5.digest_of_chunks)

theorem md5_rfc_witness:
  "PHP_MD5Final (PHP_MD5Update (PHP_MD5Update PHP_MD5Init [97, 98]) [99]) = rfc_md5 [97, 98, 99]"
  using md5_rfc [of "[[97, 98], [99]]"] by simp

end
