(* ===== verification/Zend_Hash_Ops.thy ===== *)
theory Zend_Hash_Ops
  imports Zend_Hash_Correct
begin

text \<open>
  The operations of Zend/zend_hash.c that work on a whole table: the apply family, which visits the
  elements and deletes those a callback selects, copying and merging, and the saved positions of
  \<open>foreach\<close>. A callback is a function of the element's value and of a state of its own; it may
  replace the value but does not touch the table it is called on. A copy constructor is a function
  on values: the stored element is the image of the copied one. The results are those of the
  corresponding functions on the ordered list of entries.
\<close>

section \<open>Protection against recursion\<close>

text \<open>
  \<open>HASH_PROTECT_RECURSION\<close>: \<open>None\<close> is the fatal error ``Nesting level too deep'', otherwise
  the new counter. The counter is an unsigned char.
\<close>

definition hash_protect_recursion :: "bool \<Rightarrow> 8 word \<Rightarrow> 8 word option" where
  "hash_protect_recursion bApplyProtection nApplyCount =
     (if bApplyProtection
      then if 3 \<le> nApplyCount then None else Some (nApplyCount + 1)
      else Some nApplyCount)"

datatype 'a protected = Nesting_too_deep | Finished 'a

text \<open>The state of the protection: the flag and the counter of the table.\<close>

type_synonym protection = "bool \<times> 8 word"

definition protected_run :: "protection \<Rightarrow> 'a option \<Rightarrow> 'a protected option" where
  "protected_run prot body =
     (case hash_protect_recursion (fst prot) (snd prot) of
        None \<Rightarrow> Some Nesting_too_deep
      | Some _ \<Rightarrow> map_option Finished body)"

section \<open>The apply family\<close>

definition ZEND_HASH_APPLY_REMOVE :: uint where
  "ZEND_HASH_APPLY_REMOVE = 1"

definition ZEND_HASH_APPLY_STOP :: uint where
  "ZEND_HASH_APPLY_STOP = 2"

text \<open>
  A callback: key, value and its own state give the result code, the value left in the element and
  the new state.
\<close>

type_synonym ('v, 's) apply_func = "bkey \<Rightarrow> 'v \<Rightarrow> 's \<Rightarrow> uint \<times> 'v \<times> 's"

text \<open>One round of the loop: the call and the deletion.\<close>

definition apply_step ::
  "('v, 's) apply_func \<Rightarrow> addr \<Rightarrow> 'v Bucket \<Rightarrow> 's \<Rightarrow> 'v HashTable \<Rightarrow> (uint \<times> 's \<times> 'v HashTable) option" where
  "apply_step f p b s ht =
     (let (result, v, s) = f (b_h b, b_arKey b) (b_pData b) s in
      do { ht \<leftarrow> set_bucket p (\<lambda>b. b\<lparr>b_pData := v\<rparr>) ht;
           ht \<leftarrow> (if result AND ZEND_HASH_APPLY_REMOVE \<noteq> 0 then zend_hash_bucket_delete ht p else Some ht);
           Some (result, s, ht) })"

text \<open>\<open>nx\<close> is the link the loop follows, read before the element can be deleted.\<close>

partial_function (option) apply_loop ::
  "('v Bucket \<Rightarrow> addr option) \<Rightarrow> ('v, 's) apply_func \<Rightarrow> addr option \<Rightarrow> 's \<Rightarrow> 'v HashTable \<Rightarrow>
   ('s \<times> 'v HashTable) option" where
  "apply_loop nx f p s ht =
     (case p of
        None \<Rightarrow> Some (s, ht)
      | Some a \<Rightarrow>
          (case heap ht a of
             None \<Rightarrow> None
           | Some b \<Rightarrow>
               (case apply_step f a b s ht of
                  None \<Rightarrow> None
                | Some (result, s, ht) \<Rightarrow>
                    if result AND ZEND_HASH_APPLY_STOP \<noteq> 0 then Some (s, ht)
                    else apply_loop nx f (nx b) s ht)))"

declare apply_loop.simps [code]

definition zend_hash_apply ::
  "protection \<Rightarrow> ('v \<Rightarrow> 's \<Rightarrow> uint \<times> 'v \<times> 's) \<Rightarrow> 's \<Rightarrow> 'v HashTable \<Rightarrow> ('s \<times> 'v HashTable) protected option" where
  "zend_hash_apply prot apply_func s ht =
     protected_run prot (apply_loop b_pListNext (\<lambda>_. apply_func) (pListHead ht) s ht)"

definition zend_hash_apply_with_argument ::
  "protection \<Rightarrow> ('v \<Rightarrow> 'a \<Rightarrow> 's \<Rightarrow> uint \<times> 'v \<times> 's) \<Rightarrow> 'a \<Rightarrow> 's \<Rightarrow> 'v HashTable \<Rightarrow>
   ('s \<times> 'v HashTable) protected option" where
  "zend_hash_apply_with_argument prot apply_func argument s ht =
     protected_run prot (apply_loop b_pListNext (\<lambda>_ v. apply_func v argument) (pListHead ht) s ht)"

definition zend_hash_apply_with_arguments ::
  "protection \<Rightarrow> ('v \<Rightarrow> 'a list \<Rightarrow> bkey \<Rightarrow> 's \<Rightarrow> uint \<times> 'v \<times> 's) \<Rightarrow> 'a list \<Rightarrow> 's \<Rightarrow> 'v HashTable \<Rightarrow>
   ('s \<times> 'v HashTable) protected option" where
  "zend_hash_apply_with_arguments prot apply_func args s ht =
     protected_run prot
       (apply_loop b_pListNext (\<lambda>hash_key v. apply_func v args hash_key) (pListHead ht) s ht)"

definition zend_hash_reverse_apply ::
  "protection \<Rightarrow> ('v \<Rightarrow> 's \<Rightarrow> uint \<times> 'v \<times> 's) \<Rightarrow> 's \<Rightarrow> 'v HashTable \<Rightarrow> ('s \<times> 'v HashTable) protected option" where
  "zend_hash_reverse_apply prot apply_func s ht =
     protected_run prot (apply_loop b_pListLast (\<lambda>_. apply_func) (pListTail ht) s ht)"

partial_function (option) graceful_reverse_loop :: "'v HashTable \<Rightarrow> 'v HashTable option" where
  "graceful_reverse_loop ht =
     (case pListTail ht of
        None \<Rightarrow> Some ht
      | Some p \<Rightarrow>
          (case zend_hash_bucket_delete ht p of None \<Rightarrow> None | Some ht' \<Rightarrow> graceful_reverse_loop ht'))"

declare graceful_reverse_loop.simps [code]

definition zend_hash_graceful_reverse_destroy :: "'v HashTable \<Rightarrow> 'v HashTable option" where
  "zend_hash_graceful_reverse_destroy ht = do {
     ht' \<leftarrow> graceful_reverse_loop ht;
     Some (if nTableMask ht' \<noteq> 0 then ht'\<lparr>arBuckets := []\<rparr> else ht') }"

section \<open>Copying and merging\<close>

text \<open>
  The calls \<open>zend_hash_quick_update\<close> and \<open>zend_hash_index_update\<close> of one source bucket, followed by
  the copy constructor on the new entry.
\<close>

definition copied :: "('v \<Rightarrow> 'v) option \<Rightarrow> 'v \<Rightarrow> 'v" where
  "copied pCopyConstructor v = (case pCopyConstructor of None \<Rightarrow> v | Some c \<Rightarrow> c v)"

definition copy_bucket ::
  "('v \<Rightarrow> 'v) option \<Rightarrow> 'v Bucket \<Rightarrow> 'v HashTable \<Rightarrow> 'v HashTable option" where
  "copy_bucket pCopyConstructor b target = do {
     r \<leftarrow> (if b_arKey b \<noteq> []
           then zend_hash_quick_add_or_update target (b_arKey b) (b_h b)
                  (copied pCopyConstructor (b_pData b)) HASH_UPDATE
           else zend_hash_index_update_or_next_insert target (b_h b)
                  (copied pCopyConstructor (b_pData b)) HASH_UPDATE);
     Some (snd r) }"

text \<open>\<open>zend_hash_copy\<close> lets the target's internal pointer follow the source's.\<close>

definition copy_step ::
  "('v \<Rightarrow> 'v) option \<Rightarrow> bool \<Rightarrow> 'v HashTable \<Rightarrow> addr \<Rightarrow> 'v Bucket \<Rightarrow> 'v HashTable \<Rightarrow> 'v HashTable option" where
  "copy_step pCopyConstructor setTargetPointer source p b target =
     copy_bucket pCopyConstructor b
       (if setTargetPointer \<and> pInternalPointer source = Some p
        then target\<lparr>pInternalPointer := None\<rparr> else target)"

text \<open>The loop over the source that copying and merging share.\<close>

partial_function (option) merge_loop ::
  "('v HashTable \<Rightarrow> addr \<Rightarrow> 'v Bucket \<Rightarrow> 'v HashTable \<Rightarrow> 'v HashTable option) \<Rightarrow> 'v HashTable \<Rightarrow>
   addr option \<Rightarrow> 'v HashTable \<Rightarrow> 'v HashTable option" where
  "merge_loop step source p target =
     (case p of
        None \<Rightarrow> Some target
      | Some a \<Rightarrow>
          (case heap source a of
             None \<Rightarrow> None
           | Some b \<Rightarrow>
               (case step source a b target of
                  None \<Rightarrow> None
                | Some target \<Rightarrow> merge_loop step source (b_pListNext b) target)))"

declare merge_loop.simps [code]

definition zend_hash_copy ::
  "'v HashTable \<Rightarrow> 'v HashTable \<Rightarrow> ('v \<Rightarrow> 'v) option \<Rightarrow> 'v HashTable option" where
  "zend_hash_copy target source pCopyConstructor = do {
     target \<leftarrow> merge_loop (copy_step pCopyConstructor (pInternalPointer target = None)) source
                 (pListHead source) target;
     Some (if pInternalPointer target = None
           then target\<lparr>pInternalPointer := pListHead target\<rparr> else target) }"

text \<open>One element of \<open>_zend_hash_merge\<close>.\<close>

definition merge_bucket ::
  "('v \<Rightarrow> 'v) option \<Rightarrow> bool \<Rightarrow> 'v HashTable \<Rightarrow> addr \<Rightarrow> 'v Bucket \<Rightarrow> 'v HashTable \<Rightarrow> 'v HashTable option" where
  "merge_bucket pCopyConstructor overwrite source p b target =
     (let mode = (if overwrite then HASH_UPDATE else HASH_ADD) in
      if b_arKey b \<noteq> []
      then do { r \<leftarrow> zend_hash_quick_add_or_update target (b_arKey b) (b_h b)
                       (copied pCopyConstructor (b_pData b)) mode;
                Some (snd r) }
      else do {
        found \<leftarrow> (if mode = HASH_UPDATE then Some False else zend_hash_index_exists target (b_h b));
        (if \<not> found
         then do { r \<leftarrow> zend_hash_index_update_or_next_insert target (b_h b)
                          (copied pCopyConstructor (b_pData b)) HASH_UPDATE;
                   Some (snd r) }
         else Some target) })"

definition zend_hash_merge ::
  "'v HashTable \<Rightarrow> 'v HashTable \<Rightarrow> ('v \<Rightarrow> 'v) option \<Rightarrow> bool \<Rightarrow> 'v HashTable option" where
  "zend_hash_merge target source pCopyConstructor overwrite = do {
     target \<leftarrow> merge_loop (merge_bucket pCopyConstructor overwrite) source (pListHead source) target;
     Some (target\<lparr>pInternalPointer := pListHead target\<rparr>) }"

text \<open>
  \<open>zend_hash_merge_ex\<close>: the checker sees the target, the source value and the key. The key is
  stored by \<open>zend_hash_quick_update\<close>, which is only defined for string keys.
\<close>

definition zend_hash_replace_checker_wrapper ::
  "('v HashTable \<Rightarrow> 'v \<Rightarrow> bkey \<Rightarrow> bool) \<Rightarrow> 'v HashTable \<Rightarrow> 'v Bucket \<Rightarrow> bool" where
  "zend_hash_replace_checker_wrapper merge_checker_func target p =
     merge_checker_func target (b_pData p) (b_h p, b_arKey p)"

definition merge_ex_bucket ::
  "('v \<Rightarrow> 'v) option \<Rightarrow> ('v HashTable \<Rightarrow> 'v \<Rightarrow> bkey \<Rightarrow> bool) \<Rightarrow> 'v HashTable \<Rightarrow> addr \<Rightarrow> 'v Bucket \<Rightarrow>
   'v HashTable \<Rightarrow> 'v HashTable option" where
  "merge_ex_bucket pCopyConstructor pMergeSource source p b target =
     (if zend_hash_replace_checker_wrapper pMergeSource target b
      then do { r \<leftarrow> zend_hash_quick_add_or_update target (b_arKey b) (b_h b)
                       (copied pCopyConstructor (b_pData b)) HASH_UPDATE;
                Some (snd r) }
      else Some target)"

definition zend_hash_merge_ex ::
  "'v HashTable \<Rightarrow> 'v HashTable \<Rightarrow> ('v \<Rightarrow> 'v) option \<Rightarrow> ('v HashTable \<Rightarrow> 'v \<Rightarrow> bkey \<Rightarrow> bool) \<Rightarrow> 'v HashTable option" where
  "zend_hash_merge_ex target source pCopyConstructor pMergeSource = do {
     target \<leftarrow> merge_loop (merge_ex_bucket pCopyConstructor pMergeSource) source (pListHead source) target;
     Some (target\<lparr>pInternalPointer := pListHead target\<rparr>) }"

section \<open>Saved positions\<close>

record HashPointer =
  hp_pos :: HashPosition
  hp_h :: ulong

definition zend_hash_get_pointer :: "'v HashTable \<Rightarrow> (bool \<times> HashPointer) option" where
  "zend_hash_get_pointer ht =
     (case pInternalPointer ht of
        None \<Rightarrow> Some (False, \<lparr>hp_pos = None, hp_h = 0\<rparr>)
      | Some a \<Rightarrow> do { b \<leftarrow> heap ht a; Some (True, \<lparr>hp_pos = Some a, hp_h = b_h b\<rparr>) })"

text \<open>The search compares the addresses of the buckets in the chain of the saved hash.\<close>

partial_function (option) chain_member ::
  "(addr \<Rightarrow> 'v Bucket option) \<Rightarrow> addr \<Rightarrow> addr option \<Rightarrow> bool option" where
  "chain_member hp a p =
     (case p of
        None \<Rightarrow> Some False
      | Some x \<Rightarrow>
          if x = a then Some True
          else (case hp x of None \<Rightarrow> None | Some b \<Rightarrow> chain_member hp a (b_pNext b)))"

declare chain_member.simps [code]

definition zend_hash_set_pointer :: "'v HashTable \<Rightarrow> HashPointer \<Rightarrow> (bool \<times> 'v HashTable) option" where
  "zend_hash_set_pointer ht ptr =
     (case hp_pos ptr of
        None \<Rightarrow> Some (True, ht\<lparr>pInternalPointer := None\<rparr>)
      | Some a \<Rightarrow>
          if pInternalPointer ht \<noteq> Some a
          then do { p \<leftarrow> bucket_head ht (bucket_index ht (hp_h ptr));
                    found \<leftarrow> chain_member (heap ht) a p;
                    Some (if found then (True, ht\<lparr>pInternalPointer := Some a\<rparr>) else (False, ht)) }
          else Some (True, ht))"

datatype hash_key_type = HASH_KEY_IS_STRING | HASH_KEY_IS_LONG | HASH_KEY_NON_EXISTENT

definition zend_hash_get_current_key_type_ex :: "'v HashTable \<Rightarrow> HashPosition \<Rightarrow> hash_key_type option" where
  "zend_hash_get_current_key_type_ex ht pos =
     (case pos of
        None \<Rightarrow> Some HASH_KEY_NON_EXISTENT
      | Some a \<Rightarrow>
          do { b \<leftarrow> heap ht a;
               Some (if b_arKey b \<noteq> [] then HASH_KEY_IS_STRING else HASH_KEY_IS_LONG) })"

section \<open>The apply family on entries\<close>

fun apply_entries ::
  "('k \<Rightarrow> 'v \<Rightarrow> 's \<Rightarrow> uint \<times> 'v \<times> 's) \<Rightarrow> ('k \<times> 'v) list \<Rightarrow> 's \<Rightarrow> ('k \<times> 'v) list \<times> 'v list \<times> 's"
where
  "apply_entries f [] s = ([], [], s)"
| "apply_entries f ((k, v) # es) s =
     (let (r, v', s') = f k v s;
          (kept, gone, s'') = (if r AND ZEND_HASH_APPLY_STOP \<noteq> 0 then (es, [], s') else apply_entries f es s')
      in if r AND ZEND_HASH_APPLY_REMOVE \<noteq> 0 then (kept, v' # gone, s'') else ((k, v') # kept, gone, s''))"

lemma ht_entries_append: "ht_entries ht (xs @ ys) = ht_entries ht xs @ ht_entries ht ys"
  by (simp add: ht_entries_def)

lemma ht_entries_Cons: "ht_entries ht (a # xs) = bucket_entry (heap ht) a # ht_entries ht xs"
  by (simp add: ht_entries_def)

lemma ht_entries_Nil [simp]: "ht_entries ht [] = []"
  by (simp add: ht_entries_def)

lemma set_data_eq:
  "heap ht a \<noteq> None \<Longrightarrow>
    set_bucket a (\<lambda>b. b\<lparr>b_pData := v\<rparr>) ht = Some (ht\<lparr>heap := data_set a v (heap ht)\<rparr>)"
  by (auto simp: set_bucket_def data_set_def fun_eq_iff option.map_ident)

lemma set_data_rep: "ht_rep ht gs cs \<Longrightarrow> ht_rep (ht\<lparr>heap := data_set a v (heap ht)\<rparr>) gs cs"
  by (erule ht_rep_cong) (auto simp: fun_eq_iff)

lemma set_data_entries:
  assumes "\<forall>x \<in> set xs. heap ht x \<noteq> None" and "a \<notin> set xs"
  shows "ht_entries (ht\<lparr>heap := data_set a v (heap ht)\<rparr>) xs = ht_entries ht xs"
  using assms by (auto simp: ht_entries_def bucket_entry_def data_set_data)

lemma ht_rep_dom: "ht_rep ht gs cs \<Longrightarrow> heap ht a \<noteq> None \<longleftrightarrow> a \<in> set gs"
  by (simp add: ht_rep_def global_ok_def)

lemma ht_rep_dist: "ht_rep ht gs cs \<Longrightarrow> distinct gs"
  by (simp add: ht_rep_def global_ok_def dll_def)

lemma ht_rep_next: "ht_rep ht (xs @ a # ys) cs \<Longrightarrow> heap ht a = Some b \<Longrightarrow> b_pListNext b = head_opt ys"
  using lseg_nx [of "link b_pListNext (heap ht)" _ _ xs a ys]
  by (fastforce simp: ht_rep_def global_ok_def dll_def link_def)

lemma ht_rep_last: "ht_rep ht (xs @ a # ys) cs \<Longrightarrow> heap ht a = Some b \<Longrightarrow> b_pListLast b = last_opt xs"
  using lseg_pv [of _ "link b_pListLast (heap ht)" None xs a ys]
  by (fastforce simp: ht_rep_def global_ok_def dll_def link_def split: if_splits)

lemma ht_rep_ends: "ht_rep ht gs cs \<Longrightarrow> pListHead ht = head_opt gs \<and> pListTail ht = last_opt gs"
  by (simp add: ht_rep_def global_ok_def dll_def)

text \<open>One round of the loop on the element between \<open>xs\<close> and \<open>ys\<close>.\<close>

lemma apply_step_ok:
  assumes rep: "ht_rep ht (xs @ a # ys) cs" and b: "heap ht a = Some b"
    and f: "f (bucket_key (heap ht) a) (b_pData b) s = (r, v, s')"
  defines "removed \<equiv> r AND ZEND_HASH_APPLY_REMOVE \<noteq> 0"
  shows "\<exists>ht' cs'. apply_step f a b s ht = Some (r, s', ht')
    \<and> ht_rep ht' (xs @ (if removed then [] else [a]) @ ys) cs'
    \<and> ht_entries ht' (xs @ (if removed then [] else [a]) @ ys)
        = ht_entries ht xs @ (if removed then [] else [(bucket_key (heap ht) a, v)]) @ ht_entries ht ys
    \<and> destroyed ht' = destroyed ht @ (if removed \<and> pDestructor ht then [v] else [])
    \<and> pDestructor ht' = pDestructor ht \<and> nNextFreeElement ht' = nNextFreeElement ht"
proof -
  let ?ht = "ht\<lparr>heap := data_set a v (heap ht)\<rparr>"
  have key: "bucket_key (heap ht) a = (b_h b, b_arKey b)" by (simp add: bucket_key_def b)
  have rep1: "ht_rep ?ht (xs @ a # ys) cs" by (rule set_data_rep [OF rep])
  have out: "\<forall>x \<in> set xs \<union> set ys. heap ht x \<noteq> None" "a \<notin> set xs" "a \<notin> set ys"
    using ht_rep_dom [OF rep] ht_rep_dist [OF rep] by auto
  have ents: "ht_entries ?ht xs = ht_entries ht xs" "ht_entries ?ht ys = ht_entries ht ys"
    "bucket_entry (heap ?ht) a = (bucket_key (heap ht) a, v)"
    using out b by (auto intro!: set_data_entries simp: bucket_entry_def data_set_data)
  have step: "apply_step f a b s ht = (if removed then zend_hash_bucket_delete ?ht a \<bind> (\<lambda>ht. Some (r, s', ht))
      else Some (r, s', ?ht))"
    using f b by (simp add: apply_step_def key set_data_eq removed_def)
  show ?thesis
  proof (cases removed)
    case False
    with step rep1 ents show ?thesis by (auto simp: ht_entries_append ht_entries_Cons)
  next
    case True
    obtain b1 cs' where d: "heap ?ht a = Some b1"
      "zend_hash_bucket_delete ?ht a = Some (bucket_deleted a b1 ?ht)"
      "ht_rep (bucket_deleted a b1 ?ht) (xs @ ys) cs'"
      "ht_entries (bucket_deleted a b1 ?ht) (xs @ ys) = ht_entries ?ht xs @ ht_entries ?ht ys"
      using bucket_delete_ok [OF rep1] by metis
    have "b_pData b1 = v" using d(1) b by (auto simp: data_set_def)
    with True step d ents show ?thesis by (auto simp: bucket_deleted_def)
  qed
qed

text \<open>
  The same round, against the specification and for either direction: \<open>rest\<close> are the entries the
  loop has still to visit.
\<close>

lemma apply_round:
  assumes rep: "ht_rep ht (xs @ a # ys) cs" and b: "heap ht a = Some b"
    and spec: "apply_entries f (bucket_entry (heap ht) a # rest) s = (kept, gone, s')"
  obtains r s1 ht1 cs1 mid pre gone0 kept1 gone1 where
    "ht_rep ht1 (xs @ mid @ ys) cs1"
    "ht_entries ht1 xs = ht_entries ht xs" "ht_entries ht1 mid = pre" "ht_entries ht1 ys = ht_entries ht ys"
    "kept = pre @ kept1" "gone = gone0 @ gone1" "rev pre = pre"
    "destroyed ht1 = destroyed ht @ (if pDestructor ht then gone0 else [])"
    "pDestructor ht1 = pDestructor ht" "nNextFreeElement ht1 = nNextFreeElement ht"
    "apply_loop nx f (Some a) s ht =
       (if r AND ZEND_HASH_APPLY_STOP \<noteq> 0 then Some (s1, ht1) else apply_loop nx f (nx b) s1 ht1)"
    "if r AND ZEND_HASH_APPLY_STOP \<noteq> 0 then kept1 = rest \<and> gone1 = [] \<and> s' = s1
     else apply_entries f rest s1 = (kept1, gone1, s')"
proof -
  obtain r v s1 where f: "f (bucket_key (heap ht) a) (b_pData b) s = (r, v, s1)"
    by (cases "f (bucket_key (heap ht) a) (b_pData b) s")
  define rem where "rem \<longleftrightarrow> r AND ZEND_HASH_APPLY_REMOVE \<noteq> 0"
  define mid where "mid = (if rem then [] else [a])"
  define pre where "pre = (if rem then [] else [(bucket_key (heap ht) a, v)])"
  define gone0 where "gone0 = (if rem then [v] else [])"
  obtain ht1 cs1 where st: "apply_step f a b s ht = Some (r, s1, ht1)"
    "ht_rep ht1 (xs @ mid @ ys) cs1"
    "ht_entries ht1 (xs @ mid @ ys) = ht_entries ht xs @ pre @ ht_entries ht ys"
    "destroyed ht1 = destroyed ht @ (if pDestructor ht then gone0 else [])"
    "pDestructor ht1 = pDestructor ht" "nNextFreeElement ht1 = nNextFreeElement ht"
    using apply_step_ok [where f = f, OF rep b f, folded rem_def, folded mid_def pre_def]
    by (auto simp: gone0_def)
  have "length (ht_entries ht1 xs) = length (ht_entries ht xs)" "length (ht_entries ht1 mid) = length pre"
    by (auto simp: ht_entries_def mid_def pre_def)
  then have ents: "ht_entries ht1 xs = ht_entries ht xs" "ht_entries ht1 mid = pre"
    "ht_entries ht1 ys = ht_entries ht ys"
    using st(3) by (auto simp: ht_entries_append)
  define kept1 gone1 where "kept1 = (if r AND ZEND_HASH_APPLY_STOP \<noteq> 0 then rest else fst (apply_entries f rest s1))"
    and "gone1 = (if r AND ZEND_HASH_APPLY_STOP \<noteq> 0 then [] else fst (snd (apply_entries f rest s1)))"
  have "kept = pre @ kept1" "gone = gone0 @ gone1"
    "if r AND ZEND_HASH_APPLY_STOP \<noteq> 0 then kept1 = rest \<and> gone1 = [] \<and> s' = s1
     else apply_entries f rest s1 = (kept1, gone1, s')"
    using spec f b unfolding pre_def gone0_def kept1_def gone1_def
    by (auto simp: bucket_entry_def rem_def split: if_splits prod.splits)
  moreover have "rev pre = pre" by (simp add: pre_def)
  moreover have "apply_loop nx f (Some a) s ht =
      (if r AND ZEND_HASH_APPLY_STOP \<noteq> 0 then Some (s1, ht1) else apply_loop nx f (nx b) s1 ht1)"
    using b st(1) by (simp add: apply_loop.simps [of _ _ "Some a"])
  ultimately show thesis using st(2,4-6) ents by (intro that)
qed

lemma apply_loop_ok:
  assumes "ht_rep ht (xs @ ys) cs" and "apply_entries f (ht_entries ht ys) s = (kept, gone, s')"
  shows "\<exists>ht' gs' cs'. apply_loop b_pListNext f (head_opt ys) s ht = Some (s', ht')
    \<and> ht_rep ht' gs' cs' \<and> ht_entries ht' gs' = ht_entries ht xs @ kept
    \<and> destroyed ht' = destroyed ht @ (if pDestructor ht then gone else [])
    \<and> pDestructor ht' = pDestructor ht \<and> nNextFreeElement ht' = nNextFreeElement ht"
  using assms
proof (induction ys arbitrary: xs ht cs s kept gone)
  case Nil
  then show ?case by (auto simp: apply_loop.simps)
next
  case (Cons a ys)
  obtain b where b: "heap ht a = Some b" using ht_rep_dom [OF Cons.prems(1), of a] by auto
  note nxt = ht_rep_next [OF Cons.prems(1) b]
  obtain r s1 ht1 cs1 mid pre gone0 kept1 gone1 where
    st: "ht_rep ht1 (xs @ mid @ ys) cs1"
    "ht_entries ht1 xs = ht_entries ht xs" "ht_entries ht1 mid = pre" "ht_entries ht1 ys = ht_entries ht ys"
    "kept = pre @ kept1" "gone = gone0 @ gone1" "rev pre = pre"
    "destroyed ht1 = destroyed ht @ (if pDestructor ht then gone0 else [])"
    "pDestructor ht1 = pDestructor ht" "nNextFreeElement ht1 = nNextFreeElement ht"
    and loop: "apply_loop b_pListNext f (Some a) s ht =
       (if r AND ZEND_HASH_APPLY_STOP \<noteq> 0 then Some (s1, ht1) else apply_loop b_pListNext f (b_pListNext b) s1 ht1)"
    "if r AND ZEND_HASH_APPLY_STOP \<noteq> 0 then kept1 = ht_entries ht ys \<and> gone1 = [] \<and> s' = s1
     else apply_entries f (ht_entries ht ys) s1 = (kept1, gone1, s')"
    by (rule apply_round [OF Cons.prems(1) b Cons.prems(2) [unfolded ht_entries_Cons]])
  have rep1: "ht_rep ht1 ((xs @ mid) @ ys) cs1" using st(1) by simp
  show ?case
  proof (cases "r AND ZEND_HASH_APPLY_STOP \<noteq> 0")
    case True
    with loop st show ?thesis by (fastforce simp: ht_entries_append)
  next
    case False
    with loop(2) st(4) Cons.IH [OF rep1, of s1 kept1 gone1] obtain ht2 gs2 cs2 where
      "apply_loop b_pListNext f (head_opt ys) s1 ht1 = Some (s', ht2)" "ht_rep ht2 gs2 cs2"
      "ht_entries ht2 gs2 = ht_entries ht1 (xs @ mid) @ kept1"
      "destroyed ht2 = destroyed ht1 @ (if pDestructor ht1 then gone1 else [])"
      "pDestructor ht2 = pDestructor ht1" "nNextFreeElement ht2 = nNextFreeElement ht1"
      by auto
    with False loop st nxt show ?thesis by (simp add: ht_entries_append) metis
  qed
qed

lemma reverse_apply_loop_ok:
  assumes "ht_rep ht (xs @ ys) cs" and "apply_entries f (rev (ht_entries ht xs)) s = (kept, gone, s')"
  shows "\<exists>ht' gs' cs'. apply_loop b_pListLast f (last_opt xs) s ht = Some (s', ht')
    \<and> ht_rep ht' gs' cs' \<and> ht_entries ht' gs' = rev kept @ ht_entries ht ys
    \<and> destroyed ht' = destroyed ht @ (if pDestructor ht then gone else [])
    \<and> pDestructor ht' = pDestructor ht \<and> nNextFreeElement ht' = nNextFreeElement ht"
  using assms
proof (induction xs arbitrary: ys ht cs s kept gone rule: rev_induct)
  case Nil
  then show ?case by (auto simp: apply_loop.simps)
next
  case (snoc a xs)
  have rep: "ht_rep ht (xs @ a # ys) cs" using snoc.prems(1) by simp
  obtain b where b: "heap ht a = Some b" using ht_rep_dom [OF rep, of a] by auto
  have spec: "apply_entries f (bucket_entry (heap ht) a # rev (ht_entries ht xs)) s = (kept, gone, s')"
    using snoc.prems(2) by (simp add: ht_entries_append ht_entries_Cons)
  note lst = ht_rep_last [OF rep b]
  obtain r s1 ht1 cs1 mid pre gone0 kept1 gone1 where
    st: "ht_rep ht1 (xs @ mid @ ys) cs1"
    "ht_entries ht1 xs = ht_entries ht xs" "ht_entries ht1 mid = pre" "ht_entries ht1 ys = ht_entries ht ys"
    "kept = pre @ kept1" "gone = gone0 @ gone1" "rev pre = pre"
    "destroyed ht1 = destroyed ht @ (if pDestructor ht then gone0 else [])"
    "pDestructor ht1 = pDestructor ht" "nNextFreeElement ht1 = nNextFreeElement ht"
    and loop: "apply_loop b_pListLast f (Some a) s ht =
       (if r AND ZEND_HASH_APPLY_STOP \<noteq> 0 then Some (s1, ht1) else apply_loop b_pListLast f (b_pListLast b) s1 ht1)"
    "if r AND ZEND_HASH_APPLY_STOP \<noteq> 0 then kept1 = rev (ht_entries ht xs) \<and> gone1 = [] \<and> s' = s1
     else apply_entries f (rev (ht_entries ht xs)) s1 = (kept1, gone1, s')"
    by (rule apply_round [OF rep b spec])
  show ?case
  proof (cases "r AND ZEND_HASH_APPLY_STOP \<noteq> 0")
    case True
    with loop st show ?thesis by (fastforce simp: ht_entries_append)
  next
    case False
    with loop(2) st(2) snoc.IH [OF st(1), of s1 kept1 gone1] obtain ht2 gs2 cs2 where
      "apply_loop b_pListLast f (last_opt xs) s1 ht1 = Some (s', ht2)" "ht_rep ht2 gs2 cs2"
      "ht_entries ht2 gs2 = rev kept1 @ ht_entries ht1 (mid @ ys)"
      "destroyed ht2 = destroyed ht1 @ (if pDestructor ht1 then gone1 else [])"
      "pDestructor ht2 = pDestructor ht1" "nNextFreeElement ht2 = nNextFreeElement ht1"
      by auto
    with False loop st lst show ?thesis by (simp add: ht_entries_append) metis
  qed
qed

text \<open>The order of the two halves of a visit, as the client sees the entries.\<close>

lemma apply_entries_user:
  assumes "apply_entries (\<lambda>_. g) es s = (kept, gone, s')"
  shows "apply_entries (\<lambda>_. g) (user_entries es) s = (user_entries kept, gone, s')"
  using assms
proof (induction es arbitrary: s kept gone s')
  case (Cons e es)
  obtain k v where e: "e = (k, v)" by (cases e)
  obtain r v' s1 where g: "g v s = (r, v', s1)" by (cases "g v s")
  obtain kept1 gone1 s2 where "apply_entries (\<lambda>_. g) es s1 = (kept1, gone1, s2)"
    by (cases "apply_entries (\<lambda>_. g) es s1")
  with Cons.IH [OF this] Cons.prems e g show ?case
    by (auto simp: user_entries_def split: if_splits)
qed (simp add: user_entries_def)

lemma apply_entries_keys:
  "apply_entries f es s = (kept, gone, s') \<Longrightarrow> fst ` set kept \<subseteq> fst ` set es"
proof (induction es arbitrary: s kept gone s')
  case (Cons e es)
  obtain k v where e: "e = (k, v)" by (cases e)
  obtain r v' s1 where g: "f k v s = (r, v', s1)" by (cases "f k v s")
  obtain kept1 gone1 s2 where "apply_entries f es s1 = (kept1, gone1, s2)"
    by (cases "apply_entries f es s1")
  with Cons.IH [OF this] Cons.prems e g show ?case by (auto split: if_splits; force)
qed simp

lemma keys_ok_keys: "keys_ok es \<longleftrightarrow> (\<forall>k \<in> fst ` set es. bkey_of (user_key k) = k)"
  by (auto simp: keys_ok_def)

lemma keys_ok_subset: "keys_ok es \<Longrightarrow> fst ` set es' \<subseteq> fst ` set es \<Longrightarrow> keys_ok es'"
  unfolding keys_ok_keys by blast

lemma user_entries_rev: "user_entries (rev es) = rev (user_entries es)"
  by (simp add: user_entries_def rev_map)

lemma zend_hash_apply_ok:
  assumes inv: "array_inv ht" and es: "hash_entries ht = Some es"
    and ap: "apply_entries (\<lambda>_. g) es s = (kept, gone, s')"
  shows "\<exists>ht'. apply_loop b_pListNext (\<lambda>_. g) (pListHead ht) s ht = Some (s', ht') \<and> array_inv ht'
    \<and> hash_entries ht' = Some kept \<and> destroyed ht' = destroyed ht @ gone"
proof -
  obtain gs cs where rep: "ht_rep ht gs cs" "keys_ok (ht_entries ht gs)" "pDestructor ht"
    and e: "es = user_entries (ht_entries ht gs)"
    using array_inv_entries [OF inv] es by auto
  obtain kept1 gone1 s1 where a1: "apply_entries (\<lambda>_. g) (ht_entries ht gs) s = (kept1, gone1, s1)"
    by (cases "apply_entries (\<lambda>_. g) (ht_entries ht gs) s")
  with ap e apply_entries_user have k: "kept = user_entries kept1" "gone1 = gone" "s1 = s'" by fastforce+
  obtain ht' gs' cs' where "apply_loop b_pListNext (\<lambda>_. g) (head_opt gs) s ht = Some (s', ht')"
    "ht_rep ht' gs' cs'" "ht_entries ht' gs' = kept1" "destroyed ht' = destroyed ht @ gone" "pDestructor ht'"
    using apply_loop_ok [of ht "[]" gs cs "\<lambda>_. g" s kept1 gone1 s1] rep a1 k by auto
  with ht_rep_ends [OF rep(1)] array_invI [of ht' gs' cs'] keys_ok_subset [OF rep(2) apply_entries_keys [OF a1]] k
  show ?thesis by auto
qed

lemma zend_hash_reverse_apply_ok:
  assumes inv: "array_inv ht" and es: "hash_entries ht = Some es"
    and ap: "apply_entries (\<lambda>_. g) (rev es) s = (kept, gone, s')"
  shows "\<exists>ht'. apply_loop b_pListLast (\<lambda>_. g) (pListTail ht) s ht = Some (s', ht') \<and> array_inv ht'
    \<and> hash_entries ht' = Some (rev kept) \<and> destroyed ht' = destroyed ht @ gone"
proof -
  obtain gs cs where rep: "ht_rep ht gs cs" "keys_ok (ht_entries ht gs)" "pDestructor ht"
    and e: "es = user_entries (ht_entries ht gs)"
    using array_inv_entries [OF inv] es by auto
  obtain kept1 gone1 s1 where a1: "apply_entries (\<lambda>_. g) (rev (ht_entries ht gs)) s = (kept1, gone1, s1)"
    by (cases "apply_entries (\<lambda>_. g) (rev (ht_entries ht gs)) s")
  with ap e apply_entries_user [OF a1] have k: "kept = user_entries kept1" "gone1 = gone" "s1 = s'"
    by (auto simp: user_entries_rev)
  obtain ht' gs' cs' where "apply_loop b_pListLast (\<lambda>_. g) (last_opt gs) s ht = Some (s', ht')"
    "ht_rep ht' gs' cs'" "ht_entries ht' gs' = rev kept1" "destroyed ht' = destroyed ht @ gone" "pDestructor ht'"
    using reverse_apply_loop_ok [of ht gs "[]" cs "\<lambda>_. g" s kept1 gone1 s1] rep a1 k by auto
  moreover have "keys_ok (rev kept1)"
    using keys_ok_subset [OF rep(2), of "rev kept1"] apply_entries_keys [OF a1] by simp
  ultimately show ?thesis
    using ht_rep_ends [OF rep(1)] array_invI [of ht' gs' cs'] k by (auto simp: user_entries_rev)
qed

section \<open>Copying and merging on entries\<close>

text \<open>Storing the entries of the source one by one; \<open>ow\<close> tells whether an existing key is overwritten.\<close>

definition om_merge_entry :: "bool \<Rightarrow> ('v \<Rightarrow> 'v) \<Rightarrow> ('k \<times> 'v) \<Rightarrow> ('k \<times> 'v) list \<Rightarrow> ('k \<times> 'v) list" where
  "om_merge_entry ow c e es = (if ow \<or> fst e \<notin> fst ` set es then om_update (fst e) (c (snd e)) es else es)"

definition om_merge :: "bool \<Rightarrow> ('v \<Rightarrow> 'v) \<Rightarrow> ('k \<times> 'v) list \<Rightarrow> ('k \<times> 'v) list \<Rightarrow> ('k \<times> 'v) list" where
  "om_merge ow c source target = fold (om_merge_entry ow c) source target"

definition om_overwritten :: "bool \<Rightarrow> ('k \<times> 'v) list \<Rightarrow> ('k \<times> 'v) list \<Rightarrow> 'v list" where
  "om_overwritten ow source target = (if ow then concat (map (\<lambda>e. om_dropped (fst e) target) source) else [])"

lemma om_dropped_merge_entry:
  assumes "k \<noteq> fst e"
  shows "om_dropped k (om_merge_entry ow c e es) = om_dropped k es"
proof -
  have "filter (\<lambda>x. fst x = k) (om_replace (fst e) v es) = filter (\<lambda>x. fst x = k) es" for v
    using assms by (induction es) (auto simp: om_replace_def)
  with assms show ?thesis by (simp add: om_dropped_def om_merge_entry_def om_update_def)
qed

lemma length_om_merge_entry: "length (om_merge_entry ow c e es) \<le> Suc (length es)"
  using length_om_update [of "fst e" "c (snd e)" es] by (simp add: om_merge_entry_def)

lemma om_overwritten_Cons:
  assumes "distinct (map fst (e # source))"
  shows "om_overwritten ow (e # source) target
    = (if ow then om_dropped (fst e) target else []) @ om_overwritten ow source (om_merge_entry ow c e target)"
proof -
  have "om_dropped (fst x) (om_merge_entry ow c e target) = om_dropped (fst x) target" if "x \<in> set source" for x
    using assms that by (intro om_dropped_merge_entry) (auto simp: image_iff)
  then have "concat (map (\<lambda>x. om_dropped (fst x) (om_merge_entry ow c e target)) source)
      = concat (map (\<lambda>x. om_dropped (fst x) target) source)"
    by (intro arg_cong [where f = concat] map_cong) auto
  then show ?thesis by (auto simp: om_overwritten_def)
qed

text \<open>\<open>ht'\<close> is a well-formed table with the entries \<open>es\<close>; on the way the values \<open>gone\<close> were destroyed.\<close>

definition table_becomes :: "'v HashTable \<Rightarrow> (bkey \<times> 'v) list \<Rightarrow> 'v list \<Rightarrow> 'v HashTable \<Rightarrow> bool" where
  "table_becomes ht es gone ht' \<longleftrightarrow>
     (\<exists>gs cs. ht_rep ht' gs cs \<and> ht_entries ht' gs = es) \<and> pDestructor ht' = pDestructor ht
     \<and> destroyed ht' = destroyed ht @ (if pDestructor ht then gone else [])"

lemma table_becomesI:
  "ht_rep ht' gs cs \<Longrightarrow> ht_entries ht' gs = es \<Longrightarrow> pDestructor ht' = pDestructor ht \<Longrightarrow>
    destroyed ht' = destroyed ht @ (if pDestructor ht then gone else []) \<Longrightarrow> table_becomes ht es gone ht'"
  by (auto simp: table_becomes_def)

lemma table_becomes_trans:
  "table_becomes a es g b \<Longrightarrow> table_becomes b es' g' c \<Longrightarrow> table_becomes a es' (g @ g') c"
  by (auto simp: table_becomes_def)

lemma om_dropped_entries:
  assumes "ht_rep ht gs cs"
  shows "om_dropped k (ht_entries ht gs)
    = (if k \<in> fst ` set (ht_entries ht gs) then [the (map_of (ht_entries ht gs) k)] else [])"
  by (rule om_dropped_distinct [OF ht_rep_distinct [OF assms]])

lemma quick_update_becomes:
  assumes rep: "ht_rep ht gs cs" and room: "length gs + 1 < 2 ^ 32" and k: "k \<noteq> []"
  shows "\<exists>r ht'. zend_hash_quick_add_or_update ht k h v flag = Some (r, ht')
    \<and> (if (h, k) \<in> fst ` set (ht_entries ht gs) \<and> flag = HASH_ADD then table_becomes ht (ht_entries ht gs) [] ht'
       else table_becomes ht (om_update (h, k) v (ht_entries ht gs)) (om_dropped (h, k) (ht_entries ht gs)) ht')"
  using quick_add_or_update_ok [OF rep room k, of h v flag]
  unfolding table_becomes_def om_dropped_entries [OF rep]
  by (cases "(h, k) \<in> fst ` set (ht_entries ht gs)"; cases "flag = HASH_ADD"; cases "pDestructor ht"; simp; blast)

lemma index_update_becomes:
  assumes rep: "ht_rep ht gs cs" and room: "length gs + 1 < 2 ^ 32"
  shows "\<exists>r ht'. zend_hash_index_update_or_next_insert ht h v HASH_UPDATE = Some (r, ht')
    \<and> table_becomes ht (om_update (h, []) v (ht_entries ht gs)) (om_dropped (h, []) (ht_entries ht gs)) ht'"
  using index_update_or_next_insert_ok [OF rep room, where h = h and v = v and flag = HASH_UPDATE]
  unfolding table_becomes_def om_dropped_entries [OF rep] om_update_def
  by (cases "(h, []) \<in> fst ` set (ht_entries ht gs)"; cases "pDestructor ht"; simp; blast)

text \<open>
  What a step of the loop over the source promises: it stores the (converted) entry in the target,
  unless the key is there and may not be overwritten, and the value it overwrites is destroyed.
\<close>

locale merge_step =
  fixes step :: "'v HashTable \<Rightarrow> addr \<Rightarrow> 'v Bucket \<Rightarrow> 'v HashTable \<Rightarrow> 'v HashTable option"
    and ow :: bool and c :: "'v \<Rightarrow> 'v"
  assumes step_ok: "ht_rep target gs cs \<Longrightarrow> length gs + 1 < 2 ^ 32 \<Longrightarrow>
    \<exists>target'. step source a b target = Some target'
      \<and> table_becomes target (om_merge_entry ow c ((b_h b, b_arKey b), b_pData b) (ht_entries target gs))
          (if ow then om_dropped (b_h b, b_arKey b) (ht_entries target gs) else []) target'"
begin

lemma merge_loop_ok:
  assumes "ht_rep source (zs @ ys) cs0" and "ht_rep target gs cs" and "length gs + length ys < 2 ^ 32"
  shows "\<exists>target'. merge_loop step source (head_opt ys) target = Some target'
    \<and> table_becomes target (om_merge ow c (ht_entries source ys) (ht_entries target gs))
        (om_overwritten ow (ht_entries source ys) (ht_entries target gs)) target'"
  using assms
proof (induction ys arbitrary: zs target gs cs)
  case Nil
  then show ?case by (auto simp: merge_loop.simps om_merge_def om_overwritten_def intro!: table_becomesI)
next
  case (Cons a ys)
  obtain b where b: "heap source a = Some b" using ht_rep_dom [OF Cons.prems(1), of a] by auto
  note nxt = ht_rep_next [OF Cons.prems(1) b]
  let ?e = "((b_h b, b_arKey b), b_pData b)" and ?es = "ht_entries target gs"
  have e: "bucket_entry (heap source) a = ?e" using b by (simp add: bucket_entry_def bucket_key_def)
  have dist: "distinct (map fst (?e # ht_entries source ys))"
    using ht_rep_distinct [OF Cons.prems(1)] e by (simp add: ht_entries_append ht_entries_Cons)
  obtain t1 where st: "step source a b target = Some t1"
    "table_becomes target (om_merge_entry ow c ?e ?es) (if ow then om_dropped (b_h b, b_arKey b) ?es else []) t1"
    using step_ok [OF Cons.prems(2), of source a b] Cons.prems(3) by auto
  then obtain gs1 cs1 where t1: "ht_rep t1 gs1 cs1" "ht_entries t1 gs1 = om_merge_entry ow c ?e ?es"
    by (auto simp: table_becomes_def)
  have "length gs1 \<le> Suc (length gs)"
    using arg_cong [OF t1(2), of length] length_om_merge_entry [of ow c ?e ?es]
    by (simp add: ht_entries_def)
  then have room: "length gs1 + length ys < 2 ^ 32" using Cons.prems(3) by simp
  have src: "ht_rep source ((zs @ [a]) @ ys) cs0" using Cons.prems(1) by simp
  from Cons.IH [OF src t1(1) room] obtain t2 where
    t2: "merge_loop step source (head_opt ys) t1 = Some t2"
    "table_becomes t1 (om_merge ow c (ht_entries source ys) (om_merge_entry ow c ?e ?es))
        (om_overwritten ow (ht_entries source ys) (om_merge_entry ow c ?e ?es)) t2"
    unfolding t1(2) by auto
  have "merge_loop step source (head_opt (a # ys)) target = Some t2"
    using b st(1) nxt t2(1) by (simp add: merge_loop.simps [of _ _ "Some a"])
  then show ?case
    using table_becomes_trans [OF st(2) t2(2)] om_overwritten_Cons [OF dist, of ow ?es c, unfolded fst_conv]
    by (simp add: om_merge_def ht_entries_Cons e split del: if_split)
qed

end

lemma ht_rep_internal_pointer:
  "ht_rep ht gs cs \<Longrightarrow> \<forall>a. p = Some a \<longrightarrow> a \<in> set gs \<Longrightarrow> ht_rep (ht\<lparr>pInternalPointer := p\<rparr>) gs cs"
  using bucket_index_cong [of "ht\<lparr>pInternalPointer := p\<rparr>" ht]
  by (simp add: ht_rep_def global_ok_def chain_ok_def table_ok_def)

lemma copy_bucket_ok:
  assumes rep: "ht_rep target gs cs" and room: "length gs + 1 < 2 ^ 32"
  shows "\<exists>target'. copy_bucket ctor b target = Some target'
    \<and> table_becomes target (om_update (b_h b, b_arKey b) (copied ctor (b_pData b)) (ht_entries target gs))
        (om_dropped (b_h b, b_arKey b) (ht_entries target gs)) target'"
proof (cases "b_arKey b = []")
  case False
  with quick_update_becomes [OF rep room False, of "b_h b" "copied ctor (b_pData b)" HASH_UPDATE]
  show ?thesis by (auto simp: copy_bucket_def)
next
  case True
  with index_update_becomes [OF rep room, of "b_h b" "copied ctor (b_pData b)"]
  show ?thesis by (auto simp: copy_bucket_def)
qed

lemma copy_step_ok:
  assumes rep: "ht_rep target gs cs" and room: "length gs + 1 < 2 ^ 32"
  shows "\<exists>target'. copy_step ctor setp source a b target = Some target'
    \<and> table_becomes target
        (om_merge_entry True (copied ctor) ((b_h b, b_arKey b), b_pData b) (ht_entries target gs))
        (if True then om_dropped (b_h b, b_arKey b) (ht_entries target gs) else []) target'"
proof -
  define t where "t = (if setp \<and> pInternalPointer source = Some a then target\<lparr>pInternalPointer := None\<rparr> else target)"
  have "ht_rep t gs cs" using rep ht_rep_internal_pointer [OF rep, of None] by (simp add: t_def)
  moreover have "ht_entries t gs = ht_entries target gs" "pDestructor t = pDestructor target"
    "destroyed t = destroyed target"
    by (simp_all add: ht_entries_def t_def)
  ultimately show ?thesis
    using copy_bucket_ok [of t gs cs ctor b] room
    by (simp add: copy_step_def om_merge_entry_def table_becomes_def flip: t_def)
qed

lemma merge_bucket_ok:
  assumes rep: "ht_rep target gs cs" and room: "length gs + 1 < 2 ^ 32"
  shows "\<exists>target'. merge_bucket ctor ow source a b target = Some target'
    \<and> table_becomes target
        (om_merge_entry ow (copied ctor) ((b_h b, b_arKey b), b_pData b) (ht_entries target gs))
        (if ow then om_dropped (b_h b, b_arKey b) (ht_entries target gs) else []) target'"
proof -
  let ?new = "(b_h b, b_arKey b) \<notin> fst ` set (ht_entries target gs)"
  have gone: "om_dropped (b_h b, b_arKey b) (ht_entries target gs) = []" if ?new
    using that unfolding om_dropped_entries [OF rep] by simp
  consider (store) "ow \<or> b_arKey b = [] \<and> ?new" | (old) "\<not> ow" "b_arKey b = []" "\<not> ?new"
    | (add) "\<not> ow" "b_arKey b \<noteq> []" by blast
  then show ?thesis
  proof cases
    case store
    then have "merge_bucket ctor ow source a b target = copy_bucket ctor b target"
      using quick_exists_ok [OF rep, of "[]" "b_h b"]
      by (elim disjE conjE) (simp_all add: merge_bucket_def copy_bucket_def zend_hash_index_exists_def)
    with copy_bucket_ok [OF rep room, of ctor b] store gone show ?thesis
      by (auto simp: om_merge_entry_def)
  next
    case old
    then have "merge_bucket ctor ow source a b target = Some target"
      using quick_exists_ok [OF rep, of "[]" "b_h b"] by (simp add: merge_bucket_def zend_hash_index_exists_def)
    with old show ?thesis by (auto simp: om_merge_entry_def intro!: table_becomesI [OF rep])
  next
    case add
    with quick_update_becomes [OF rep room add(2), of "b_h b" "copied ctor (b_pData b)" HASH_ADD] gone
    show ?thesis by (auto simp: merge_bucket_def om_merge_entry_def split: if_splits)
  qed
qed

lemma hash_key_ok_user_key: "hash_key_ok (user_key k)"
  by (auto simp: hash_key_ok_def user_key_def)

lemma om_merge_entry_user:
  assumes "keys_ok es" "bkey_of (user_key (fst e)) = fst e"
  shows "om_merge_entry ow c (user_key (fst e), snd e) (user_entries es) = user_entries (om_merge_entry ow c e es)"
    "keys_ok (om_merge_entry ow c e es)"
  using user_entries_ops(2) [OF assms(1) hash_key_ok_user_key, of "fst e"]
    om_update_user_entries [OF assms(1) hash_key_ok_user_key, of "fst e"]
    keys_ok_ops(1) [OF assms(1) hash_key_ok_user_key, of "fst e"] assms
  by (simp_all add: om_merge_entry_def)

lemma om_merge_user:
  assumes "keys_ok es" "keys_ok source"
  shows "om_merge ow c (user_entries source) (user_entries es) = user_entries (om_merge ow c source es)
    \<and> keys_ok (om_merge ow c source es)"
  using assms
proof (induction source arbitrary: es)
  case (Cons e source)
  have "bkey_of (user_key (fst e)) = fst e" using Cons.prems by (simp add: keys_ok_def)
  note step = om_merge_entry_user [OF Cons.prems(1) this, of ow c]
  show ?case
    using Cons.IH [OF step(2) keys_ok_ConsD [OF Cons.prems(2)]] step(1)
    by (simp add: om_merge_def) (simp add: user_entries_def split_beta)
qed (simp add: om_merge_def user_entries_def)

lemma om_overwritten_user:
  assumes "keys_ok es" "keys_ok source"
  shows "om_overwritten ow (user_entries source) (user_entries es) = om_overwritten ow source es"
proof -
  have "om_dropped (user_key (fst e)) (user_entries es) = om_dropped (fst e) es" if "e \<in> set source" for e
    using user_entries_ops(5) [OF assms(1) hash_key_ok_user_key, of "fst e"] assms(2) that
    by (simp add: keys_ok_def)
  then have "concat (map (\<lambda>e. om_dropped (user_key (fst e)) (user_entries es)) source)
      = concat (map (\<lambda>e. om_dropped (fst e) es) source)"
    by (simp cong: map_cong)
  then show ?thesis
    by (simp add: om_overwritten_def user_entries_def [of source] comp_def split_beta)
qed

text \<open>The loop on tables whose keys are those of PHP arrays.\<close>

context merge_step
begin

lemma array_merge_loop:
  assumes inv: "array_inv target" "array_inv source"
    and ents: "hash_entries target = Some tes" "hash_entries source = Some ses"
    and room: "length tes + length ses \<le> 4294967295"
  shows "\<exists>target'. merge_loop step source (pListHead source) target = Some target' \<and> array_inv target'
    \<and> hash_entries target' = Some (om_merge ow c ses tes)
    \<and> destroyed target' = destroyed target @ om_overwritten ow ses tes"
proof -
  obtain gs cs where t: "ht_rep target gs cs" "keys_ok (ht_entries target gs)" "pDestructor target"
    and te: "tes = user_entries (ht_entries target gs)"
    using array_inv_entries [OF inv(1)] ents(1) by auto
  obtain ys cs0 where s: "ht_rep source ys cs0" "keys_ok (ht_entries source ys)"
    and se: "ses = user_entries (ht_entries source ys)"
    using array_inv_entries [OF inv(2)] ents(2) by auto
  have "length gs + length ys < 2 ^ 32" using room te se by (simp add: user_entries_def ht_entries_def)
  with merge_loop_ok [of source "[]" ys cs0 target gs cs] s t obtain t' where
    "merge_loop step source (pListHead source) target = Some t'"
    and b: "table_becomes target (om_merge ow c (ht_entries source ys) (ht_entries target gs))
            (om_overwritten ow (ht_entries source ys) (ht_entries target gs)) t'"
    using ht_rep_ends [OF s(1)] by auto
  moreover obtain gs' cs' where "ht_rep t' gs' cs'"
    "ht_entries t' gs' = om_merge ow c (ht_entries source ys) (ht_entries target gs)" "pDestructor t'"
    using b t(3) by (auto simp: table_becomes_def)
  ultimately show ?thesis
    using array_invI [of t' gs' cs'] om_merge_user [OF t(2) s(2), of ow c] om_overwritten_user [OF t(2) s(2), of ow] t(3)
    by (auto simp: te se table_becomes_def)
qed

end

interpretation hash_copy: merge_step "copy_step ctor setp" True "copied ctor" for ctor setp
  by unfold_locales (rule copy_step_ok)

interpretation hash_merge: merge_step "merge_bucket ctor ow" ow "copied ctor" for ctor ow
  by unfold_locales (rule merge_bucket_ok)

lemma array_inv_internal_pointer:
  assumes "array_inv ht"
  shows "array_inv (ht\<lparr>pInternalPointer := pListHead ht\<rparr>)"
    "hash_entries (ht\<lparr>pInternalPointer := pListHead ht\<rparr>) = hash_entries ht"
proof -
  let ?ht = "ht\<lparr>pInternalPointer := pListHead ht\<rparr>"
  obtain gs cs where rep: "ht_rep ht gs cs" "keys_ok (ht_entries ht gs)" "pDestructor ht"
    "hash_entries ht = Some (user_entries (ht_entries ht gs))"
    using array_inv_entries [OF assms] by auto
  have e: "ht_entries ?ht gs = ht_entries ht gs" by (simp add: ht_entries_def)
  have "ht_rep ?ht gs cs"
    by (rule ht_rep_internal_pointer [OF rep(1)])
      (use ht_rep_ends [OF rep(1)] head_opt_in in auto)
  from array_invI [OF _ this] rep e show "array_inv ?ht" "hash_entries ?ht = hash_entries ht" by auto
qed

lemma zend_hash_copy_ok:
  assumes "array_inv target" "array_inv source"
    and "hash_entries target = Some tes" "hash_entries source = Some ses"
    and "length tes + length ses \<le> 4294967295"
  shows "\<exists>target'. zend_hash_copy target source ctor = Some target' \<and> array_inv target'
    \<and> hash_entries target' = Some (om_merge True (copied ctor) ses tes)
    \<and> destroyed target' = destroyed target @ om_overwritten True ses tes
    \<and> (pInternalPointer target' = None \<longleftrightarrow> pListHead target' = None)"
proof -
  obtain t where t: "merge_loop (copy_step ctor (pInternalPointer target = None)) source (pListHead source) target = Some t"
    "array_inv t" "hash_entries t = Some (om_merge True (copied ctor) ses tes)"
    "destroyed t = destroyed target @ om_overwritten True ses tes"
    using hash_copy.array_merge_loop [OF assms] by blast
  moreover obtain gs cs where "ht_rep t gs cs" using t(2) by (auto simp: array_inv_def)
  then have "pListHead t = None \<Longrightarrow> pInternalPointer t = None"
    using ht_rep_ends [of t gs cs] by (cases "pInternalPointer t"; cases gs) (auto simp: ht_rep_def)
  ultimately show ?thesis
    using array_inv_internal_pointer [OF t(2)] by (cases "pInternalPointer t = None") (auto simp: zend_hash_copy_def)
qed

lemma zend_hash_merge_ok:
  assumes "array_inv target" "array_inv source"
    and "hash_entries target = Some tes" "hash_entries source = Some ses"
    and "length tes + length ses \<le> 4294967295"
  shows "\<exists>target'. zend_hash_merge target source ctor ow = Some target' \<and> array_inv target'
    \<and> hash_entries target' = Some (om_merge ow (copied ctor) ses tes)
    \<and> destroyed target' = destroyed target @ om_overwritten ow ses tes
    \<and> pInternalPointer target' = pListHead target'"
proof -
  obtain t where t: "merge_loop (merge_bucket ctor ow) source (pListHead source) target = Some t"
    "array_inv t" "hash_entries t = Some (om_merge ow (copied ctor) ses tes)"
    "destroyed t = destroyed target @ om_overwritten ow ses tes"
    using hash_merge.array_merge_loop [OF assms] by blast
  then show ?thesis
    using array_inv_internal_pointer [OF t(2)] by (auto simp: zend_hash_merge_def)
qed

section \<open>Properties\<close>

lemma protected_run_cases:
  "protected_run prot body =
     (if fst prot \<and> 3 \<le> snd prot then Some Nesting_too_deep else map_option Finished body)"
  by (simp add: protected_run_def hash_protect_recursion_def)

text \<open>
  (C35) The apply family: \<open>zend_hash_apply\<close> on a PHP array either stops with the fatal error, exactly
  when the array is protected and already visited three levels deep, or returns. It then has called
  the callback on the values in order up to the first answer with the stop bit, has deleted exactly the
  elements answered with the remove bit (destroying their values once each, in this order) and left all
  other elements in their order. \<open>zend_hash_reverse_apply\<close> does the same from the end.
\<close>

theorem hash_apply_selects:
  assumes "array_inv ht" and "hash_entries ht = Some es"
    and "apply_entries (\<lambda>_. g) es s = (kept, gone, s')"
    and "apply_entries (\<lambda>_. g) (rev es) s = (rkept, rgone, rs')"
  shows "if fst prot \<and> 3 \<le> snd prot
     then zend_hash_apply prot g s ht = Some Nesting_too_deep
       \<and> zend_hash_reverse_apply prot g s ht = Some Nesting_too_deep
     else (\<exists>ht'. zend_hash_apply prot g s ht = Some (Finished (s', ht')) \<and> array_inv ht'
             \<and> hash_entries ht' = Some kept \<and> destroyed ht' = destroyed ht @ gone)
       \<and> (\<exists>ht'. zend_hash_reverse_apply prot g s ht = Some (Finished (rs', ht')) \<and> array_inv ht'
             \<and> hash_entries ht' = Some (rev rkept) \<and> destroyed ht' = destroyed ht @ rgone)"
  using zend_hash_apply_ok [OF assms(1-3)] zend_hash_reverse_apply_ok [OF assms(1,2,4)]
  by (auto simp: zend_hash_apply_def zend_hash_reverse_apply_def protected_run_cases)

theorem hash_apply_selects_witness:
  "\<exists>ht. run_ops hash_put hash_unset [Put (HKIdx 0) 5, Put (HKIdx 1) 8, Put (HKIdx 2) (9::nat)]
      (zend_hash_init 8 True) = Some ht
    \<and> (\<exists>ht'. zend_hash_apply (True, 0) (\<lambda>v n. (if v = 8 then 3 else 1, v, n + v)) 0 ht = Some (Finished (13, ht'))
        \<and> hash_entries ht' = Some [(HKIdx 2, 9)] \<and> destroyed ht' = destroyed ht @ [5, 8])"
proof -
  let ?ops = "[Put (HKIdx 0) 5, Put (HKIdx 1) 8, Put (HKIdx 2) (9::nat)]"
  let ?es = "[(HKIdx 0, 5), (HKIdx 1, 8), (HKIdx 2, 9::nat)]"
  obtain ht where ht: "run_ops hash_put hash_unset ?ops (zend_hash_init 8 True) = Some ht" "array_inv ht"
    "hash_entries ht = Some ?es"
    using php_array.run_refines [OF array_inv_init(1,2) [of 8], of ?ops]
    by (auto simp: hash_key_ok_def om_update_def)
  let ?g = "\<lambda>v (n::nat). (if v = 8 then 3 else 1 :: uint, v, n + v)"
  have "apply_entries (\<lambda>_. ?g) ?es 0 = ([(HKIdx 2, 9)], [5, 8], 13)"
    "apply_entries (\<lambda>_. ?g) (rev ?es) 0 = ([(HKIdx 0, 5)], [9, 8], 17)"
    by (simp_all add: ZEND_HASH_APPLY_STOP_def ZEND_HASH_APPLY_REMOVE_def)
  from hash_apply_selects [OF ht(2,3) this, of "(True, 0)"] ht(1) show ?thesis by auto
qed

text \<open>
  (C34) Copying and merging: \<open>zend_hash_copy\<close> and \<open>_zend_hash_merge\<close> store the entries of the source
  in the target in their order, each through the copy constructor: a new key is appended, an existing one
  keeps its place and gets the new value, except that a merge without \<open>overwrite\<close> leaves it alone.
  The destructor is called once for every overwritten value and for no other; the arrays stay well
  formed, and the internal pointer of a merged array is at its first element.
\<close>

theorem hash_copy_merge_entries:
  assumes "array_inv target" and "array_inv source"
    and "hash_entries target = Some tes" and "hash_entries source = Some ses"
    and "length tes + length ses \<le> 4294967295"
  shows "(\<exists>t. zend_hash_copy target source ctor = Some t \<and> array_inv t
          \<and> hash_entries t = Some (om_merge True (copied ctor) ses tes)
          \<and> destroyed t = destroyed target @ om_overwritten True ses tes
          \<and> (pInternalPointer t = None \<longleftrightarrow> pListHead t = None))
    \<and> (\<exists>t. zend_hash_merge target source ctor overwrite = Some t \<and> array_inv t
          \<and> hash_entries t = Some (om_merge overwrite (copied ctor) ses tes)
          \<and> destroyed t = destroyed target @ om_overwritten overwrite ses tes
          \<and> pInternalPointer t = pListHead t)"
  using zend_hash_copy_ok [OF assms, of ctor] zend_hash_merge_ok [OF assms, of ctor overwrite] by blast

theorem hash_copy_merge_entries_witness:
  "\<exists>a b t u. run_ops hash_put hash_unset [Put (HKIdx 0) 1, Put (HKIdx 1) (2::nat)] (zend_hash_init 8 True) = Some a
    \<and> run_ops hash_put hash_unset [Put (HKIdx 1) 3, Put (HKIdx 7) 4] (zend_hash_init 8 True) = Some b
    \<and> zend_hash_copy a b None = Some t \<and> hash_entries t = Some [(HKIdx 0, 1), (HKIdx 1, 3), (HKIdx 7, 4)]
    \<and> zend_hash_merge a b (Some Suc) False = Some u \<and> hash_entries u = Some [(HKIdx 0, 1), (HKIdx 1, 2), (HKIdx 7, 5)]"
proof -
  let ?a = "[Put (HKIdx 0) 1, Put (HKIdx 1) (2::nat)]" and ?b = "[Put (HKIdx 1) 3, Put (HKIdx 7) (4::nat)]"
  let ?ae = "[(HKIdx 0, 1), (HKIdx 1, 2::nat)]" and ?be = "[(HKIdx 1, 3), (HKIdx 7, 4::nat)]"
  obtain a where a: "run_ops hash_put hash_unset ?a (zend_hash_init 8 True) = Some a" "array_inv a" "hash_entries a = Some ?ae"
    using php_array.run_refines [OF array_inv_init(1,2) [of 8], of ?a] by (auto simp: hash_key_ok_def om_update_def)
  obtain b where b: "run_ops hash_put hash_unset ?b (zend_hash_init 8 True) = Some b" "array_inv b" "hash_entries b = Some ?be"
    using php_array.run_refines [OF array_inv_init(1,2) [of 8], of ?b] by (auto simp: hash_key_ok_def om_update_def)
  have "om_merge True (copied None) ?be ?ae = [(HKIdx 0, 1), (HKIdx 1, 3), (HKIdx 7, 4)]"
    "om_merge False (copied (Some Suc)) ?be ?ae = [(HKIdx 0, 1), (HKIdx 1, 2), (HKIdx 7, 5)]"
    by (simp_all add: om_merge_def om_merge_entry_def om_update_def om_replace_def copied_def)
  with hash_copy_merge_entries [OF a(2) b(2) a(3) b(3), of None]
    hash_copy_merge_entries [OF a(2) b(2) a(3) b(3), of "Some Suc" False] a(1) b(1)
  show ?thesis by simp metis
qed

end
