(* ===== verification/Zend_Qsort.thy ===== *)
theory Zend_Qsort
  imports PHP_Prelude "HOL-Library.Multiset"
begin

text \<open>
  The sorting routine of the engine (Zend/zend_qsort.c): an iterative quicksort with an explicit
  stack of segments. The array is a list of elements, a pointer into it an index; a segment is given
  by the indices of its first and last element. The pointer one below a segment only occurs as the
  end of an empty segment, so the truncated subtraction on natural numbers keeps the segment free of
  pairs. A write beyond the stack arrays is the result \<open>None\<close>.
\<close>

section \<open>The program\<close>

definition QSORT_STACK_SIZE :: nat where
  "QSORT_STACK_SIZE = 64"

definition zend_qsort_swap :: "'a list \<Rightarrow> nat \<Rightarrow> nat \<Rightarrow> 'a list" where
  "zend_qsort_swap xs a b = xs[a := xs ! b, b := xs ! a]"

text \<open>The distance of the pivot from the start of a segment: the byte offset is an unsigned int.\<close>

definition qsort_offset :: "nat \<Rightarrow> nat \<Rightarrow> nat" where
  "qsort_offset siz dist = (let offset = dist * siz div 2 mod 2 ^ 32 in (offset - offset mod siz) div siz)"

text \<open>
  The two scanning loops; the pivot is at index \<open>begn\<close>. As \<open>seg1\<close> is above the pivot, the test
  \<open>0 < seg2\<close> of the second loop follows from \<open>seg1 \<le> seg2\<close>.
\<close>

function scan_up :: "('a \<Rightarrow> 'a \<Rightarrow> int) \<Rightarrow> 'a list \<Rightarrow> nat \<Rightarrow> nat \<Rightarrow> nat \<Rightarrow> nat" where
  "scan_up compare xs begn seg1 seg2 =
     (if seg1 < seg2 \<and> compare (xs ! begn) (xs ! seg1) > 0
      then scan_up compare xs begn (seg1 + 1) seg2 else seg1)"
  by pat_completeness auto
termination by (relation "measure (\<lambda>(_, _, _, seg1, seg2). seg2 - seg1)") auto

function scan_down :: "('a \<Rightarrow> 'a \<Rightarrow> int) \<Rightarrow> 'a list \<Rightarrow> nat \<Rightarrow> nat \<Rightarrow> nat \<Rightarrow> nat" where
  "scan_down compare xs begn seg1 seg2 =
     (if seg1 \<le> seg2 \<and> 0 < seg2 \<and> compare (xs ! seg2) (xs ! begn) > 0
      then scan_down compare xs begn seg1 (seg2 - 1) else seg2)"
  by pat_completeness auto
termination by (relation "measure (\<lambda>(_, _, _, seg1, seg2). seg2)") auto

declare scan_up.simps [simp del] scan_down.simps [simp del]

lemma scan_up_bounds: "seg1 \<le> scan_up c xs b seg1 seg2"
  by (induction c xs b seg1 seg2 rule: scan_up.induct) (subst scan_up.simps, auto)

lemma scan_down_bounds: "scan_down c xs b seg1 seg2 \<le> seg2"
  by (induction c xs b seg1 seg2 rule: scan_down.induct) (subst scan_down.simps, auto)

function partition_loop :: "('a \<Rightarrow> 'a \<Rightarrow> int) \<Rightarrow> nat \<Rightarrow> 'a list \<Rightarrow> nat \<Rightarrow> nat \<Rightarrow> 'a list \<times> nat" where
  "partition_loop compare begn xs seg1 seg2 =
     (let seg1 = scan_up compare xs begn seg1 seg2;
          seg2 = scan_down compare xs begn seg1 seg2
      in if seg1 \<ge> seg2 then (xs, seg2)
         else partition_loop compare begn (zend_qsort_swap xs seg1 seg2) (seg1 + 1) (seg2 - 1))"
  by pat_completeness auto
termination
proof (relation "measure (\<lambda>(_, _, _, seg1, seg2). seg2 - seg1)", goal_cases)
  case (2 c b xs seg1 seg2 i j)
  then have "seg1 \<le> i" "j \<le> seg2" using scan_up_bounds scan_down_bounds by metis+
  with 2 show ?case by simp
qed simp

declare partition_loop.simps [simp del]

text \<open>One partition of the segment from \<open>begn\<close> to \<open>ende\<close>: the new array and the pivot's place.\<close>

definition qsort_partition :: "('a \<Rightarrow> 'a \<Rightarrow> int) \<Rightarrow> nat \<Rightarrow> nat \<Rightarrow> nat \<Rightarrow> 'a list \<Rightarrow> 'a list \<times> nat" where
  "qsort_partition compare siz begn ende xs =
     (let xs = zend_qsort_swap xs begn (begn + qsort_offset siz (ende - begn));
          (xs, seg2) = partition_loop compare begn xs (begn + 1) ende
      in (zend_qsort_swap xs begn seg2, seg2))"

section \<open>Comparison functions\<close>

text \<open>What a caller has to pass: a total preorder on the elements of the array.\<close>

definition comparator_on :: "'a set \<Rightarrow> ('a \<Rightarrow> 'a \<Rightarrow> int) \<Rightarrow> bool" where
  "comparator_on S compare \<longleftrightarrow>
     (\<forall>x \<in> S. \<forall>y \<in> S. compare x y > 0 \<longleftrightarrow> compare y x < 0)
     \<and> (\<forall>x \<in> S. \<forall>y \<in> S. \<forall>z \<in> S. compare x y \<le> 0 \<longrightarrow> compare y z \<le> 0 \<longrightarrow> compare x z \<le> 0)"

lemma comparator_on_flip:
  "comparator_on S c \<Longrightarrow> x \<in> S \<Longrightarrow> y \<in> S \<Longrightarrow> \<not> c y x > 0 \<or> c x y > 0 \<Longrightarrow> c y x \<le> 0"
  unfolding comparator_on_def by (metis linorder_not_less order_less_imp_le)

lemma comparator_on_trans:
  "comparator_on S c \<Longrightarrow> x \<in> S \<Longrightarrow> y \<in> S \<Longrightarrow> z \<in> S \<Longrightarrow> c x y \<le> 0 \<Longrightarrow> c y z \<le> 0 \<Longrightarrow> c x z \<le> 0"
  unfolding comparator_on_def by blast

lemma comparator_on_refl: "comparator_on S c \<Longrightarrow> x \<in> S \<Longrightarrow> c x x \<le> 0"
  unfolding comparator_on_def by (metis linorder_not_less order_less_asym)

section \<open>Permuting a segment\<close>

definition perm_in :: "nat \<Rightarrow> nat \<Rightarrow> 'a list \<Rightarrow> 'a list \<Rightarrow> bool" where
  "perm_in b e xs ys \<longleftrightarrow> mset ys = mset xs
     \<and> (\<forall>t < length xs. t < b \<or> e < t \<longrightarrow> ys ! t = xs ! t)
     \<and> (\<forall>t. b \<le> t \<and> t \<le> e \<longrightarrow> (\<exists>u. b \<le> u \<and> u \<le> e \<and> ys ! t = xs ! u))"

lemma perm_in_length: "perm_in b e xs ys \<Longrightarrow> length ys = length xs"
  by (metis perm_in_def size_mset)

lemma perm_in_set: "perm_in b e xs ys \<Longrightarrow> set ys = set xs"
  by (metis perm_in_def set_mset_mset)

lemma perm_in_refl [simp]: "perm_in b e xs xs"
  by (auto simp: perm_in_def)

lemma perm_in_trans: "perm_in b e xs ys \<Longrightarrow> perm_in b e ys zs \<Longrightarrow> perm_in b e xs zs"
  unfolding perm_in_def by (metis size_mset)

lemma zend_qsort_swap_nth:
  "a < length xs \<Longrightarrow> b < length xs \<Longrightarrow> t < length xs \<Longrightarrow>
    zend_qsort_swap xs a b ! t = (if t = a then xs ! b else if t = b then xs ! a else xs ! t)"
  by (auto simp: zend_qsort_swap_def nth_list_update)

lemma length_zend_qsort_swap [simp]: "length (zend_qsort_swap xs a b) = length xs"
  by (simp add: zend_qsort_swap_def)

lemma perm_in_swap:
  assumes "b \<le> i" "i \<le> e" "b \<le> j" "j \<le> e" "e < length xs"
  shows "perm_in b e xs (zend_qsort_swap xs i j)"
proof -
  have "mset (zend_qsort_swap xs i j) = mset xs"
    using assms by (simp add: zend_qsort_swap_def mset_swap)
  moreover have "zend_qsort_swap xs i j ! t = xs ! t" if "t < length xs" "t < b \<or> e < t" for t
    using that assms by (auto simp: zend_qsort_swap_nth)
  moreover have "\<exists>u. b \<le> u \<and> u \<le> e \<and> zend_qsort_swap xs i j ! t = xs ! u" if "b \<le> t" "t \<le> e" for t
    using that assms by (intro exI [of _ "if t = i then j else if t = j then i else t"]) (auto simp: zend_qsort_swap_nth)
  ultimately show ?thesis by (simp add: perm_in_def)
qed

section \<open>The partition\<close>

lemma scan_up_spec:
  assumes "seg1 \<le> seg2 + 1"
  shows "scan_up c xs b seg1 seg2 \<le> seg2 + 1"
    "\<forall>t. seg1 \<le> t \<and> t < scan_up c xs b seg1 seg2 \<longrightarrow> c (xs ! b) (xs ! t) > 0"
    "scan_up c xs b seg1 seg2 < seg2 \<Longrightarrow> \<not> c (xs ! b) (xs ! scan_up c xs b seg1 seg2) > 0"
  using assms
proof (induction c xs b seg1 seg2 rule: scan_up.induct)
  case (1 c xs b seg1 seg2)
  let ?go = "seg1 < seg2 \<and> c (xs ! b) (xs ! seg1) > 0"
  {
    case 1
    with "1.IH" show ?case by (subst scan_up.simps) auto
  next
    case 2
    show ?case
    proof (cases ?go)
      case True
      with "1.IH"(2) 2 have "\<forall>t. seg1 + 1 \<le> t \<and> t < scan_up c xs b (seg1 + 1) seg2 \<longrightarrow> c (xs ! b) (xs ! t) > 0"
        by simp
      with True show ?thesis by (subst scan_up.simps) (auto simp: Suc_le_eq dest: le_neq_implies_less)
    qed (subst scan_up.simps, auto)
  next
    case 3
    with "1.IH"(3) show ?case by (auto simp: scan_up.simps [of c xs b seg1 seg2] split: if_splits)
  }
qed

lemma scan_down_spec:
  assumes "0 < seg1" "seg1 \<le> seg2 + 1"
  shows "seg1 \<le> scan_down c xs b seg1 seg2 + 1"
    "\<forall>t. scan_down c xs b seg1 seg2 < t \<and> t \<le> seg2 \<longrightarrow> c (xs ! t) (xs ! b) > 0"
    "seg1 \<le> scan_down c xs b seg1 seg2 \<Longrightarrow> \<not> c (xs ! scan_down c xs b seg1 seg2) (xs ! b) > 0"
  using assms
proof (induction c xs b seg1 seg2 rule: scan_down.induct)
  case (1 c xs b seg1 seg2)
  let ?go = "seg1 \<le> seg2 \<and> 0 < seg2 \<and> c (xs ! seg2) (xs ! b) > 0"
  {
    case 1
    with "1.IH"(1) show ?case by (subst scan_down.simps) auto
  next
    case 2
    show ?case
    proof (cases ?go)
      case True
      with "1.IH"(2) 2 have ih: "\<forall>t. scan_down c xs b seg1 (seg2 - 1) < t \<and> t \<le> seg2 - 1 \<longrightarrow> c (xs ! t) (xs ! b) > 0"
        by simp
      have "t = seg2 \<or> t \<le> seg2 - 1" if "t \<le> seg2" for t using that by auto
      moreover have "scan_down c xs b seg1 seg2 = scan_down c xs b seg1 (seg2 - 1)"
        using True by (subst scan_down.simps) simp
      ultimately show ?thesis using ih True by metis
    qed (subst scan_down.simps, auto)
  next
    case 3
    with "1.IH"(3) show ?case by (auto simp: scan_down.simps [of c xs b seg1 seg2] split: if_splits)
  }
qed

text \<open>The elements of \<open>xs\<close> strictly above \<open>b\<close> and up to \<open>k\<close> are at most the pivot, those from \<open>l\<close> to \<open>e\<close> at least.\<close>

definition parted :: "('a \<Rightarrow> 'a \<Rightarrow> int) \<Rightarrow> 'a list \<Rightarrow> nat \<Rightarrow> nat \<Rightarrow> nat \<Rightarrow> nat \<Rightarrow> bool" where
  "parted c xs b i l e \<longleftrightarrow>
     (\<forall>t. b < t \<and> t < i \<longrightarrow> c (xs ! t) (xs ! b) \<le> 0) \<and> (\<forall>t. l < t \<and> t \<le> e \<longrightarrow> c (xs ! b) (xs ! t) \<le> 0)"

lemma partition_loop_ok:
  assumes "comparator_on (set xs) c" "b < i" "i \<le> j + 1" "j \<le> e" "e < length xs" "parted c xs b i j e"
    and "partition_loop c b xs i j = (ys, k)"
  shows "perm_in b e xs ys \<and> ys ! b = xs ! b \<and> b \<le> k \<and> k \<le> e \<and> parted c ys b (k + 1) k e"
  using assms
proof (induction c b xs i j arbitrary: ys k rule: partition_loop.induct)
  case (1 c b xs i j)
  define i' where "i' = scan_up c xs b i j"
  define j' where "j' = scan_down c xs b i' j"
  have i': "i \<le> i'" "i' \<le> j + 1" and j': "j' \<le> j" "i' \<le> j' + 1"
    and up: "\<And>t. i \<le> t \<Longrightarrow> t < i' \<Longrightarrow> c (xs ! b) (xs ! t) > 0" "i' < j \<Longrightarrow> \<not> c (xs ! b) (xs ! i') > 0"
    and down: "\<And>t. j' < t \<Longrightarrow> t \<le> j \<Longrightarrow> c (xs ! t) (xs ! b) > 0" "i' \<le> j' \<Longrightarrow> \<not> c (xs ! j') (xs ! b) > 0"
    using scan_up_bounds [of i c xs b j] scan_up_spec [of i j c xs b] "1.prems"(2,3)
      scan_down_bounds [of c xs b i' j] scan_down_spec [of i' j c xs b]
    by (auto simp: i'_def j'_def)
  have mem: "t \<le> e \<Longrightarrow> xs ! t \<in> set xs" for t using "1.prems"(5) by simp
  note flip = comparator_on_flip [OF "1.prems"(1)]
  have lo: "c (xs ! t) (xs ! b) \<le> 0" if "b < t" "t < i' \<or> t = j' \<and> i' \<le> j'" for t
  proof (cases "t < i")
    case True
    with "1.prems"(6) that show ?thesis by (auto simp: parted_def)
  next
    case False
    have "t \<le> e" using that i' j' "1.prems"(4) by auto
    with False that up(1) [of t] down(2) mem "1.prems"(2,4) i' j' show ?thesis
      by (intro flip) auto
  qed
  have hi: "c (xs ! b) (xs ! t) \<le> 0" if "t \<le> e" "j' < t \<or> t = i' \<and> i' < j" for t
  proof (cases "j < t")
    case True
    with "1.prems"(6) that show ?thesis by (auto simp: parted_def)
  next
    case False
    with that up(2) down(1) [of t] mem "1.prems"(2,3,4) show ?thesis by (intro flip) auto
  qed
  have loop: "partition_loop c b xs i j = (if i' \<ge> j' then (xs, j')
      else partition_loop c b (zend_qsort_swap xs i' j') (i' + 1) (j' - 1))"
    by (simp add: partition_loop.simps [of c b xs i j] i'_def j'_def Let_def)
  show ?case
  proof (cases "i' \<ge> j'")
    case True
    with loop "1.prems"(7) have "ys = xs" "k = j'" by auto
    moreover have "t < i' \<or> t = j' \<and> i' \<le> j'" if "t < j' + 1" for t using that True j' by auto
    then have "parted c xs b (j' + 1) j' e"
      using lo hi by (simp add: parted_def)
    ultimately show ?thesis using i' j' "1.prems"(2,4) by auto
  next
    case False
    let ?zs = "zend_qsort_swap xs i' j'"
    have ne: "b < i'" "i' < j'" "j' \<le> e" "j' < length xs" using False i' j' "1.prems"(2,4,5) by auto
    have perm: "perm_in b e xs ?zs" using ne "1.prems"(5) by (intro perm_in_swap) auto
    have nth: "?zs ! t = (if t = i' then xs ! j' else if t = j' then xs ! i' else xs ! t)" if "t \<le> e" for t
      using that ne "1.prems"(5) by (simp add: zend_qsort_swap_nth)
    have parted: "parted c ?zs b (i' + 1) (j' - 1) e"
      unfolding parted_def using lo hi ne j' by (auto simp: nth)
    have "perm_in b e ?zs ys \<and> ys ! b = ?zs ! b \<and> b \<le> k \<and> k \<le> e \<and> parted c ys b (k + 1) k e"
    proof (rule "1.IH" [OF i'_def j'_def])
      show "comparator_on (set ?zs) c" using "1.prems"(1) perm_in_set [OF perm] by simp
      show "partition_loop c b ?zs (i' + 1) (j' - 1) = (ys, k)" using loop False "1.prems"(7) by simp
    qed (use False ne parted "1.prems"(5) in auto)
    then show ?thesis using perm_in_trans [OF perm] nth [of b] ne by auto
  qed
qed

lemma qsort_offset_le: "qsort_offset siz dist \<le> dist"
proof -
  let ?o = "dist * siz div 2 mod 2 ^ 32"
  have "?o - ?o mod siz \<le> dist * siz"
    by (meson diff_le_self div_le_dividend mod_less_eq_dividend order_trans)
  then have "(?o - ?o mod siz) div siz \<le> dist * siz div siz" by (rule div_le_mono)
  also have "\<dots> \<le> dist" by (cases "siz = 0") auto
  finally show ?thesis by (simp add: qsort_offset_def Let_def)
qed

lemma qsort_partition_ok:
  assumes c: "comparator_on (set xs) c" and b: "b < e" "e < length xs"
    and p: "qsort_partition c siz b e xs = (ys, k)"
  shows "perm_in b e xs ys" "b \<le> k" "k \<le> e"
    "\<And>t. b \<le> t \<Longrightarrow> t \<le> k \<Longrightarrow> c (ys ! t) (ys ! k) \<le> 0" "\<And>t. k \<le> t \<Longrightarrow> t \<le> e \<Longrightarrow> c (ys ! k) (ys ! t) \<le> 0"
proof -
  define xs1 where "xs1 = zend_qsort_swap xs b (b + qsort_offset siz (e - b))"
  obtain xs2 where xs2: "partition_loop c b xs1 (b + 1) e = (xs2, k)" "ys = zend_qsort_swap xs2 b k"
    using p by (auto simp: qsort_partition_def xs1_def Let_def split: prod.splits)
  have p1: "perm_in b e xs xs1"
    unfolding xs1_def using b qsort_offset_le [of siz "e - b"] by (intro perm_in_swap) auto
  have c1: "comparator_on (set xs1) c" and e1: "e < length xs1"
    using c b perm_in_set [OF p1] perm_in_length [OF p1] by auto
  have loop: "perm_in b e xs1 xs2" "b \<le> k" "k \<le> e" "parted c xs2 b (k + 1) k e"
    using partition_loop_ok [OF c1 _ _ order_refl e1 _ xs2(1)] b by (auto simp: parted_def)
  have len: "length xs2 = length xs" using perm_in_length [OF loop(1)] perm_in_length [OF p1] by simp
  have p2: "perm_in b e xs2 ys" unfolding xs2(2) using loop b len by (intro perm_in_swap) auto
  show perm: "perm_in b e xs ys" by (rule perm_in_trans [OF perm_in_trans [OF p1 loop(1)] p2])
  show "b \<le> k" "k \<le> e" by fact+
  have nth: "ys ! t = (if t = b then xs2 ! k else if t = k then xs2 ! b else xs2 ! t)" if "t \<le> e" for t
    unfolding xs2(2) using that b len loop(2,3) by (intro zend_qsort_swap_nth) auto
  have refl: "c (xs2 ! b) (xs2 ! b) \<le> 0"
    using comparator_on_refl [OF c] perm_in_set [OF perm_in_trans [OF p1 loop(1)]] b len by (metis less_trans nth_mem)
  show "c (ys ! t) (ys ! k) \<le> 0" if "b \<le> t" "t \<le> k" for t
    using that loop(2,3,4) refl by (auto simp: nth parted_def)
  show "c (ys ! k) (ys ! t) \<le> 0" if "k \<le> t" "t \<le> e" for t
    using that loop(2,3,4) refl by (auto simp: nth parted_def)
qed

lemma qsort_partition_bounds:
  assumes "b < e" "qsort_partition c siz b e xs = (ys, k)"
  shows "b \<le> k \<and> k \<le> e"
proof -
  have "b \<le> k \<and> k \<le> j" if "partition_loop c b zs i j = (xs', k)" "b < i" "i \<le> j + 1" for zs i j xs'
    using that
  proof (induction c b zs i j rule: partition_loop.induct)
    case (1 c b zs i j)
    let ?i = "scan_up c zs b i j" let ?j = "scan_down c zs b ?i j"
    have i: "i \<le> ?i" "?i \<le> j + 1" "?j \<le> j" "?i \<le> ?j + 1"
      using scan_up_bounds [of i c zs b j] scan_up_spec(1) [of i j c zs b] scan_down_bounds [of c zs b ?i j]
        scan_down_spec(1) [of ?i j c zs b] 1(3,4) by auto
    show ?case
    proof (cases "?i \<ge> ?j")
      case True
      with 1 i show ?thesis by (auto simp: partition_loop.simps [of c b zs i j] Let_def)
    next
      case False
      with 1(1) [OF refl refl False] 1(2-4) i show ?thesis
        by (auto simp: partition_loop.simps [of c b zs i j] Let_def)
    qed
  qed
  with assms show ?thesis by (fastforce simp: qsort_partition_def Let_def split: prod.splits)
qed

section \<open>The main loop\<close>

text \<open>
  \<open>stk\<close> are the entries of the stack arrays below \<open>loop\<close>, topmost first. The inner loop ends when
  the segment has no pair left; the outer loop then takes the next segment from the stack.
\<close>

function qsort_loop ::
  "('a \<Rightarrow> 'a \<Rightarrow> int) \<Rightarrow> nat \<Rightarrow> (nat \<times> nat) list \<Rightarrow> nat \<Rightarrow> nat \<Rightarrow> 'a list \<Rightarrow> 'a list option" where
  "qsort_loop compare siz stk begn ende xs =
     (if begn < ende
      then let (xs, seg2p) = qsort_partition compare siz begn ende xs in
        if seg2p - begn \<le> ende - seg2p
        then if seg2p + 1 < ende
             then if length stk < QSORT_STACK_SIZE
                  then qsort_loop compare siz ((seg2p + 1, ende) # stk) begn (seg2p - 1) xs
                  else None
             else qsort_loop compare siz stk begn (seg2p - 1) xs
        else if seg2p - 1 > begn
             then if length stk < QSORT_STACK_SIZE
                  then qsort_loop compare siz ((begn, seg2p - 1) # stk) (seg2p + 1) ende xs
                  else None
             else qsort_loop compare siz stk (seg2p + 1) ende xs
      else case stk of [] \<Rightarrow> Some xs | (b, e) # stk \<Rightarrow> qsort_loop compare siz stk b e xs)"
  by pat_completeness auto
termination
proof (relation "measure (\<lambda>(_, _, stk, b, e, _). 2 * (e - b) + 1 + (\<Sum>(b, e) \<leftarrow> stk. 2 * (e - b) + 1))", goal_cases)
  case (2 c siz stk b e xs x ys k)
  then show ?case using qsort_partition_bounds [of b e c siz xs ys k] by auto
next
  case (3 c siz stk b e xs x ys k)
  then show ?case using qsort_partition_bounds [of b e c siz xs ys k] by auto
next
  case (4 c siz stk b e xs x ys k)
  then show ?case using qsort_partition_bounds [of b e c siz xs ys k] by auto
next
  case (5 c siz stk b e xs x ys k)
  then show ?case using qsort_partition_bounds [of b e c siz xs ys k] by auto
qed auto

declare qsort_loop.simps [simp del]

definition zend_qsort_r :: "('a \<Rightarrow> 'a \<Rightarrow> int) \<Rightarrow> nat \<Rightarrow> 'a list \<Rightarrow> 'a list option" where
  "zend_qsort_r compare siz base = qsort_loop compare siz [] 0 (length base - 1) base"

definition zend_qsort :: "('a \<Rightarrow> 'a \<Rightarrow> int) \<Rightarrow> nat \<Rightarrow> 'a list \<Rightarrow> 'a list option" where
  "zend_qsort compare siz base = zend_qsort_r compare siz base"

section \<open>Correctness\<close>

text \<open>
  The segments still to be sorted are disjoint and in range; two elements that do not lie in a common
  segment are already in order.
\<close>

fun segments_ok :: "nat \<Rightarrow> (nat \<times> nat) list \<Rightarrow> bool" where
  "segments_ok n [] \<longleftrightarrow> True"
| "segments_ok n ((b, e) # segs) \<longleftrightarrow>
     (b < e \<longrightarrow> e < n) \<and> (\<forall>(b', e') \<in> set segs. {b..e} \<inter> {b'..e'} = {}) \<and> segments_ok n segs"

definition ordered_outside :: "('a \<Rightarrow> 'a \<Rightarrow> int) \<Rightarrow> 'a list \<Rightarrow> (nat \<times> nat) list \<Rightarrow> bool" where
  "ordered_outside c xs segs \<longleftrightarrow>
     (\<forall>i j. i < j \<and> j < length xs \<and> \<not> (\<exists>(b, e) \<in> set segs. b \<le> i \<and> j \<le> e) \<longrightarrow> c (xs ! i) (xs ! j) \<le> 0)"

text \<open>The sizes allowed on the stack: they halve from one entry to the next.\<close>

fun stack_ok :: "nat \<Rightarrow> (nat \<times> nat) list \<Rightarrow> bool" where
  "stack_ok n [] \<longleftrightarrow> True"
| "stack_ok n ((b, e) # stk) \<longleftrightarrow> 2 ^ length stk * (e + 1 - b) \<le> n \<and> stack_ok n stk"

lemma ordered_outside_drop:
  assumes "ordered_outside c xs ((b, e) # segs)" "e \<le> b"
  shows "ordered_outside c xs segs"
  unfolding ordered_outside_def
proof (intro allI impI)
  fix i j assume a: "i < j \<and> j < length xs \<and> \<not> (\<exists>(b, e) \<in> set segs. b \<le> i \<and> j \<le> e)"
  moreover have "\<not> (b \<le> i \<and> j \<le> e)" using a assms(2) by auto
  ultimately show "c (xs ! i) (xs ! j) \<le> 0" using assms(1) unfolding ordered_outside_def by simp
qed

lemma ordered_outside_split:
  assumes c: "comparator_on (set xs) c" and o: "ordered_outside c xs ((b, e) # segs)"
    and s: "segments_ok (length xs) ((b, e) # segs)" and b: "b < e" "e < length xs"
    and p: "qsort_partition c siz b e xs = (ys, k)"
  shows "ordered_outside c ys ((b, k - 1) # (k + 1, e) # segs)"
  unfolding ordered_outside_def
proof (intro allI impI, elim conjE)
  note ok = qsort_partition_ok [OF c b p]
  have len: "length ys = length xs" and set: "set ys = set xs"
    using perm_in_length [OF ok(1)] perm_in_set [OF ok(1)] by auto
  fix i j assume ij: "i < j" "j < length ys" and
    out: "\<not> (\<exists>(b', e') \<in> set ((b, k - 1) # (k + 1, e) # segs). b' \<le> i \<and> j \<le> e')"
  have mem: "t < length xs \<Longrightarrow> ys ! t \<in> set xs" for t using len set nth_mem by metis
  have old: "c (xs ! u) (xs ! v) \<le> 0"
    if "u < v" "v < length xs" "\<not> (b \<le> u \<and> v \<le> e)" "\<not> (\<exists>(b', e') \<in> set segs. b' \<le> u \<and> v \<le> e')" for u v
    using o that unfolding ordered_outside_def by simp
  have other: "\<not> (b' \<le> u \<and> u \<le> e')" if "(b', e') \<in> set segs" "b \<le> u" "u \<le> e" for b' e' u
  proof -
    have "{b..e} \<inter> {b'..e'} = {}" using s that(1) by auto
    moreover have "u \<in> {b..e}" using that by simp
    ultimately show ?thesis by (metis Int_iff atLeastAtMost_iff empty_iff)
  qed
  have apart: "\<not> (\<exists>(b', e') \<in> set segs. b' \<le> u \<and> v \<le> e')" if "u < v" "b \<le> u \<and> u \<le> e \<or> b \<le> v \<and> v \<le> e" for u v
  proof
    assume "\<exists>(b', e') \<in> set segs. b' \<le> u \<and> v \<le> e'"
    then obtain b' e' where m: "(b', e') \<in> set segs" "b' \<le> u" "v \<le> e'" by blast
    then have "b' \<le> v" "u \<le> e'" using that(1) by auto
    with m other [OF m(1), of u] other [OF m(1), of v] that(2) show False by blast
  qed
  from out have outs: "\<not> (\<exists>(b', e') \<in> set segs. b' \<le> i \<and> j \<le> e')"
    and lr: "\<not> (b \<le> i \<and> j \<le> k - 1)" "\<not> (k + 1 \<le> i \<and> j \<le> e)" by auto
  consider (both) "b \<le> i" "j \<le> e" | (left) "i < b" "b \<le> j" "j \<le> e" | (right) "b \<le> i" "i \<le> e" "e < j"
    | (none) "i < b \<or> e < i" "j < b \<or> e < j" using ij by linarith
  then show "c (ys ! i) (ys ! j) \<le> 0"
  proof cases
    case both
    then have "i \<le> k" "k \<le> j" using lr ij by auto
    with both have "c (ys ! i) (ys ! k) \<le> 0" "c (ys ! k) (ys ! j) \<le> 0" using ok(4,5) by auto
    moreover have "ys ! i \<in> set xs" "ys ! k \<in> set xs" "ys ! j \<in> set xs" using mem ij len ok(3) b by simp_all
    ultimately show ?thesis using comparator_on_trans [OF c] by blast
  next
    case left
    obtain u where u: "b \<le> u" "u \<le> e" "ys ! j = xs ! u" using ok(1) left by (auto simp: perm_in_def)
    have "ys ! i = xs ! i" using ok(1) left ij len by (auto simp: perm_in_def)
    moreover have "c (xs ! i) (xs ! u) \<le> 0"
      by (rule old [OF _ _ _ apart]) (use u left b in simp_all)
    ultimately show ?thesis using u by simp
  next
    case right
    obtain u where u: "b \<le> u" "u \<le> e" "ys ! i = xs ! u" using ok(1) right by (auto simp: perm_in_def)
    have "ys ! j = xs ! j" using ok(1) right ij len by (auto simp: perm_in_def)
    moreover have "c (xs ! u) (xs ! j) \<le> 0"
      by (rule old [OF _ _ _ apart]) (use u right b ij len in simp_all)
    ultimately show ?thesis using u by simp
  next
    case none
    then have "ys ! i = xs ! i" "ys ! j = xs ! j" using ok(1) ij len by (auto simp: perm_in_def)
    moreover have "c (xs ! i) (xs ! j) \<le> 0" by (rule old [OF _ _ _ outs]) (use none ij len in auto)
    ultimately show ?thesis by simp
  qed
qed

lemma segments_ok_split:
  assumes "segments_ok n ((b, e) # segs)" "b < e" "b \<le> k" "k \<le> e"
  shows "segments_ok n ((b, k - 1) # (k + 1, e) # segs)" "segments_ok n ((k + 1, e) # (b, k - 1) # segs)"
proof -
  have "{b..k - 1} \<inter> {b'..e'} = {}" "{k + 1..e} \<inter> {b'..e'} = {}" if "(b', e') \<in> set segs" for b' e'
  proof -
    have "{b..e} \<inter> {b'..e'} = {}" using assms(1) that by auto
    moreover have "{b..k - 1} \<subseteq> {b..e}" "{k + 1..e} \<subseteq> {b..e}" using assms(3,4) by auto
    ultimately show "{b..k - 1} \<inter> {b'..e'} = {}" "{k + 1..e} \<inter> {b'..e'} = {}" by blast+
  qed
  moreover have "{b..k - 1} \<inter> {k + 1..e} = {}" by auto
  ultimately show "segments_ok n ((b, k - 1) # (k + 1, e) # segs)" "segments_ok n ((k + 1, e) # (b, k - 1) # segs)"
    using assms by (auto simp: Int_commute)
qed

lemma segments_ok_drop: "segments_ok n (s # t # segs) \<Longrightarrow> segments_ok n (s # segs)"
  by (cases s; cases t) auto

lemma ordered_outside_swap: "ordered_outside c xs (s # t # segs) = ordered_outside c xs (t # s # segs)"
  by (simp add: ordered_outside_def disj_left_commute)

lemma segments_room:
  fixes b e n :: nat
  shows "2 ^ length stk * (e + 1 - b) \<le> n \<Longrightarrow> b < e \<Longrightarrow> n \<le> 2 ^ 64 \<Longrightarrow> length stk < QSORT_STACK_SIZE"
proof -
  assume a: "2 ^ length stk * (e + 1 - b) \<le> n" "b < e" "n \<le> 2 ^ 64"
  have "2 ^ length stk * 2 \<le> 2 ^ length stk * (e + 1 - b)" using a(2) by (intro mult_le_mono2) auto
  with a(1,3) have "(2::nat) ^ Suc (length stk) \<le> 2 ^ 64" unfolding power_Suc by linarith
  then have "Suc (length stk) \<le> 64" by (rule power_le_imp_le_exp [rotated]) simp
  then show ?thesis by (simp add: QSORT_STACK_SIZE_def)
qed

text \<open>The state between two rounds, for an array of \<open>n\<close> elements.\<close>

definition qsort_inv :: "('a \<Rightarrow> 'a \<Rightarrow> int) \<Rightarrow> nat \<Rightarrow> (nat \<times> nat) list \<Rightarrow> nat \<Rightarrow> nat \<Rightarrow> 'a list \<Rightarrow> bool" where
  "qsort_inv c n stk b e xs \<longleftrightarrow> comparator_on (set xs) c \<and> length xs \<le> 2 ^ 64 \<and> n = length xs
     \<and> segments_ok n ((b, e) # stk) \<and> ordered_outside c xs ((b, e) # stk)
     \<and> (b < e \<longrightarrow> 2 ^ length stk * (e + 1 - b) \<le> n) \<and> stack_ok n stk"

text \<open>Both ways a partition goes on: with the smaller part, the other one pushed or dropped.\<close>

lemma qsort_inv_partition:
  assumes inv: "qsort_inv c n stk b e xs" and b: "b < e" and p: "qsort_partition c siz b e xs = (ys, k)"
  shows "mset ys = mset xs" "length stk < QSORT_STACK_SIZE"
    "k - b \<le> e - k \<Longrightarrow> qsort_inv c n ((k + 1, e) # stk) b (k - 1) ys"
    "k - b \<le> e - k \<Longrightarrow> e \<le> k + 1 \<Longrightarrow> qsort_inv c n stk b (k - 1) ys"
    "\<not> k - b \<le> e - k \<Longrightarrow> qsort_inv c n ((b, k - 1) # stk) (k + 1) e ys"
    "\<not> k - b \<le> e - k \<Longrightarrow> k - 1 \<le> b \<Longrightarrow> qsort_inv c n stk (k + 1) e ys"
proof -
  have c: "comparator_on (set xs) c" and n: "n = length xs" "n \<le> 2 ^ 64" and segs: "segments_ok n ((b, e) # stk)"
    and o: "ordered_outside c xs ((b, e) # stk)" and sz: "2 ^ length stk * (e + 1 - b) \<le> n" and stk: "stack_ok n stk"
    using inv b by (auto simp: qsort_inv_def)
  have e: "e < length xs" using segs b n by simp
  note ok = qsort_partition_ok [OF c b e p]
  show "mset ys = mset xs" using ok(1) by (simp add: perm_in_def)
  have ys: "comparator_on (set ys) c" "length ys = n" using c n perm_in_set [OF ok(1)] perm_in_length [OF ok(1)] by auto
  show "length stk < QSORT_STACK_SIZE" by (rule segments_room [OF sz b n(2)])
  have o': "ordered_outside c ys ((b, k - 1) # (k + 1, e) # stk)"
    using ordered_outside_split [OF c o _ b e p] segs n by simp
  note s' = segments_ok_split [OF segs b ok(2,3)]
  have part: "2 ^ length stk * m \<le> n" if "m \<le> e + 1 - b" for m
    using that sz by (meson mult_le_mono2 order_trans)
  have half: "2 * 2 ^ length stk * m \<le> n" if "2 * m \<le> e + 1 - b" for m
    using part [OF that] by (simp add: ac_simps)
  show push_r: "qsort_inv c n ((k + 1, e) # stk) b (k - 1) ys" if "k - b \<le> e - k"
    unfolding qsort_inv_def using ys n o' s'(1) stk part [of "e + 1 - (k + 1)"] half [of "k - 1 + 1 - b"] that b ok(2,3)
    by auto
  show push_l: "qsort_inv c n ((b, k - 1) # stk) (k + 1) e ys" if "\<not> k - b \<le> e - k"
    unfolding qsort_inv_def ordered_outside_swap [of c ys "(k + 1, e)"]
    using ys n o' s'(2) stk part [of "k - 1 + 1 - b"] half [of "e + 1 - (k + 1)"] that b ok(2,3)
    by auto
  show "qsort_inv c n stk b (k - 1) ys" if "k - b \<le> e - k" "e \<le> k + 1"
    using push_r [OF that(1)] that(2) ordered_outside_drop [of c ys "k + 1" e "(b, k - 1) # stk"]
      segments_ok_drop [of n "(b, k - 1)"] part [of "k - 1 + 1 - b"] ok(2,3) b
    unfolding qsort_inv_def ordered_outside_swap [of c ys "(b, k - 1)"] by auto
  show "qsort_inv c n stk (k + 1) e ys" if "\<not> k - b \<le> e - k" "k - 1 \<le> b"
    using push_l [OF that(1)] that(2) ordered_outside_drop [of c ys b "k - 1" "(k + 1, e) # stk"]
      segments_ok_drop [of n "(k + 1, e)"] part [of "e + 1 - (k + 1)"] ok(2,3) b
    unfolding qsort_inv_def ordered_outside_swap [of c ys "(k + 1, e)"] by auto
qed

lemma qsort_inv_pop:
  assumes "qsort_inv c n ((b', e') # stk) b e xs" "\<not> b < e"
  shows "qsort_inv c n stk b' e' xs"
  using assms ordered_outside_drop [of c xs b e "(b', e') # stk"] by (auto simp: qsort_inv_def)

lemma qsort_inv_done: "qsort_inv c n [] b e xs \<Longrightarrow> \<not> b < e \<Longrightarrow> sorted_wrt (\<lambda>x y. c x y \<le> 0) xs"
  using ordered_outside_drop [of c xs b e "[]"]
  by (auto simp: qsort_inv_def ordered_outside_def sorted_wrt_iff_nth_less)

lemma qsort_loop_ok:
  assumes "qsort_inv c n stk b e xs"
  shows "\<exists>ys. qsort_loop c siz stk b e xs = Some ys \<and> mset ys = mset xs \<and> sorted_wrt (\<lambda>x y. c x y \<le> 0) ys"
  using assms
proof (induction c siz stk b e xs rule: qsort_loop.induct)
  case (1 c siz stk b e xs)
  show ?case
  proof (cases "b < e")
    case True
    obtain ys k where p: "qsort_partition c siz b e xs = (ys, k)" by (cases "qsort_partition c siz b e xs")
    note part = qsort_inv_partition [OF "1.prems" True p]
    note IH = "1.IH"(1-4) [OF True p [symmetric] refl]
    show ?thesis
      using part IH by (auto simp: qsort_loop.simps [of c siz stk b e xs] True p not_less)
  next
    case False
    show ?thesis
    proof (cases stk)
      case Nil
      then show ?thesis
        using qsort_inv_done [of c n b e xs] "1.prems" False by (simp add: qsort_loop.simps [of c siz "[]" b e xs])
    next
      case (Cons s stk')
      then show ?thesis
        using "1.IH"(5) [OF False] qsort_inv_pop [of c n "fst s" "snd s" stk' b e xs] "1.prems" False
        by (cases s) (simp add: qsort_loop.simps [of c siz "_ # _" b e xs])
    qed
  qed
qed

lemma zend_qsort_ok:
  assumes "comparator_on (set xs) c" "length xs \<le> 2 ^ 64"
  shows "\<exists>ys. zend_qsort c siz xs = Some ys \<and> mset ys = mset xs \<and> sorted_wrt (\<lambda>x y. c x y \<le> 0) ys"
proof -
  have "qsort_inv c (length xs) [] 0 (length xs - 1) xs"
    using assms by (auto simp: qsort_inv_def ordered_outside_def)
  from qsort_loop_ok [OF this] show ?thesis by (simp add: zend_qsort_def zend_qsort_r_def)
qed

section \<open>Properties\<close>

text \<open>
  (C36) The quicksort of the engine: for every array of fewer than \<open>2\<^sup>64\<close> elements and every comparison
  function that is a total preorder on them, \<open>zend_qsort\<close> ends, never writes beyond its two stacks of 64
  entries, and returns the same elements in ascending order.
\<close>

theorem zend_qsort_sorts:
  assumes "comparator_on (set xs) compare" and "length xs \<le> 2 ^ 64"
  shows "\<exists>ys. zend_qsort compare siz xs = Some ys \<and> mset ys = mset xs
    \<and> sorted_wrt (\<lambda>x y. compare x y \<le> 0) ys"
  by (rule zend_qsort_ok [OF assms])

theorem zend_qsort_sorts_witness:
  "comparator_on (set [5, 2, 9, 2]) (\<lambda>x y. x - y :: int)
    \<and> (\<exists>ys. zend_qsort (\<lambda>x y. x - y) 8 [5, 2, 9, 2::int] = Some ys \<and> mset ys = {#5, 2, 9, 2#}
        \<and> sorted_wrt (\<lambda>x y. x - y \<le> 0) ys)"
proof -
  have "comparator_on (set [5, 2, 9, 2]) (\<lambda>x y. x - y :: int)" by (auto simp: comparator_on_def)
  with zend_qsort_sorts [OF this, of 8] show ?thesis by simp
qed

end
