(* ===== verification/Zend_Hash_Sort.thy ===== *)
theory Zend_Hash_Sort
  imports Zend_Hash_Ops Zend_Qsort
begin

text \<open>
  Sorting, renumbering and comparing hash tables (Zend/zend_hash.c). \<open>zend_hash_sort\<close> copies the
  bucket pointers into an array, calls the sorting routine it is given and links the buckets again in
  the new order; the comparison function sees the key and the value of a bucket.
\<close>

section \<open>Renumbering\<close>

partial_function (option) reindex_loop ::
  "bool \<Rightarrow> addr option \<Rightarrow> ulong \<Rightarrow> 'v HashTable \<Rightarrow> (ulong \<times> 'v HashTable) option" where
  "reindex_loop only_integer_keys p offset ht =
     (case p of
        None \<Rightarrow> Some (offset, ht)
      | Some a \<Rightarrow>
          (case heap ht a of
             None \<Rightarrow> None
           | Some b \<Rightarrow>
               (if \<not> only_integer_keys \<or> b_arKey b = []
                then do { ht \<leftarrow> set_bucket a (\<lambda>b. b\<lparr>b_h := offset, b_arKey := []\<rparr>) ht;
                          ht \<leftarrow> connect_to_bucket_dllist a (bucket_index ht offset) ht;
                          reindex_loop only_integer_keys (b_pListNext b) (offset + 1) ht }
                else do { ht \<leftarrow> connect_to_bucket_dllist a (bucket_index ht (b_h b)) ht;
                          reindex_loop only_integer_keys (b_pListNext b) offset ht })))"

declare reindex_loop.simps [code]

definition zend_hash_reindex :: "'v HashTable \<Rightarrow> bool \<Rightarrow> 'v HashTable option" where
  "zend_hash_reindex ht only_integer_keys =
     (if nNumOfElements ht = 0 then Some (ht\<lparr>nNextFreeElement := 0\<rparr>)
      else do {
        (offset, ht) \<leftarrow> reindex_loop only_integer_keys (pListHead ht) 0
                         (ht\<lparr>arBuckets := replicate (unat (nTableSize ht)) None\<rparr>);
        Some (ht\<lparr>nNextFreeElement := offset\<rparr>) })"

section \<open>Sorting\<close>

text \<open>The loop that fills \<open>arTmp\<close>.\<close>

partial_function (option) list_buckets :: "(addr \<Rightarrow> 'v Bucket option) \<Rightarrow> addr option \<Rightarrow> addr list option" where
  "list_buckets hp p =
     (case p of
        None \<Rightarrow> Some []
      | Some a \<Rightarrow>
          (case hp a of
             None \<Rightarrow> None
           | Some b \<Rightarrow> do { as \<leftarrow> list_buckets hp (b_pListNext b); Some (a # as) }))"

declare list_buckets.simps [code]

text \<open>The loop that links the buckets of \<open>arTmp\<close>, each to its neighbours in the array.\<close>

fun relink_buckets :: "addr option \<Rightarrow> addr list \<Rightarrow> 'v HashTable \<Rightarrow> 'v HashTable option" where
  "relink_buckets prev [] ht = Some ht"
| "relink_buckets prev (a # as) ht = do {
     ht \<leftarrow> set_bucket a (\<lambda>b. b\<lparr>b_pListLast := prev, b_pListNext := head_opt as\<rparr>) ht;
     relink_buckets (Some a) as ht }"

definition zend_hash_sort ::
  "'v HashTable \<Rightarrow> ((addr \<Rightarrow> addr \<Rightarrow> int) \<Rightarrow> addr list \<Rightarrow> addr list option) \<Rightarrow>
   (bkey \<times> 'v \<Rightarrow> bkey \<times> 'v \<Rightarrow> int) \<Rightarrow> bool \<Rightarrow> (zresult \<times> 'v HashTable) option" where
  "zend_hash_sort ht sort_func compar renumber =
     (if \<not> 1 < nNumOfElements ht \<and> \<not> (renumber \<and> 0 < nNumOfElements ht) then Some (SUCCESS, ht)
      else do {
        arTmp \<leftarrow> list_buckets (heap ht) (pListHead ht);
        arTmp \<leftarrow> sort_func (\<lambda>p q. compar (bucket_entry (heap ht) p) (bucket_entry (heap ht) q)) arTmp;
        (case arTmp of
           [] \<Rightarrow> None
         | a # _ \<Rightarrow> do {
             ht \<leftarrow> relink_buckets None arTmp (ht\<lparr>pListHead := Some a, pListTail := None, pInternalPointer := Some a\<rparr>);
             let ht = ht\<lparr>pListTail := Some (last arTmp)\<rparr>;
             ht \<leftarrow> (if renumber then zend_hash_reindex ht False else Some ht);
             Some (SUCCESS, ht) }) })"

section \<open>Comparing\<close>

text \<open>The conversion of an unsigned difference to int.\<close>

definition uint_diff :: "uint \<Rightarrow> uint \<Rightarrow> int" where
  "uint_diff a b = sint (a - b)"

definition ulong_diff :: "ulong \<Rightarrow> ulong \<Rightarrow> int" where
  "ulong_diff a b = sint (ucast (a - b) :: uint)"

text \<open>\<open>memcmp\<close> on two keys of the same length; only the sign of its result is defined.\<close>

fun memcmp :: "string \<Rightarrow> string \<Rightarrow> int" where
  "memcmp (x # xs) (y # ys) =
     (if x = y then memcmp xs ys else if (of_char x :: nat) < of_char y then - 1 else 1)"
| "memcmp _ _ = 0"

text \<open>The keys of two buckets at the same place of the two lists.\<close>

definition key_difference :: "'v Bucket \<Rightarrow> 'v Bucket \<Rightarrow> int" where
  "key_difference p1 p2 =
     (if b_arKey p1 = [] \<and> b_arKey p2 = [] then ulong_diff (b_h p1) (b_h p2)
      else let result = uint_diff (of_nat (length (b_arKey p1))) (of_nat (length (b_arKey p2))) in
        if result \<noteq> 0 then result else memcmp (b_arKey p1) (b_arKey p2))"

partial_function (option) compare_loop ::
  "('v \<Rightarrow> 'v \<Rightarrow> int) \<Rightarrow> bool \<Rightarrow> 'v HashTable \<Rightarrow> 'v HashTable \<Rightarrow> addr option \<Rightarrow> addr option \<Rightarrow> int option" where
  "compare_loop compar ordered ht1 ht2 p1 p2 =
     (case p1 of
        None \<Rightarrow> Some 0
      | Some a1 \<Rightarrow>
          (case heap ht1 a1 of
             None \<Rightarrow> None
           | Some b1 \<Rightarrow>
               if ordered
               then (case p2 of
                       None \<Rightarrow> Some 1
                     | Some a2 \<Rightarrow>
                         (case heap ht2 a2 of
                            None \<Rightarrow> None
                          | Some b2 \<Rightarrow>
                              if key_difference b1 b2 \<noteq> 0 then Some (key_difference b1 b2)
                              else if compar (b_pData b1) (b_pData b2) \<noteq> 0
                              then Some (compar (b_pData b1) (b_pData b2))
                              else compare_loop compar ordered ht1 ht2 (b_pListNext b1) (b_pListNext b2)))
               else (case zend_hash_quick_find ht2 (b_arKey b1) (b_h b1) of
                       None \<Rightarrow> None
                     | Some None \<Rightarrow> Some 1
                     | Some (Some pData2) \<Rightarrow>
                         if compar (b_pData b1) pData2 \<noteq> 0 then Some (compar (b_pData b1) pData2)
                         else compare_loop compar ordered ht1 ht2 (b_pListNext b1) p2)))"

declare compare_loop.simps [code]

text \<open>\<open>ht1\<close> and \<open>ht2\<close> are two tables; each has its own nesting counter.\<close>

definition zend_hash_compare ::
  "protection \<Rightarrow> protection \<Rightarrow> 'v HashTable \<Rightarrow> 'v HashTable \<Rightarrow> ('v \<Rightarrow> 'v \<Rightarrow> int) \<Rightarrow> bool \<Rightarrow>
   int protected option" where
  "zend_hash_compare prot1 prot2 ht1 ht2 compar ordered =
     (case hash_protect_recursion (fst prot1) (snd prot1) of
        None \<Rightarrow> Some Nesting_too_deep
      | Some _ \<Rightarrow>
          protected_run prot2
            (let result = uint_diff (nNumOfElements ht1) (nNumOfElements ht2) in
             if result \<noteq> 0 then Some result
             else compare_loop compar ordered ht1 ht2 (pListHead ht1)
                    (if ordered then pListHead ht2 else None)))"

text \<open>The comparison function of \<open>zend_hash_minmax\<close> sees whole buckets.\<close>

partial_function (option) minmax_loop ::
  "(bkey \<times> 'v \<Rightarrow> bkey \<times> 'v \<Rightarrow> int) \<Rightarrow> bool \<Rightarrow> (addr \<Rightarrow> 'v Bucket option) \<Rightarrow> addr \<Rightarrow> addr option \<Rightarrow> addr option" where
  "minmax_loop compar flag hp res p =
     (case p of
        None \<Rightarrow> Some res
      | Some a \<Rightarrow>
          (case hp a of
             None \<Rightarrow> None
           | Some b \<Rightarrow>
               let result = compar (bucket_entry hp res) (bucket_entry hp a) in
               minmax_loop compar flag hp
                 (if flag then if result < 0 then a else res else if result > 0 then a else res)
                 (b_pListNext b)))"

declare minmax_loop.simps [code]

definition zend_hash_minmax ::
  "'v HashTable \<Rightarrow> (bkey \<times> 'v \<Rightarrow> bkey \<times> 'v \<Rightarrow> int) \<Rightarrow> bool \<Rightarrow> (zresult \<times> 'v option) option" where
  "zend_hash_minmax ht compar flag =
     (if nNumOfElements ht = 0 then Some (FAILURE, None)
      else do {
        res \<leftarrow> pListHead ht;
        b \<leftarrow> heap ht res;
        res \<leftarrow> minmax_loop compar flag (heap ht) res (b_pListNext b);
        b \<leftarrow> heap ht res;
        Some (SUCCESS, Some (b_pData b)) })"

section \<open>Renumbering on entries\<close>

fun renumber_entries :: "bool \<Rightarrow> ulong \<Rightarrow> (bkey \<times> 'v) list \<Rightarrow> (bkey \<times> 'v) list" where
  "renumber_entries oi n [] = []"
| "renumber_entries oi n ((k, v) # es) =
     (if \<not> oi \<or> snd k = [] then ((n, []), v) # renumber_entries oi (n + 1) es
      else (k, v) # renumber_entries oi n es)"

fun renumbered :: "bool \<Rightarrow> (bkey \<times> 'v) list \<Rightarrow> nat" where
  "renumbered oi [] = 0"
| "renumbered oi ((k, v) # es) = (if \<not> oi \<or> snd k = [] then 1 else 0) + renumbered oi es"

text \<open>What giving the bucket at \<open>a\<close> the key \<open>k\<close> does to the heap.\<close>

definition key_set :: "addr \<Rightarrow> bkey \<Rightarrow> (addr \<Rightarrow> 'v Bucket option) \<Rightarrow> addr \<Rightarrow> 'v Bucket option" where
  "key_set a k hp x = map_option (\<lambda>b. if x = a then b\<lparr>b_h := fst k, b_arKey := snd k\<rparr> else b) (hp x)"

lemma key_set_simps [simp]:
  "key_set a k hp x = None \<longleftrightarrow> hp x = None"
  "link b_pNext (key_set a k hp) x = link b_pNext hp x"
  "link b_pLast (key_set a k hp) x = link b_pLast hp x"
  "link b_pListNext (key_set a k hp) x = link b_pListNext hp x"
  "link b_pListLast (key_set a k hp) x = link b_pListLast hp x"
  by (cases "hp x"; simp add: key_set_def link_def)+

lemma key_set_key:
  "hp a \<noteq> None \<Longrightarrow> bucket_key (key_set a k hp) x = (if x = a then k else bucket_key hp x)"
  by (cases "hp x") (auto simp: key_set_def bucket_key_def)

lemma key_set_data: "hp x \<noteq> None \<Longrightarrow> b_pData (the (key_set a k hp x)) = b_pData (the (hp x))"
  by (auto simp: key_set_def)

text \<open>Two tables that differ in their chains and in their keys.\<close>

definition same_but_keys :: "'v HashTable \<Rightarrow> 'v HashTable \<Rightarrow> bool" where
  "same_but_keys ht ht' \<longleftrightarrow>
     ht'\<lparr>heap := heap ht, arBuckets := arBuckets ht\<rparr> = ht
     \<and> length (arBuckets ht') = length (arBuckets ht)
     \<and> (\<forall>x. (heap ht' x = None \<longleftrightarrow> heap ht x = None)
          \<and> link b_pListNext (heap ht') x = link b_pListNext (heap ht) x
          \<and> link b_pListLast (heap ht') x = link b_pListLast (heap ht) x
          \<and> (heap ht x \<noteq> None \<longrightarrow> b_pData (the (heap ht' x)) = b_pData (the (heap ht x))))"

lemma same_but_keys_refl [simp]: "same_but_keys ht ht"
  by (simp add: same_but_keys_def)

lemma same_but_keys_trans: "same_but_keys a b \<Longrightarrow> same_but_keys b c \<Longrightarrow> same_but_keys a c"
  unfolding same_but_keys_def by (cases a; cases b; cases c) simp

lemma same_but_keys_step:
  "same_but_keys ht (ht\<lparr>heap := chain_pushed a p (key_set a k (heap ht)), arBuckets := (arBuckets ht)[i := x]\<rparr>)"
  by (simp add: same_but_keys_def chain_pushed_data key_set_data)

lemma same_but_keys_fields:
  assumes "same_but_keys ht ht'"
  shows "nTableSize ht' = nTableSize ht" "nTableMask ht' = nTableMask ht"
    "nNumOfElements ht' = nNumOfElements ht" "nNextFreeElement ht' = nNextFreeElement ht"
    "pInternalPointer ht' = pInternalPointer ht" "pListHead ht' = pListHead ht"
    "pListTail ht' = pListTail ht" "pDestructor ht' = pDestructor ht" "brk ht' = brk ht"
    "destroyed ht' = destroyed ht"
  using assms unfolding same_but_keys_def
  by (cases ht; cases ht'; simp)+

lemma chain_ok_key_set:
  assumes "chain_ok ht S cs" "a \<notin> S" "heap ht a \<noteq> None"
  shows "chain_ok (ht\<lparr>heap := key_set a k (heap ht)\<rparr>) S cs"
proof -
  let ?ht = "ht\<lparr>heap := key_set a k (heap ht)\<rparr>"
  have "link b_pNext (heap ?ht) = link b_pNext (heap ht)" "link b_pLast (heap ?ht) = link b_pLast (heap ht)"
    by (auto simp: fun_eq_iff)
  moreover have "{x \<in> S. bucket_index ?ht (fst (bucket_key (heap ?ht) x)) = i}
      = {x \<in> S. bucket_index ht (fst (bucket_key (heap ht) x)) = i}" for i
    using assms(2,3) bucket_index_cong [of ?ht ht] by (auto simp: key_set_key)
  ultimately show ?thesis using assms(1) by (simp add: chain_ok_def)
qed

lemma reindex_loop_step:
  assumes b: "heap ht a = Some b"
    and k: "k = (if \<not> oi \<or> b_arKey b = [] then (n, []) else (b_h b, b_arKey b))"
  shows "reindex_loop oi (Some a) n ht =
    connect_to_bucket_dllist a (bucket_index ht (fst k)) (ht\<lparr>heap := key_set a k (heap ht)\<rparr>) \<bind>
    (\<lambda>ht. reindex_loop oi (b_pListNext b) (if \<not> oi \<or> b_arKey b = [] then n + 1 else n) ht)"
proof -
  have "key_set a k (heap ht) = (heap ht)(a \<mapsto> b\<lparr>b_h := fst k, b_arKey := snd k\<rparr>)"
    using b by (auto simp: key_set_def fun_eq_iff option.map_ident)
  moreover have "bucket_index (ht\<lparr>heap := h\<rparr>) = bucket_index ht" for h by (rule bucket_index_cong) simp
  ultimately show ?thesis
    using b k by (auto simp: reindex_loop.simps [of oi "Some a"] set_bucket_def fun_upd_idem)
qed

lemma reindex_loop_ok:
  assumes "lseg (link b_pListNext (heap ht)) (link b_pListLast (heap ht)) p ys"
    and "chain_ok ht S cs" and "S \<inter> set ys = {}" and "distinct ys"
    and "\<forall>x \<in> S \<union> set ys. heap ht x \<noteq> None"
    and "length (arBuckets ht) = Suc (unat (nTableMask ht))"
  shows "\<exists>ht' cs'. reindex_loop oi (head_opt ys) n ht = Some (n + of_nat (renumbered oi (ht_entries ht ys)), ht')
    \<and> chain_ok ht' (S \<union> set ys) cs' \<and> same_but_keys ht ht'
    \<and> ht_entries ht' ys = renumber_entries oi n (ht_entries ht ys)
    \<and> (\<forall>x. x \<notin> set ys \<longrightarrow> bucket_key (heap ht') x = bucket_key (heap ht) x)"
  using assms
proof (induction ys arbitrary: ht p S cs n)
  case Nil
  then show ?case by (auto simp: reindex_loop.simps)
next
  case (Cons a ys)
  obtain b where b: "heap ht a = Some b" using Cons.prems(5) by auto
  define ren where "ren \<longleftrightarrow> \<not> oi \<or> b_arKey b = []"
  define k where "k = (if ren then (n, []) else (b_h b, b_arKey b))"
  let ?ht0 = "ht\<lparr>heap := key_set a k (heap ht)\<rparr>"
  let ?i = "bucket_index ht (fst k)"
  define ht1 where "ht1 = ?ht0\<lparr>heap := chain_pushed a (head_opt (cs ?i)) (key_set a k (heap ht)),
               arBuckets := (arBuckets ht)[?i := Some a]\<rparr>"
  have idx: "bucket_index ?ht0 = bucket_index ht" by (rule bucket_index_cong) simp
  have key: "bucket_key (heap ?ht0) x = (if x = a then k else bucket_key (heap ht) x)" for x
    using b by (simp add: key_set_key)
  have c0: "chain_ok ?ht0 S cs" using Cons.prems(2,3) b by (intro chain_ok_key_set) auto
  have push: "connect_to_bucket_dllist a ?i ?ht0 = Some ht1" "chain_ok ht1 (insert a S) (cs(?i := a # cs ?i))"
    using chain_ok_push [OF c0, of a ?i] Cons.prems(3,5) b key [of a] idx bucket_index_in_range [OF Cons.prems(6)]
    by (auto simp: ht1_def)
  have nxt: "b_pListNext b = head_opt ys" using Cons.prems(1) b by (simp add: link_def)
  have same: "same_but_keys ht ht1" by (simp add: ht1_def same_but_keys_step)
  have key1: "bucket_key (heap ht1) x = (if x = a then k else bucket_key (heap ht) x)" for x
    using key by (simp add: ht1_def)
  have ents: "ht_entries ht1 ys = ht_entries ht ys" "bucket_entry (heap ht1) a = (k, b_pData b)"
    using Cons.prems(4,5) b same key1
    by (auto simp: ht_entries_def bucket_entry_def same_but_keys_def)
  have seg1: "lseg (link b_pListNext (heap ht1)) (link b_pListLast (heap ht1)) (Some a) ys"
    using Cons.prems(1) same lseg_cong [of ys "link b_pListNext (heap ht1)" "link b_pListNext (heap ht)"
      "link b_pListLast (heap ht1)" "link b_pListLast (heap ht)" "Some a"] by (simp add: same_but_keys_def)
  have side: "insert a S \<inter> set ys = {}" "distinct ys" "\<forall>x \<in> insert a S \<union> set ys. heap ht1 x \<noteq> None"
    "length (arBuckets ht1) = Suc (unat (nTableMask ht1))"
    using Cons.prems(3-6) b same same_but_keys_fields(2) [OF same] by (auto simp: same_but_keys_def)
  from Cons.IH [OF seg1 push(2) side, of "if ren then n + 1 else n"]
  obtain ht2 cs2 where loop: "reindex_loop oi (head_opt ys) (if ren then n + 1 else n) ht1
      = Some ((if ren then n + 1 else n) + of_nat (renumbered oi (ht_entries ht ys)), ht2)"
    "chain_ok ht2 (insert a S \<union> set ys) cs2" "same_but_keys ht1 ht2"
    "ht_entries ht2 ys = renumber_entries oi (if ren then n + 1 else n) (ht_entries ht ys)"
    "\<forall>x. x \<notin> set ys \<longrightarrow> bucket_key (heap ht2) x = bucket_key (heap ht1) x"
    unfolding ents by blast
  have "bucket_entry (heap ht2) a = (k, b_pData b)"
    using loop(3,5) Cons.prems(4) ents(2) b same by (auto simp: bucket_entry_def same_but_keys_def)
  moreover have "reindex_loop oi (head_opt (a # ys)) n ht
      = Some (n + of_nat (renumbered oi (ht_entries ht (a # ys))), ht2)"
    using reindex_loop_step [OF b, of k oi n] push(1) loop(1) nxt b
    by (auto simp: k_def ren_def ht_entries_Cons bucket_entry_def bucket_key_def split: if_splits)
  ultimately show ?case
    using loop same_but_keys_trans [OF same loop(3)] key1 b
    by (auto simp: ht_entries_Cons bucket_entry_def bucket_key_def k_def ren_def)
qed

text \<open>The keys a renumbering from \<open>n\<close> on hands out.\<close>

definition index_keys :: "nat \<Rightarrow> nat \<Rightarrow> bkey set" where
  "index_keys n l = {(of_nat m, []) | m. n \<le> m \<and> m < n + l}"

lemma index_keys_Suc:
  "(of_nat n, []) \<in> index_keys n (Suc l)" "index_keys (Suc n) l \<subseteq> index_keys n (Suc l)"
  "index_keys n l \<subseteq> index_keys n (Suc l)"
  by (auto simp: index_keys_def)

lemma index_keys_next: "n + Suc l \<le> 2 ^ 64 \<Longrightarrow> (of_nat n, []) \<notin> index_keys (Suc n) l"
proof
  assume n: "n + Suc l \<le> 2 ^ 64" and "(of_nat n, []) \<in> index_keys (Suc n) l"
  then obtain m where "(of_nat n :: ulong, [] :: string) = (of_nat m, [])" "Suc n \<le> m" "m < Suc n + l"
    unfolding index_keys_def by blast
  then have m: "n < m" "m < n + Suc l" "(of_nat n :: ulong) = of_nat m" by simp_all
  then have "unat (of_nat n :: ulong) = unat (of_nat m :: ulong)" by simp
  with m(1,2) n show False by (simp add: unat_of_nat take_bit_nat_eq_self)
qed

lemma of_nat_Suc_ulong: "of_nat n + 1 = (of_nat (Suc n) :: ulong)"
  by simp

lemma renumber_keys:
  "fst ` set (renumber_entries oi (of_nat n) es) \<subseteq> index_keys n (length es) \<union> {k \<in> fst ` set es. snd k \<noteq> []}"
proof (induction es arbitrary: n)
  case (Cons e es)
  obtain k v where e: "e = (k, v)" by (cases e)
  show ?case
  proof (cases "\<not> oi \<or> snd k = []")
    case True
    then have "renumber_entries oi (of_nat n) (e # es) = ((of_nat n, []), v) # renumber_entries oi (of_nat (Suc n)) es"
      unfolding e renumber_entries.simps of_nat_Suc_ulong by simp
    with Cons.IH [of "Suc n"] index_keys_Suc [of n "length es"] show ?thesis by (simp del: of_nat_Suc) blast
  next
    case False
    then have "renumber_entries oi (of_nat n) (e # es) = (k, v) # renumber_entries oi (of_nat n) es" by (simp add: e)
    with Cons.IH [of n] index_keys_Suc(3) [of n "length es"] False show ?thesis by (simp add: e) blast
  qed
qed simp

lemma renumber_distinct:
  assumes "distinct (map fst es)" "n + length es \<le> 2 ^ 64"
  shows "distinct (map fst (renumber_entries oi (of_nat n) es))"
  using assms
proof (induction es arbitrary: n)
  case (Cons e es)
  obtain k v where e: "e = (k, v)" by (cases e)
  show ?case
  proof (cases "\<not> oi \<or> snd k = []")
    case True
    then have eq: "renumber_entries oi (of_nat n) (e # es) = ((of_nat n, []), v) # renumber_entries oi (of_nat (Suc n)) es"
      unfolding e renumber_entries.simps of_nat_Suc_ulong by simp
    have "n + Suc (length es) \<le> 2 ^ 64" using Cons.prems(2) by simp
    from index_keys_next [OF this] have "(of_nat n, []) \<notin> fst ` set (renumber_entries oi (of_nat (Suc n)) es)"
      using renumber_keys [of oi "Suc n" es] by auto
    with Cons.IH [of "Suc n"] Cons.prems show ?thesis unfolding eq by (simp del: of_nat_Suc)
  next
    case False
    have "k \<notin> index_keys n (length es)" using False by (auto simp: index_keys_def)
    then have "k \<notin> fst ` set (renumber_entries oi (of_nat n) es)"
      using renumber_keys [of oi n es] Cons.prems(1) e by auto
    with Cons.IH [of n] Cons.prems e False show ?thesis by simp
  qed
qed simp

lemma zend_hash_reindex_ok:
  assumes rep: "ht_rep ht gs cs"
  shows "\<exists>ht' cs'. zend_hash_reindex ht oi = Some ht' \<and> ht_rep ht' gs cs'
    \<and> ht_entries ht' gs = renumber_entries oi 0 (ht_entries ht gs)
    \<and> nNextFreeElement ht' = of_nat (renumbered oi (ht_entries ht gs))
    \<and> pDestructor ht' = pDestructor ht \<and> destroyed ht' = destroyed ht
    \<and> pInternalPointer ht' = pInternalPointer ht"
proof (cases "gs = []")
  case True
  then have "nNumOfElements ht = 0" using rep by (simp add: ht_rep_def unat_eq_0)
  with True rep ht_rep_nfe [where ht = ht and n = 0] show ?thesis by (auto simp: zend_hash_reindex_def)
next
  case False
  have ne: "nNumOfElements ht \<noteq> 0" using rep False by (auto simp: ht_rep_def)
  define ht0 where "ht0 = ht\<lparr>arBuckets := replicate (unat (nTableSize ht)) None\<rparr>"
  have t: "table_ok ht gs" and g: "global_ok ht gs" using rep by (auto simp: ht_rep_def)
  then have mask: "nTableMask ht = nTableSize ht - 1" "0 < nTableSize ht"
    using False by (auto simp: table_ok_def word_less_nat_alt split: if_splits)
  have len: "length (arBuckets ht0) = Suc (unat (nTableMask ht0))"
    using mask unat_pred [of "nTableSize ht"] by (simp add: ht0_def)
  have ents: "ht_entries ht0 gs = ht_entries ht gs" by (simp add: ht0_def ht_entries_def)
  have c0: "chain_ok ht0 {} (\<lambda>_. [])" unfolding ht0_def by (rule chain_ok_empty)
  have hs: "lseg (link b_pListNext (heap ht0)) (link b_pListLast (heap ht0)) None gs" "distinct gs"
    "\<forall>x \<in> {} \<union> set gs. heap ht0 x \<noteq> None"
    using g by (auto simp: global_ok_def dll_def ht0_def)
  from reindex_loop_ok [OF hs(1) c0 _ hs(2,3) len, of oi 0]
  obtain ht1 cs1 where loop: "reindex_loop oi (head_opt gs) 0 ht0 = Some (of_nat (renumbered oi (ht_entries ht gs)), ht1)"
    "chain_ok ht1 (set gs) cs1" "same_but_keys ht0 ht1"
    "ht_entries ht1 gs = renumber_entries oi 0 (ht_entries ht gs)"
    unfolding ents by auto
  note f = same_but_keys_fields [OF loop(3)]
  have "link b_pListNext (heap ht1) = link b_pListNext (heap ht)" "link b_pListLast (heap ht1) = link b_pListLast (heap ht)"
    using loop(3) by (auto simp: same_but_keys_def ht0_def)
  then have g1: "global_ok ht1 gs" using g f loop(3) by (simp add: global_ok_def same_but_keys_def ht0_def)
  have "unat (nNumOfElements ht) = length gs" using rep by (simp add: ht_rep_def)
  then have "0 + length (ht_entries ht gs) \<le> 2 ^ 64"
    using unsigned_less [where 'a = nat, of "nNumOfElements ht"] by (simp add: ht_entries_def)
  from renumber_distinct [OF ht_rep_distinct [OF rep] this, of oi]
  have "distinct (map fst (ht_entries ht1 gs))" unfolding loop(4) by simp
  then have d: "distinct (map (bucket_key (heap ht1)) gs)" by (simp add: ht_entries_keys)
  have "length (arBuckets ht1) = length (arBuckets ht0)" using loop(3) by (simp add: same_but_keys_def)
  then have "table_ok ht1 gs" using t len f False by (auto simp: table_ok_def ht0_def)
  with g1 loop(2) d rep f have "ht_rep ht1 gs cs1" by (auto simp: ht_rep_def ht0_def)
  then have "ht_rep (ht1\<lparr>nNextFreeElement := of_nat (renumbered oi (ht_entries ht gs))\<rparr>) gs cs1"
    by (simp add: ht_rep_nfe)
  moreover have "pListHead ht = head_opt gs" using g by (simp add: global_ok_def dll_def)
  ultimately show ?thesis
    using ne loop f by (auto simp: zend_hash_reindex_def ht0_def ht_entries_def)
qed

section \<open>Linking again\<close>

lemma list_buckets_ok:
  assumes "lseg (link b_pListNext hp) pv p xs" and "\<forall>a \<in> set xs. hp a \<noteq> None"
  shows "list_buckets hp (head_opt xs) = Some xs"
  using assms
proof (induction xs arbitrary: p)
  case (Cons a xs)
  then obtain b where b: "hp a = Some b" by auto
  with Cons.prems have "b_pListNext b = head_opt xs" by (simp add: link_def)
  with Cons.prems Cons.IH [of "Some a"] b show ?case by (simp add: list_buckets.simps [of hp "Some a"])
qed (simp add: list_buckets.simps)

text \<open>Two heaps that differ only in the links of the element list.\<close>

definition same_but_list :: "(addr \<Rightarrow> 'v Bucket option) \<Rightarrow> (addr \<Rightarrow> 'v Bucket option) \<Rightarrow> bool" where
  "same_but_list hp hp' \<longleftrightarrow>
     (\<forall>x. (hp' x = None \<longleftrightarrow> hp x = None) \<and> bucket_entry hp' x = bucket_entry hp x
        \<and> link b_pNext hp' x = link b_pNext hp x \<and> link b_pLast hp' x = link b_pLast hp x)"

lemma same_but_list_trans: "same_but_list a b \<Longrightarrow> same_but_list b c \<Longrightarrow> same_but_list a c"
  by (simp add: same_but_list_def)

lemma same_but_list_upd:
  "hp a = Some b \<Longrightarrow> same_but_list hp (hp(a \<mapsto> b\<lparr>b_pListLast := l, b_pListNext := n\<rparr>))"
  by (auto simp: same_but_list_def bucket_entry_def bucket_key_def link_def)

lemma relink_buckets_ok:
  assumes "distinct as" "\<forall>a \<in> set as. heap ht a \<noteq> None"
  shows "\<exists>hp. relink_buckets prev as ht = Some (ht\<lparr>heap := hp\<rparr>)
    \<and> lseg (link b_pListNext hp) (link b_pListLast hp) prev as
    \<and> (\<forall>x. x \<notin> set as \<longrightarrow> hp x = heap ht x) \<and> same_but_list (heap ht) hp"
  using assms
proof (induction as arbitrary: prev ht)
  case Nil
  show ?case by (auto simp: same_but_list_def intro!: exI [of _ "heap ht"])
next
  case (Cons a as)
  obtain b where b: "heap ht a = Some b" using Cons.prems by auto
  let ?b = "b\<lparr>b_pListLast := prev, b_pListNext := head_opt as\<rparr>"
  let ?ht = "ht\<lparr>heap := (heap ht)(a \<mapsto> ?b)\<rparr>"
  have "\<forall>x \<in> set as. heap ?ht x \<noteq> None" using Cons.prems(2) by simp
  then obtain hp where hp: "relink_buckets (Some a) as ?ht = Some (?ht\<lparr>heap := hp\<rparr>)"
    "lseg (link b_pListNext hp) (link b_pListLast hp) (Some a) as"
    "\<forall>x. x \<notin> set as \<longrightarrow> hp x = heap ?ht x" "same_but_list (heap ?ht) hp"
    using Cons.IH [of ?ht "Some a"] Cons.prems(1) unfolding distinct.simps by blast
  have "relink_buckets prev (a # as) ht = Some (ht\<lparr>heap := hp\<rparr>)"
    using hp(1) b by (simp add: set_bucket_def)
  moreover have "hp a = Some ?b" using hp(3) Cons.prems(1) by simp
  then have "lseg (link b_pListNext hp) (link b_pListLast hp) prev (a # as)"
    using hp(2) by (simp add: link_def)
  moreover have "same_but_list (heap ht) hp"
    using same_but_list_trans [OF same_but_list_upd [where hp = "heap ht", OF b] hp(4) [simplified]] .
  ultimately show ?case using hp(3) by auto
qed

section \<open>Sorting a table\<close>

lemma length_ht_entries: "length (ht_entries ht gs) = length gs"
  by (simp add: ht_entries_def)

lemma chain_ok_relinked:
  assumes "chain_ok ht S cs" "same_but_list (heap ht) (heap ht')"
    and "arBuckets ht' = arBuckets ht" "nTableMask ht' = nTableMask ht"
  shows "chain_ok ht' S cs"
proof -
  have "link b_pNext (heap ht') = link b_pNext (heap ht)" "link b_pLast (heap ht') = link b_pLast (heap ht)"
    "\<And>x. bucket_key (heap ht') x = bucket_key (heap ht) x"
    using assms(2) by (auto simp: same_but_list_def fun_eq_iff bucket_entry_def)
  with assms(1,3) bucket_index_cong [OF assms(4)] show ?thesis by (simp add: chain_ok_def)
qed

text \<open>The table after the buckets have been linked in the order \<open>gs'\<close>.\<close>

lemma relinked_rep:
  assumes rep: "ht_rep ht gs cs" and perm: "mset gs' = mset gs" and ne: "gs' \<noteq> []"
    and ht0: "ht0 = ht\<lparr>pListHead := head_opt gs', pListTail := None, pInternalPointer := head_opt gs'\<rparr>"
  shows "\<exists>hp. relink_buckets None gs' ht0 = Some (ht0\<lparr>heap := hp\<rparr>)
    \<and> ht_rep (ht0\<lparr>heap := hp, pListTail := last_opt gs'\<rparr>) gs' cs \<and> same_but_list (heap ht) hp"
proof -
  have f0: "heap ht0 = heap ht" "arBuckets ht0 = arBuckets ht" "nTableMask ht0 = nTableMask ht"
    "nTableSize ht0 = nTableSize ht" "nNumOfElements ht0 = nNumOfElements ht" "brk ht0 = brk ht"
    "pListHead ht0 = head_opt gs'" "pInternalPointer ht0 = head_opt gs'"
    by (simp_all add: ht0)
  have set: "set gs' = set gs" using perm by (metis set_mset_mset)
  have len: "length gs' = length gs" by (rule mset_eq_length [OF perm])
  have dist: "distinct gs'" using ht_rep_dist [OF rep] mset_eq_imp_distinct_iff [OF perm] by simp
  have dom: "\<forall>a \<in> set gs'. heap ht0 a \<noteq> None" using ht_rep_dom [OF rep] set f0(1) by simp
  obtain hp where hp: "relink_buckets None gs' ht0 = Some (ht0\<lparr>heap := hp\<rparr>)"
    "lseg (link b_pListNext hp) (link b_pListLast hp) None gs'" "same_but_list (heap ht) hp"
    using relink_buckets_ok [OF dist dom, of None] unfolding f0(1) by blast
  define ht' where "ht' = ht0\<lparr>heap := hp, pListTail := last_opt gs'\<rparr>"
  have f': "heap ht' = hp" "arBuckets ht' = arBuckets ht" "nTableMask ht' = nTableMask ht"
    "nTableSize ht' = nTableSize ht" "nNumOfElements ht' = nNumOfElements ht" "brk ht' = brk ht"
    "pListHead ht' = head_opt gs'" "pListTail ht' = last_opt gs'" "pInternalPointer ht' = head_opt gs'"
    by (simp_all add: ht'_def f0)
  have none: "hp x \<noteq> None \<longleftrightarrow> x \<in> set gs'" for x
    using hp(3) ht_rep_dom [OF rep, of x] set by (simp add: same_but_list_def)
  have "\<forall>a \<in> set gs'. a < brk ht" using rep set by (simp add: ht_rep_def global_ok_def)
  then have g: "global_ok ht' gs'" unfolding global_ok_def dll_def f' using hp(2) dist none by blast
  have c: "chain_ok ht' (set gs') cs"
    unfolding set by (rule chain_ok_relinked [of ht]) (use rep hp(3) f' in \<open>simp_all add: ht_rep_def\<close>)
  have key: "bucket_key hp = bucket_key (heap ht)"
    using hp(3) by (auto simp: same_but_list_def bucket_entry_def fun_eq_iff)
  have "mset (map (bucket_key (heap ht)) gs') = mset (map (bucket_key (heap ht)) gs)" using perm by simp
  from mset_eq_imp_distinct_iff [OF this] rep have d: "distinct (map (bucket_key (heap ht')) gs')"
    by (simp add: ht_rep_def f' key)
  have n: "unat (nNumOfElements ht') = length gs'" using rep len by (simp add: ht_rep_def f')
  have "table_ok ht gs" using rep by (simp add: ht_rep_def)
  then have t: "table_ok ht' gs'" using ne len by (auto simp: table_ok_def f' split: if_splits)
  have ip: "\<forall>a. pInternalPointer ht' = Some a \<longrightarrow> a \<in> set gs'" using head_opt_in [of gs'] by (simp add: f')
  have "ht_rep ht' gs' cs" unfolding ht_rep_def by (intro conjI g c t d n ip)
  with hp show ?thesis unfolding ht'_def by blast
qed

lemma comparator_on_image: "comparator_on (f ` S) c \<Longrightarrow> comparator_on S (\<lambda>x y. c (f x) (f y))"
  unfolding comparator_on_def by blast

lemma zend_hash_sort_rep:
  assumes rep: "ht_rep ht gs cs"
    and sort: "sort_func (\<lambda>p q. compar (bucket_entry (heap ht) p) (bucket_entry (heap ht) q)) gs = Some gs'"
    and perm: "mset gs' = mset gs" and many: "1 < length gs \<or> renumber \<and> gs \<noteq> []"
  shows "\<exists>ht' cs'. zend_hash_sort ht sort_func compar renumber = Some (SUCCESS, ht') \<and> ht_rep ht' gs' cs'
    \<and> ht_entries ht' gs' = (if renumber then renumber_entries False 0 (ht_entries ht gs') else ht_entries ht gs')
    \<and> (renumber \<longrightarrow> nNextFreeElement ht' = of_nat (length gs))
    \<and> pDestructor ht' = pDestructor ht \<and> destroyed ht' = destroyed ht \<and> pInternalPointer ht' = pListHead ht'"
proof -
  have gs: "gs \<noteq> []" "gs' \<noteq> []" and len: "length gs' = length gs"
    using many perm mset_eq_length [OF perm] by auto
  obtain a as where gs': "gs' = a # as" using gs(2) by (cases gs') auto
  have n: "unat (nNumOfElements ht) = length gs" using rep by (simp add: ht_rep_def)
  have cond: "\<not> (\<not> 1 < nNumOfElements ht \<and> \<not> (renumber \<and> 0 < nNumOfElements ht))"
    using many n by (auto simp: word_less_nat_alt)
  define ht0 where "ht0 = ht\<lparr>pListHead := head_opt gs', pListTail := None, pInternalPointer := head_opt gs'\<rparr>"
  obtain hp where hp: "relink_buckets None gs' ht0 = Some (ht0\<lparr>heap := hp\<rparr>)"
    "ht_rep (ht0\<lparr>heap := hp, pListTail := last_opt gs'\<rparr>) gs' cs" "same_but_list (heap ht) hp"
    using relinked_rep [OF rep perm gs(2) ht0_def] by blast
  define ht1 where "ht1 = ht0\<lparr>heap := hp, pListTail := last_opt gs'\<rparr>"
  have f1: "pDestructor ht1 = pDestructor ht" "destroyed ht1 = destroyed ht" "pListHead ht1 = head_opt gs'"
    "pInternalPointer ht1 = head_opt gs'"
    by (simp_all add: ht1_def ht0_def)
  have e1: "ht_entries ht1 gs' = ht_entries ht gs'"
    using hp(3) by (simp add: ht1_def ht0_def ht_entries_def same_but_list_def)
  have lb: "list_buckets (heap ht) (pListHead ht) = Some gs"
    using list_buckets_ok [of "heap ht" "link b_pListLast (heap ht)" None gs] rep
    by (simp add: ht_rep_def global_ok_def dll_def)
  have run: "zend_hash_sort ht sort_func compar renumber =
      (if renumber then zend_hash_reindex ht1 False else Some ht1) \<bind> (\<lambda>ht. Some (SUCCESS, ht))"
  proof -
    have "ht0 = ht\<lparr>pListHead := Some a, pListTail := None, pInternalPointer := Some a\<rparr>"
      "ht1 = ht0\<lparr>heap := hp, pListTail := Some (last gs')\<rparr>"
      by (simp_all add: ht0_def ht1_def gs' last_opt_def)
    with lb sort hp(1) show ?thesis
      unfolding zend_hash_sort_def if_not_P [OF cond] by (simp add: gs' del: relink_buckets.simps)
  qed
  show ?thesis
  proof (cases renumber)
    case False
    with run hp(2) e1 f1 show ?thesis unfolding ht1_def [symmetric] by auto
  next
    case True
    have all: "renumbered False es = length es" for es :: "(bkey \<times> 'a) list" by (induction es) auto
    obtain ht2 cs2 where ht2: "zend_hash_reindex ht1 False = Some ht2" "ht_rep ht2 gs' cs2"
      "ht_entries ht2 gs' = renumber_entries False 0 (ht_entries ht gs')"
      "nNextFreeElement ht2 = of_nat (length gs)" "pDestructor ht2 = pDestructor ht" "destroyed ht2 = destroyed ht"
      "pInternalPointer ht2 = head_opt gs'"
      using zend_hash_reindex_ok [OF hp(2) [folded ht1_def], of False]
      unfolding e1 all length_ht_entries len f1 by blast
    have "pInternalPointer ht2 = pListHead ht2" using ht_rep_ends [OF ht2(2)] ht2(7) by simp
    with run True ht2 show ?thesis by auto
  qed
qed

text \<open>The same on the entries as a client sees them.\<close>

definition on_user_keys :: "(hash_key \<times> 'v \<Rightarrow> hash_key \<times> 'v \<Rightarrow> int) \<Rightarrow> bkey \<times> 'v \<Rightarrow> bkey \<times> 'v \<Rightarrow> int" where
  "on_user_keys compar e e' = compar (user_key (fst e), snd e) (user_key (fst e'), snd e')"

fun om_renumber :: "ulong \<Rightarrow> (hash_key \<times> 'v) list \<Rightarrow> (hash_key \<times> 'v) list" where
  "om_renumber n [] = []"
| "om_renumber n (e # es) = (HKIdx n, snd e) # om_renumber (n + 1) es"

lemma renumber_user:
  "user_entries (renumber_entries False n es) = om_renumber n (user_entries es)"
  "keys_ok (renumber_entries False n es)"
  by (induction es arbitrary: n; force simp: user_entries_def user_key_def keys_ok_def)+

lemma user_entries_map: "user_entries es = map (\<lambda>e. (user_key (fst e), snd e)) es"
  by (simp add: user_entries_def split_beta)

lemma zend_hash_sort_array:
  assumes inv: "array_inv ht" and es: "hash_entries ht = Some es"
    and cmp: "comparator_on (set es) compar"
  shows "\<exists>ht' sorted. zend_hash_sort ht (\<lambda>c. zend_qsort c 8) (on_user_keys compar) renumber = Some (SUCCESS, ht')
    \<and> array_inv ht' \<and> mset sorted = mset es \<and> sorted_wrt (\<lambda>e e'. compar e e' \<le> 0) sorted
    \<and> hash_entries ht' = Some (if renumber then om_renumber 0 sorted else sorted)
    \<and> (renumber \<and> es \<noteq> [] \<longrightarrow> nNextFreeElement ht' = of_nat (length es)) \<and> destroyed ht' = destroyed ht"
proof -
  obtain gs cs where rep: "ht_rep ht gs cs" and ok: "keys_ok (ht_entries ht gs)" "pDestructor ht"
    and e: "es = user_entries (ht_entries ht gs)"
    using array_inv_entries [OF inv] es by auto
  let ?f = "\<lambda>p. (user_key (fst (bucket_entry (heap ht) p)), snd (bucket_entry (heap ht) p))"
  let ?c = "\<lambda>p q. on_user_keys compar (bucket_entry (heap ht) p) (bucket_entry (heap ht) q)"
  have es': "es = map ?f gs" by (simp add: e user_entries_map ht_entries_def comp_def)
  have n: "unat (nNumOfElements ht) = length gs" using rep by (simp add: ht_rep_def)
  show ?thesis
  proof (cases "1 < length gs \<or> renumber \<and> gs \<noteq> []")
    case False
    then have small: "length gs \<le> 1" "renumber \<longrightarrow> gs = []" by auto
    have "zend_hash_sort ht (\<lambda>c. zend_qsort c 8) (on_user_keys compar) renumber = Some (SUCCESS, ht)"
      using False n by (auto simp: zend_hash_sort_def word_less_nat_alt)
    moreover have "sorted_wrt (\<lambda>e e'. compar e e' \<le> 0) es"
      using small(1) by (cases gs) (auto simp: es')
    ultimately show ?thesis using inv es small(2) es' by (intro exI [of _ ht] exI [of _ es]) auto
  next
    case True
    have "comparator_on (set gs) ?c"
      using comparator_on_image [of ?f "set gs" compar] cmp by (simp add: es' on_user_keys_def)
    moreover have "length gs \<le> 2 ^ 64"
      using n unsigned_less [where 'a = nat, of "nNumOfElements ht"] by simp
    ultimately obtain gs' where gs': "zend_qsort ?c 8 gs = Some gs'" "mset gs' = mset gs"
      "sorted_wrt (\<lambda>p q. ?c p q \<le> 0) gs'"
      using zend_qsort_ok [of gs ?c 8] by blast
    obtain ht' cs' where ht': "zend_hash_sort ht (\<lambda>c. zend_qsort c 8) (on_user_keys compar) renumber = Some (SUCCESS, ht')"
      "ht_rep ht' gs' cs'"
      "ht_entries ht' gs' = (if renumber then renumber_entries False 0 (ht_entries ht gs') else ht_entries ht gs')"
      "renumber \<longrightarrow> nNextFreeElement ht' = of_nat (length gs)" "pDestructor ht'" "destroyed ht' = destroyed ht"
      using zend_hash_sort_rep [where sort_func = "\<lambda>c. zend_qsort c 8", OF rep gs'(1,2) True] ok(2) by auto
    have m: "mset (ht_entries ht gs') = mset (ht_entries ht gs)" using gs'(2) by (simp add: ht_entries_def)
    then have "fst ` set (ht_entries ht gs') \<subseteq> fst ` set (ht_entries ht gs)" by (metis order_refl set_mset_mset)
    from keys_ok_subset [OF ok(1) this] have "keys_ok (ht_entries ht' gs')"
      unfolding ht'(3) by (simp add: renumber_user(2))
    from array_invI [OF ht'(5,2) this] have "array_inv ht'"
      "hash_entries ht' = Some (if renumber then om_renumber 0 (user_entries (ht_entries ht gs')) else user_entries (ht_entries ht gs'))"
      unfolding ht'(3) by (auto simp: renumber_user(1))
    moreover have "mset (user_entries (ht_entries ht gs')) = mset es"
      using m by (simp add: e user_entries_map)
    moreover have "sorted_wrt (\<lambda>e e'. compar e e' \<le> 0) (user_entries (ht_entries ht gs'))"
      using gs'(3) by (simp add: user_entries_map ht_entries_def sorted_wrt_map on_user_keys_def)
    ultimately show ?thesis using ht'(1,4,6) es' by (intro exI [of _ ht'] exI [of _ "user_entries (ht_entries ht gs')"]) simp
  qed
qed

section \<open>Comparing tables\<close>

text \<open>
  The keys \<open>zend_hash_compare\<close> takes for equal when it compares in order: the difference of two
  indices is converted to an int.
\<close>

fun same_key32 :: "hash_key \<Rightarrow> hash_key \<Rightarrow> bool" where
  "same_key32 (HKStr s) (HKStr t) = (s = t)"
| "same_key32 (HKIdx i) (HKIdx j) = ((ucast i :: uint) = ucast j)"
| "same_key32 _ _ = False"

definition key_length_ok :: "hash_key \<Rightarrow> bool" where
  "key_length_ok k = (case k of HKStr s \<Rightarrow> length s < 2 ^ 32 | HKIdx _ \<Rightarrow> True)"

lemma ulong_diff_zero: "ulong_diff a b = 0 \<longleftrightarrow> (ucast a :: uint) = ucast b"
proof -
  have "(ucast (a - b) :: uint) = ucast a - ucast b"
    by transfer (subst (1) take_bit_diff [symmetric], simp)
  then show ?thesis unfolding ulong_diff_def by (metis right_minus_eq signed_eq_0_iff)
qed

lemma uint_diff_zero: "uint_diff a b = 0 \<longleftrightarrow> a = b"
  unfolding uint_diff_def by (metis right_minus_eq signed_eq_0_iff)

lemma memcmp_zero: "length s = length t \<Longrightarrow> memcmp s t = 0 \<longleftrightarrow> s = t"
  by (induction s t rule: list_induct2) auto

lemma key_difference_zero:
  assumes "key_length_ok (user_key (b_h b1, b_arKey b1))" "key_length_ok (user_key (b_h b2, b_arKey b2))"
  shows "key_difference b1 b2 = 0 \<longleftrightarrow>
    same_key32 (user_key (b_h b1, b_arKey b1)) (user_key (b_h b2, b_arKey b2))"
proof (cases "b_arKey b1 = [] \<and> b_arKey b2 = []")
  case True
  then show ?thesis by (simp add: key_difference_def ulong_diff_zero user_key_def)
next
  case False
  have l: "length (b_arKey b1) < 2 ^ 32" "length (b_arKey b2) < 2 ^ 32"
    using assms by (auto simp: key_length_ok_def user_key_def split: if_splits)
  have "(of_nat (length (b_arKey b1)) :: uint) = of_nat (length (b_arKey b2)) \<longleftrightarrow> length (b_arKey b1) = length (b_arKey b2)"
    using l by (simp add: word_of_nat_eq_iff take_bit_nat_eq_self)
  with False memcmp_zero [of "b_arKey b1" "b_arKey b2"] show ?thesis
    by (auto simp: key_difference_def uint_diff_zero user_key_def Let_def)
qed

lemma compare_loop_ordered:
  assumes "ht_rep ht1 (zs1 @ ys1) cs1" and "ht_rep ht2 (zs2 @ ys2) cs2" and "length ys1 = length ys2"
    and "\<forall>e \<in> set (user_entries (ht_entries ht1 ys1)) \<union> set (user_entries (ht_entries ht2 ys2)). key_length_ok (fst e)"
  shows "\<exists>r. compare_loop c True ht1 ht2 (head_opt ys1) (head_opt ys2) = Some r
    \<and> (r = 0 \<longleftrightarrow> list_all2 (\<lambda>e e'. same_key32 (fst e) (fst e') \<and> c (snd e) (snd e') = 0)
         (user_entries (ht_entries ht1 ys1)) (user_entries (ht_entries ht2 ys2)))"
  using assms
proof (induction ys1 arbitrary: zs1 zs2 ys2)
  case Nil
  then show ?case by (simp add: compare_loop.simps user_entries_def)
next
  case (Cons a ys1)
  then obtain a' ys2' where ys2: "ys2 = a' # ys2'" by (cases ys2) auto
  obtain b where b: "heap ht1 a = Some b" using ht_rep_dom [OF Cons.prems(1), of a] by auto
  obtain b' where b': "heap ht2 a' = Some b'" using ht_rep_dom [OF Cons.prems(2), of a'] ys2 by auto
  have nxt: "b_pListNext b = head_opt ys1" "b_pListNext b' = head_opt ys2'"
    using ht_rep_next [OF Cons.prems(1) b] ht_rep_next [OF _ b', of zs2 ys2' cs2] Cons.prems(2) ys2 by auto
  have ents: "user_entries (ht_entries ht1 (a # ys1))
      = (user_key (b_h b, b_arKey b), b_pData b) # user_entries (ht_entries ht1 ys1)"
    "user_entries (ht_entries ht2 ys2)
      = (user_key (b_h b', b_arKey b'), b_pData b') # user_entries (ht_entries ht2 ys2')"
    using b b' ys2 by (simp_all add: user_entries_map ht_entries_def bucket_entry_def bucket_key_def)
  have kd: "key_difference b b' = 0 \<longleftrightarrow> same_key32 (user_key (b_h b, b_arKey b)) (user_key (b_h b', b_arKey b'))"
    using Cons.prems(4) unfolding ents by (intro key_difference_zero) auto
  have side: "\<forall>e \<in> set (user_entries (ht_entries ht1 ys1)) \<union> set (user_entries (ht_entries ht2 ys2')). key_length_ok (fst e)"
    using Cons.prems(4) unfolding ents by auto
  obtain r where r: "compare_loop c True ht1 ht2 (head_opt ys1) (head_opt ys2') = Some r"
    "r = 0 \<longleftrightarrow> list_all2 (\<lambda>e e'. same_key32 (fst e) (fst e') \<and> c (snd e) (snd e') = 0)
         (user_entries (ht_entries ht1 ys1)) (user_entries (ht_entries ht2 ys2'))"
    using Cons.IH [of "zs1 @ [a]" "zs2 @ [a']" ys2'] Cons.prems(1-3) side ys2 by auto
  have "compare_loop c True ht1 ht2 (head_opt (a # ys1)) (head_opt ys2) =
      Some (if key_difference b b' \<noteq> 0 then key_difference b b'
            else if c (b_pData b) (b_pData b') \<noteq> 0 then c (b_pData b) (b_pData b') else r)"
    using b b' nxt r(1) by (simp add: compare_loop.simps [of _ _ _ _ "Some a"] ys2)
  then show ?case unfolding ents using r(2) kd by auto
qed

lemma compare_loop_unordered:
  assumes "ht_rep ht1 (zs1 @ ys1) cs1" and "ht_rep ht2 gs2 cs2"
  shows "\<exists>r. compare_loop c False ht1 ht2 (head_opt ys1) p2 = Some r
    \<and> (r = 0 \<longleftrightarrow> (\<forall>e \<in> set (ht_entries ht1 ys1). \<exists>w. map_of (ht_entries ht2 gs2) (fst e) = Some w \<and> c (snd e) w = 0))"
  using assms(1)
proof (induction ys1 arbitrary: zs1)
  case Nil
  then show ?case by (simp add: compare_loop.simps)
next
  case (Cons a ys1)
  obtain b where b: "heap ht1 a = Some b" using ht_rep_dom [OF Cons.prems(1), of a] by auto
  note nxt = ht_rep_next [OF Cons.prems(1) b]
  have ent: "ht_entries ht1 (a # ys1) = ((b_h b, b_arKey b), b_pData b) # ht_entries ht1 ys1"
    using b by (simp add: ht_entries_Cons bucket_entry_def bucket_key_def)
  obtain r where r: "compare_loop c False ht1 ht2 (head_opt ys1) p2 = Some r"
    "r = 0 \<longleftrightarrow> (\<forall>e \<in> set (ht_entries ht1 ys1). \<exists>w. map_of (ht_entries ht2 gs2) (fst e) = Some w \<and> c (snd e) w = 0)"
    using Cons.IH [of "zs1 @ [a]"] Cons.prems by auto
  have "compare_loop c False ht1 ht2 (head_opt (a # ys1)) p2 =
      Some (case map_of (ht_entries ht2 gs2) (b_h b, b_arKey b) of None \<Rightarrow> 1
            | Some w \<Rightarrow> if c (b_pData b) w \<noteq> 0 then c (b_pData b) w else r)"
    using b nxt r(1) quick_find_ok [OF assms(2)]
    by (simp add: compare_loop.simps [of _ _ _ _ "Some a"] split: option.splits)
  then show ?case unfolding ent using r(2) by (auto split: option.splits)
qed

lemma zend_hash_compare_array:
  assumes inv: "array_inv ht1" "array_inv ht2" and es: "hash_entries ht1 = Some es1" "hash_entries ht2 = Some es2"
    and len: "\<forall>e \<in> set es1 \<union> set es2. key_length_ok (fst e)"
    and prot: "\<not> (fst prot1 \<and> 3 \<le> snd prot1)" "\<not> (fst prot2 \<and> 3 \<le> snd prot2)"
  shows "\<exists>r. zend_hash_compare prot1 prot2 ht1 ht2 compar ordered = Some (Finished r)
    \<and> (r = 0 \<longleftrightarrow> length es1 = length es2 \<and>
         (if ordered then list_all2 (\<lambda>e e'. same_key32 (fst e) (fst e') \<and> compar (snd e) (snd e') = 0) es1 es2
          else \<forall>e \<in> set es1. \<exists>w. map_of es2 (fst e) = Some w \<and> compar (snd e) w = 0))"
proof -
  obtain gs1 cs1 where h1: "ht_rep ht1 gs1 cs1" "keys_ok (ht_entries ht1 gs1)"
    and e1: "es1 = user_entries (ht_entries ht1 gs1)" using array_inv_entries [OF inv(1)] es(1) by auto
  obtain gs2 cs2 where h2: "ht_rep ht2 gs2 cs2" "keys_ok (ht_entries ht2 gs2)"
    and e2: "es2 = user_entries (ht_entries ht2 gs2)" using array_inv_entries [OF inv(2)] es(2) by auto
  have l: "length es1 = length gs1" "length es2 = length gs2"
    by (simp_all add: e1 e2 user_entries_def ht_entries_def)
  have cnt: "uint_diff (nNumOfElements ht1) (nNumOfElements ht2) = 0 \<longleftrightarrow> length gs1 = length gs2"
    using h1(1) h2(1) by (simp add: uint_diff_zero ht_rep_def word_unat_eq_iff)
  define body where "body = compare_loop compar ordered ht1 ht2 (pListHead ht1) (if ordered then pListHead ht2 else None)"
  have run: "zend_hash_compare prot1 prot2 ht1 ht2 compar ordered =
      map_option Finished (if length gs1 \<noteq> length gs2 then Some (uint_diff (nNumOfElements ht1) (nNumOfElements ht2)) else body)"
    using prot cnt by (auto simp: zend_hash_compare_def protected_run_cases hash_protect_recursion_def body_def)
  have unord: "(\<forall>e \<in> set (ht_entries ht1 gs1). \<exists>w. map_of (ht_entries ht2 gs2) (fst e) = Some w \<and> compar (snd e) w = 0)
      \<longleftrightarrow> (\<forall>e \<in> set es1. \<exists>w. map_of es2 (fst e) = Some w \<and> compar (snd e) w = 0)"
  proof -
    have "map_of es2 (user_key (fst e)) = map_of (ht_entries ht2 gs2) (fst e)" if "e \<in> set (ht_entries ht1 gs1)" for e
      using user_entries_ops(1) [OF h2(2) hash_key_ok_user_key, of "fst e"] h1(2) that by (simp add: e2 keys_ok_def)
    then show ?thesis unfolding e1 user_entries_map by auto
  qed
  have "\<exists>r. body = Some r \<and> (r = 0 \<longleftrightarrow>
      (if ordered then list_all2 (\<lambda>e e'. same_key32 (fst e) (fst e') \<and> compar (snd e) (snd e') = 0) es1 es2
       else \<forall>e \<in> set es1. \<exists>w. map_of es2 (fst e) = Some w \<and> compar (snd e) w = 0))" if "length gs1 = length gs2"
  proof (cases ordered)
    case True
    with compare_loop_ordered [of ht1 "[]" gs1 cs1 ht2 "[]" gs2 cs2 compar] h1 h2 that len
      ht_rep_ends [OF h1(1)] ht_rep_ends [OF h2(1)]
    show ?thesis by (simp add: body_def e1 e2)
  next
    case False
    with compare_loop_unordered [of ht1 "[]" gs1 cs1 ht2 gs2 cs2 compar None] h1 h2 ht_rep_ends [OF h1(1)] unord
    show ?thesis by (simp add: body_def)
  qed
  then show ?thesis unfolding run using cnt l by auto
qed

section \<open>Properties\<close>



text \<open>
  (C38) Comparing arrays: \<open>zend_hash_compare\<close> returns for two arrays that are not nested too deep, and its
  result is 0 exactly when they have the same number of entries and, unordered, every key of the first
  is in the second with an equal value; ordered, the entries agree pairwise in key and value, where two
  numeric keys count as the same when their lower 32 bits agree, since their difference is
  converted to an int.
\<close>

theorem hash_compare_zero:
  assumes "array_inv ht1" "array_inv ht2" and "hash_entries ht1 = Some es1" "hash_entries ht2 = Some es2"
    and "\<forall>e \<in> set es1 \<union> set es2. key_length_ok (fst e)"
    and "\<not> (fst prot1 \<and> 3 \<le> snd prot1)" "\<not> (fst prot2 \<and> 3 \<le> snd prot2)"
  shows "\<exists>r. zend_hash_compare prot1 prot2 ht1 ht2 compar ordered = Some (Finished r)
    \<and> (r = 0 \<longleftrightarrow> length es1 = length es2 \<and>
         (if ordered then list_all2 (\<lambda>e e'. same_key32 (fst e) (fst e') \<and> compar (snd e) (snd e') = 0) es1 es2
          else \<forall>e \<in> set es1. \<exists>w. map_of es2 (fst e) = Some w \<and> compar (snd e) w = 0))"
  by (rule zend_hash_compare_array [OF assms])

theorem hash_compare_zero_witness:
  "\<exists>a b. run_ops hash_put hash_unset [Put (HKIdx 0) (7::int)] (zend_hash_init 8 True) = Some a
    \<and> run_ops hash_put hash_unset [Put (HKIdx 4294967296) 7] (zend_hash_init 8 True) = Some b
    \<and> zend_hash_compare (True, 0) (True, 0) a b (\<lambda>x y. x - y) True = Some (Finished 0)
    \<and> zend_hash_compare (True, 0) (True, 0) a b (\<lambda>x y. x - y) False \<noteq> Some (Finished 0)"
proof -
  let ?c = "\<lambda>x y :: int. x - y"
  obtain a where a: "run_ops hash_put hash_unset [Put (HKIdx 0) (7::int)] (zend_hash_init 8 True) = Some a"
    "array_inv a" "hash_entries a = Some [(HKIdx 0, 7)]"
    using php_array.run_refines [OF array_inv_init(1,2) [of 8], of "[Put (HKIdx 0) (7::int)]"]
    by (auto simp: hash_key_ok_def om_update_def)
  obtain b where b: "run_ops hash_put hash_unset [Put (HKIdx 4294967296) (7::int)] (zend_hash_init 8 True) = Some b"
    "array_inv b" "hash_entries b = Some [(HKIdx 4294967296, 7)]"
    using php_array.run_refines [OF array_inv_init(1,2) [of 8], of "[Put (HKIdx 4294967296) (7::int)]"]
    by (auto simp: hash_key_ok_def om_update_def)
  note cmp = hash_compare_zero [OF a(2) b(2) a(3) b(3), of "(True, 0)" "(True, 0)" ?c]
  have "zend_hash_compare (True, 0) (True, 0) a b ?c True = Some (Finished 0)"
    using cmp [of True] by (auto simp: key_length_ok_def)
  moreover have "zend_hash_compare (True, 0) (True, 0) a b ?c False \<noteq> Some (Finished 0)"
    using cmp [of False] by (auto simp: key_length_ok_def)
  ultimately show ?thesis using a(1) b(1) by blast
qed

end
