(* ===== verification/Zend_Rsrc.thy ===== *)
theory Zend_Rsrc
  imports Zend_List Zend_Hash_Ops
begin

text \<open>
  The life of resources (the rest of Zend/zend\_list.c): the table of destructors by resource type, fetching
  a resource with a check of its type, and the end of a request, which closes what is still open. Function
  pointers are numbers, the null pointer is 0; a destructor that runs is an event.
\<close>

section \<open>Types and destructors\<close>

datatype rsrc_list_type = ZEND_RESOURCE_LIST_TYPE_STD | ZEND_RESOURCE_LIST_TYPE_EX

record zend_rsrc_list_dtors_entry =
  list_dtor :: nat
  plist_dtor :: nat
  list_dtor_ex :: nat
  plist_dtor_ex :: nat
  type_name :: "string option"
  module_number :: int
  resource_id :: int
  ld_type :: rsrc_list_type

type_synonym dtors_list = "zend_rsrc_list_dtors_entry HashTable"

definition zend_init_rsrc_list_dtors :: dtors_list where
  "zend_init_rsrc_list_dtors = (zend_hash_init 50 False)\<lparr>nNextFreeElement := 1\<rparr>"

text \<open>\<open>list_destructors.nNextFreeElement-1\<close> as an \<open>int\<close>; \<open>FAILURE\<close> is \<open>-1\<close>.\<close>

definition register_dtors_entry :: "zend_rsrc_list_dtors_entry \<Rightarrow> dtors_list \<Rightarrow> (int \<times> dtors_list) option" where
  "register_dtors_entry lde ht = do {
     (r, ht) \<leftarrow> zend_hash_index_update_or_next_insert ht 0 lde HASH_NEXT_INSERT;
     Some (if r = FAILURE then -1 else index_id (nNextFreeElement ht - 1), ht) }"

definition zend_register_list_destructors :: "nat \<Rightarrow> nat \<Rightarrow> int \<Rightarrow> dtors_list \<Rightarrow> (int \<times> dtors_list) option" where
  "zend_register_list_destructors ld pld module ht = register_dtors_entry
     \<lparr>list_dtor = ld, plist_dtor = pld, list_dtor_ex = 0, plist_dtor_ex = 0, type_name = None, module_number = module,
      resource_id = index_id (nNextFreeElement ht), ld_type = ZEND_RESOURCE_LIST_TYPE_STD\<rparr> ht"

definition zend_register_list_destructors_ex ::
  "nat \<Rightarrow> nat \<Rightarrow> string option \<Rightarrow> int \<Rightarrow> dtors_list \<Rightarrow> (int \<times> dtors_list) option" where
  "zend_register_list_destructors_ex ld pld name module ht = register_dtors_entry
     \<lparr>list_dtor = 0, plist_dtor = 0, list_dtor_ex = ld, plist_dtor_ex = pld, type_name = name, module_number = module,
      resource_id = index_id (nNextFreeElement ht), ld_type = ZEND_RESOURCE_LIST_TYPE_EX\<rparr> ht"

partial_function (option) dtor_id_loop :: "string \<Rightarrow> dtors_list \<Rightarrow> HashPosition \<Rightarrow> int option" where
  "dtor_id_loop name ht pos =
     (case zend_hash_get_current_data_ex ht pos of
        None \<Rightarrow> None
      | Some None \<Rightarrow> Some 0
      | Some (Some lde) \<Rightarrow>
          if type_name lde = Some name then Some (resource_id lde)
          else (case zend_hash_move_forward_ex ht pos of None \<Rightarrow> None | Some (_, pos) \<Rightarrow> dtor_id_loop name ht pos))"

declare dtor_id_loop.simps [code]

definition zend_fetch_list_dtor_id :: "string \<Rightarrow> dtors_list \<Rightarrow> int option" where
  "zend_fetch_list_dtor_id name ht = dtor_id_loop name ht (zend_hash_internal_pointer_reset_ex ht)"

definition zend_destroy_rsrc_list_dtors :: "dtors_list \<Rightarrow> dtors_list option" where
  "zend_destroy_rsrc_list_dtors ht = zend_hash_destroy ht"

text \<open>What the destructor of a list entry does.\<close>

datatype dtor_event = Call_dtor nat nat | Call_dtor_ex nat zend_rsrc_list_entry | Warning string

definition list_entry_destructor :: "dtors_list \<Rightarrow> zend_rsrc_list_entry \<Rightarrow> dtor_event list option" where
  "list_entry_destructor dtors le = do {
     ld \<leftarrow> zend_hash_index_find dtors (id_index (le_type le));
     Some (case ld of
       Some ld \<Rightarrow>
         (case ld_type ld of
            ZEND_RESOURCE_LIST_TYPE_STD \<Rightarrow> if list_dtor ld \<noteq> 0 then [Call_dtor (list_dtor ld) (le_ptr le)] else []
          | ZEND_RESOURCE_LIST_TYPE_EX \<Rightarrow> if list_dtor_ex ld \<noteq> 0 then [Call_dtor_ex (list_dtor_ex ld) le] else [])
     | None \<Rightarrow> [Warning (vsprintf ''Unknown list entry type in request shutdown (%d)'' [FInt (le_type le)])]) }"

definition plist_entry_destructor :: "dtors_list \<Rightarrow> zend_rsrc_list_entry \<Rightarrow> dtor_event list option" where
  "plist_entry_destructor dtors le = do {
     ld \<leftarrow> zend_hash_index_find dtors (id_index (le_type le));
     Some (case ld of
       Some ld \<Rightarrow>
         (case ld_type ld of
            ZEND_RESOURCE_LIST_TYPE_STD \<Rightarrow> if plist_dtor ld \<noteq> 0 then [Call_dtor (plist_dtor ld) (le_ptr le)] else []
          | ZEND_RESOURCE_LIST_TYPE_EX \<Rightarrow> if plist_dtor_ex ld \<noteq> 0 then [Call_dtor_ex (plist_dtor_ex ld) le] else [])
     | None \<Rightarrow> [Warning (vsprintf ''Unknown persistent list entry type in module shutdown (%d)'' [FInt (le_type le)])]) }"

section \<open>The lists\<close>

definition zend_init_rsrc_list :: rsrc_list where
  "zend_init_rsrc_list = (zend_hash_init 0 True)\<lparr>nNextFreeElement := 1\<rparr>"

definition zend_init_rsrc_plist :: rsrc_list where
  "zend_init_rsrc_plist = zend_hash_init 0 True"

definition zend_destroy_rsrc_list :: "rsrc_list \<Rightarrow> rsrc_list option" where
  "zend_destroy_rsrc_list ht = zend_hash_graceful_reverse_destroy ht"

definition zend_rsrc_list_get_rsrc_type :: "dtors_list \<Rightarrow> int \<Rightarrow> rsrc_list \<Rightarrow> string option option" where
  "zend_rsrc_list_get_rsrc_type dtors resource ht = do {
     (p, rsrc_type) \<leftarrow> zend_list_find resource ht;
     if p = None \<or> p = Some 0 then Some None
     else do {
       lde \<leftarrow> zend_hash_index_find dtors (id_index rsrc_type);
       Some (case lde of None \<Rightarrow> None | Some lde \<Rightarrow> type_name lde) } }"

text \<open>
  \<open>passed_id\<close> is a null pointer, a value that is no resource, or one with its \<open>long\<close> number. \<open>who\<close> is the text
  ``class::function'' of the running function. The result is the resource with the type found, and the warnings.
\<close>

definition zend_fetch_resource ::
  "string \<Rightarrow> int option option \<Rightarrow> int \<Rightarrow> string option \<Rightarrow> int list \<Rightarrow> rsrc_list \<Rightarrow> ((nat \<times> int) option \<times> string list) option" where
  "zend_fetch_resource who passed_id default_id resource_type_name resource_types ht =
     (let fail = (\<lambda>fmt args. Some (None, case resource_type_name of None \<Rightarrow> [] | Some n \<Rightarrow> [vsprintf fmt (FStr who # args @ [FStr n])]));
          find = (\<lambda>rid. do {
            (p, actual_resource_type) \<leftarrow> zend_list_find rid ht;
            case p of
              None \<Rightarrow> fail ''%s(): %d is not a valid %s resource'' [FInt rid]
            | Some resource \<Rightarrow>
                if resource = 0 then fail ''%s(): %d is not a valid %s resource'' [FInt rid]
                else if actual_resource_type \<in> set resource_types then Some (Some (resource, actual_resource_type), [])
                else fail ''%s(): supplied resource is not a valid %s resource'' [] })
      in if default_id = -1 then
           (case passed_id of
              None \<Rightarrow> fail ''%s(): no %s resource supplied'' []
            | Some None \<Rightarrow> fail ''%s(): supplied argument is not a valid %s resource'' []
            | Some (Some lval) \<Rightarrow> find (to_int32 lval))
         else find default_id)"

section \<open>The end of a module\<close>

definition clean_module_resource :: "zend_rsrc_list_entry \<Rightarrow> int \<Rightarrow> unit \<Rightarrow> uint \<times> zend_rsrc_list_entry \<times> unit" where
  "clean_module_resource le rid u = (if le_type le = rid then 1 else 0, le, u)"

text \<open>The state of the callback is the persistent list; \<open>None\<close> is undefined behaviour or the fatal error of the nested call.\<close>

definition zend_clean_module_rsrc_dtors_cb ::
  "protection \<Rightarrow> zend_rsrc_list_dtors_entry \<Rightarrow> int \<Rightarrow> rsrc_list option \<Rightarrow> uint \<times> zend_rsrc_list_dtors_entry \<times> rsrc_list option" where
  "zend_clean_module_rsrc_dtors_cb prot ld module plist =
     (if module_number ld = module then
        (1, ld,
         (case plist of
            None \<Rightarrow> None
          | Some pl \<Rightarrow>
              (case zend_hash_apply_with_argument prot clean_module_resource (resource_id ld) () pl of
                 Some (Finished (_, pl)) \<Rightarrow> Some pl
               | _ \<Rightarrow> None)))
      else (0, ld, plist))"

definition zend_clean_module_rsrc_dtors ::
  "protection \<Rightarrow> protection \<Rightarrow> int \<Rightarrow> rsrc_list \<Rightarrow> dtors_list \<Rightarrow> (rsrc_list option \<times> dtors_list) protected option" where
  "zend_clean_module_rsrc_dtors prot pprot module plist dtors =
     zend_hash_apply_with_argument prot (zend_clean_module_rsrc_dtors_cb pprot) module (Some plist) dtors"

section \<open>Closing at the end of a request\<close>

lemma graceful_reverse_loop_ok:
  assumes "ht_rep ht gs cs"
  shows "\<exists>ht' cs'. graceful_reverse_loop ht = Some ht' \<and> ht_rep ht' [] cs' \<and> pDestructor ht' = pDestructor ht
    \<and> destroyed ht' = destroyed ht @ (if pDestructor ht then rev (map snd (ht_entries ht gs)) else [])"
  using assms
proof (induction gs arbitrary: ht cs rule: rev_induct)
  case Nil
  then have "pListTail ht = None" using ht_rep_ends by fastforce
  with Nil show ?case by (auto simp: graceful_reverse_loop.simps ht_entries_def)
next
  case (snoc a gs)
  obtain b cs' where d: "heap ht a = Some b"
    "zend_hash_bucket_delete ht a = Some (bucket_deleted a b ht)"
    "ht_rep (bucket_deleted a b ht) gs cs'"
    "ht_entries (bucket_deleted a b ht) gs = ht_entries ht gs"
    using bucket_delete_ok [of ht gs a "[]" cs] snoc.prems by (auto simp: ht_entries_def)
  have "pListTail ht = Some a" using ht_rep_ends [OF snoc.prems] by simp
  with snoc.IH [OF d(3)] d show ?case
    by (auto simp: graceful_reverse_loop.simps [of ht] bucket_deleted_def ht_entries_def bucket_entry_def)
qed

lemma destroy_rsrc_list_ok:
  assumes "array_inv ht" "hash_entries ht = Some es"
  shows "\<exists>ht'. zend_destroy_rsrc_list ht = Some ht' \<and> heap ht' = Map.empty \<and> destroyed ht' = destroyed ht @ rev (map snd es)"
proof -
  obtain gs cs where rep: "ht_rep ht gs cs" "es = user_entries (ht_entries ht gs)" "pDestructor ht"
    using array_inv_entries [OF assms(1)] assms(2) by auto
  have "map snd es = map snd (ht_entries ht gs)" using rep(2) by (simp add: user_entries_def comp_def split_beta)
  with graceful_reverse_loop_ok [OF rep(1)] rep(3) show ?thesis
    by (auto simp: zend_destroy_rsrc_list_def zend_hash_graceful_reverse_destroy_def ht_rep_def global_ok_def fun_eq_iff simp del: not_None_eq)
qed

section \<open>Sequences of operations\<close>

datatype rsrc_op = Register nat int | Addref int | Release int

fun rsrc_step :: "rsrc_op \<Rightarrow> rsrc_list \<Rightarrow> rsrc_list option" where
  "rsrc_step (Register p t) ht = map_option snd (zend_register_resource p t ht)"
| "rsrc_step (Addref i) ht = map_option snd (zend_list_addref i ht)"
| "rsrc_step (Release i) ht = map_option snd (zend_list_delete i ht)"

fun run_rsrc :: "rsrc_op list \<Rightarrow> rsrc_list \<Rightarrow> rsrc_list option" where
  "run_rsrc [] ht = Some ht"
| "run_rsrc (p # ops) ht = rsrc_step p ht \<bind> run_rsrc ops"

fun registered :: "rsrc_op list \<Rightarrow> (nat \<times> int) list" where
  "registered [] = []"
| "registered (Register p t # ops) = (p, t) # registered ops"
| "registered (_ # ops) = registered ops"

definition rsrc_view :: "zend_rsrc_list_entry \<Rightarrow> nat \<times> int" where
  "rsrc_view le = (le_ptr le, le_type le)"

lemma rsrc_view_count [simp]: "rsrc_view (le\<lparr>le_refcount := n\<rparr>) = rsrc_view le"
  by (simp add: rsrc_view_def)

text \<open>
  After \<open>n\<close> operations: every entry has a positive count, and the resources closed so far and those in the list
  are the registered ones.
\<close>

definition rsrc_inv :: "nat \<Rightarrow> (nat \<times> int) multiset \<Rightarrow> rsrc_list \<Rightarrow> bool" where
  "rsrc_inv n reg ht \<longleftrightarrow> array_inv ht \<and> (\<exists>es. hash_entries ht = Some es \<and> length es \<le> n
     \<and> (\<forall>le \<in> snd ` set es. 0 < le_refcount le \<and> le_refcount le \<le> 1 + int n)
     \<and> image_mset rsrc_view (mset (destroyed ht)) + image_mset rsrc_view (image_mset snd (mset es)) = reg)"

lemma rsrc_invE:
  assumes "rsrc_inv n reg ht"
  obtains es where "array_inv ht" "hash_entries ht = Some es" "length es \<le> n"
    "\<forall>k le. (k, le) \<in> set es \<longrightarrow> 0 < le_refcount le \<and> le_refcount le \<le> 1 + int n"
    "image_mset rsrc_view (mset (destroyed ht)) + image_mset rsrc_view (image_mset snd (mset es)) = reg"
  using assms by (force simp: rsrc_inv_def)

lemma rsrc_invI:
  assumes "array_inv ht" "hash_entries ht = Some es" "length es \<le> n"
    "\<And>k le. (k, le) \<in> set es \<Longrightarrow> 0 < le_refcount le \<and> le_refcount le \<le> 1 + int n"
    "image_mset rsrc_view (mset (destroyed ht)) + image_mset rsrc_view (image_mset snd (mset es)) = reg"
  shows "rsrc_inv n reg ht"
  using assms by (auto simp: rsrc_inv_def)

lemma rsrc_inv_Suc: "rsrc_inv n reg ht \<Longrightarrow> rsrc_inv (Suc n) reg ht"
  by (erule rsrc_invE, rule rsrc_invI) force+

lemma rsrc_inv_init: "rsrc_inv 0 {#} zend_init_rsrc_list"
proof -
  have "ht_rep zend_init_rsrc_list [] (\<lambda>_. [])"
    by (rule ht_rep_cong [OF zend_hash_init_ok [of 0 True]]) (simp_all add: zend_init_rsrc_list_def)
  moreover have "pDestructor zend_init_rsrc_list" "destroyed zend_init_rsrc_list = []"
    by (simp_all add: zend_init_rsrc_list_def zend_hash_init_def)
  ultimately show ?thesis
    using array_invI [of zend_init_rsrc_list "[]"] by (intro rsrc_invI [of _ "[]"]) (auto simp: keys_ok_def ht_entries_def user_entries_def)
qed

lemma om_update_members: "(k', v') \<in> set (om_update k v es) \<Longrightarrow> v' = v \<or> (k', v') \<in> set es"
  by (auto simp: om_update_def om_replace_def split: if_splits)

lemma om_replace_view:
  assumes "distinct (map fst es)" "map_of es k = Some le"
  shows "map (rsrc_view \<circ> snd) (om_replace k (le\<lparr>le_refcount := n\<rparr>) es) = map (rsrc_view \<circ> snd) es"
proof -
  have "snd e = le" if "e \<in> set es" "fst e = k" for e
    using that assms map_of_is_SomeI [OF assms(1), of k "snd e"] by (cases e) auto
  then show ?thesis by (auto simp: om_replace_def)
qed

lemma view_mset: "image_mset rsrc_view (image_mset snd (mset es)) = mset (map (rsrc_view \<circ> snd) es)"
  by (simp add: multiset.map_comp)

lemma lookup_missing:
  assumes "array_inv ht" "hash_entries ht = Some es" "map_of es (HKIdx (id_index rid)) = None"
  shows "hash_lookup ht (id_index rid) [] = Some None"
proof -
  obtain gs cs where rep: "ht_rep ht gs cs" and ok: "keys_ok (ht_entries ht gs)" and e: "es = user_entries (ht_entries ht gs)"
    using array_inv_entries [OF assms(1)] assms(2) by auto
  have "hash_key_ok (HKIdx (id_index rid))" by (simp add: hash_key_ok_def)
  then have m: "map_of (ht_entries ht gs) (id_index rid, []) = None"
    using assms(3) user_entries_ops(1) [OF ok, of "HKIdx (id_index rid)"] by (simp add: e)
  from rep show ?thesis
  proof (cases rule: hash_lookup_spec [where h = "id_index rid" and k = "[]"])
    case (found a)
    then have "map_of (ht_entries ht gs) (id_index rid, []) \<noteq> None" using map_of_ht_entries [OF rep found(2,3)] by simp
    with m show ?thesis by simp
  qed simp
qed

lemma register_step:
  assumes "rsrc_inv n reg ht" "n < 4294967295"
  shows "\<exists>ht'. rsrc_step (Register p t) ht = Some ht' \<and> rsrc_inv (Suc n) (add_mset (p, t) reg) ht'"
proof -
  obtain es where es: "array_inv ht" "hash_entries ht = Some es" "length es \<le> n"
    "\<forall>k le. (k, le) \<in> set es \<longrightarrow> 0 < le_refcount le \<and> le_refcount le \<le> 1 + int n"
    "image_mset rsrc_view (mset (destroyed ht)) + image_mset rsrc_view (image_mset snd (mset es)) = reg"
    by (rule rsrc_invE [OF assms(1)])
  note count = es(4) [rule_format]
  let ?v = "\<lparr>le_ptr = p, le_type = t, le_refcount = 1\<rparr>"
  let ?k = "HKIdx (id_index (index_id (zend_hash_next_free_element ht)))"
  obtain ht' where h: "hash_put ?k ?v ht = Some ht'" "array_inv ht'" "hash_entries ht' = Some (om_update ?k ?v es)"
    "destroyed ht' = destroyed ht @ om_dropped ?k es"
    using hash_put_ok [OF es(1) _ es(2), of ?k ?v] es(3) assms(2) by (auto simp: hash_key_ok_def)
  have "rsrc_step (Register p t) ht = hash_put ?k ?v ht"
    by (simp add: zend_register_resource_def zend_list_insert_def hash_put_def Option.map_conv_bind_option Let_def comp_def)
  moreover have "rsrc_inv (Suc n) (add_mset (p, t) reg) ht'"
  proof (rule rsrc_invI [OF h(2,3)])
    show "length (om_update ?k ?v es) \<le> Suc n" using length_om_update [of ?k ?v es] es(3) by simp
    show "0 < le_refcount le \<and> le_refcount le \<le> 1 + int (Suc n)" if "(k, le) \<in> set (om_update ?k ?v es)" for k le
      using om_update_members [OF that] count [of k le] by auto
    have "image_mset rsrc_view (mset (om_dropped ?k es) + image_mset snd (mset (om_update ?k ?v es)))
        = image_mset rsrc_view (add_mset ?v (image_mset snd (mset es)))"
      using mset_om_update [OF php_array.entries_distinct [OF es(1,2)], of ?k ?v] by simp
    then show "image_mset rsrc_view (mset (destroyed ht')) + image_mset rsrc_view (image_mset snd (mset (om_update ?k ?v es)))
        = add_mset (p, t) reg"
      by (simp add: h(4) es(5) [symmetric] rsrc_view_def ac_simps)
  qed
  ultimately show ?thesis using h(1) by auto
qed

lemma count_step:
  assumes "rsrc_inv n reg ht" "n < 2147483646" "q = Addref i \<or> q = Release i"
  shows "\<exists>ht'. rsrc_step q ht = Some ht' \<and> rsrc_inv (Suc n) reg ht'"
proof -
  obtain es where es: "array_inv ht" "hash_entries ht = Some es" "length es \<le> n"
    "\<forall>k le. (k, le) \<in> set es \<longrightarrow> 0 < le_refcount le \<and> le_refcount le \<le> 1 + int n"
    "image_mset rsrc_view (mset (destroyed ht)) + image_mset rsrc_view (image_mset snd (mset es)) = reg"
    by (rule rsrc_invE [OF assms(1)])
  note count = es(4) [rule_format]
  let ?k = "HKIdx (id_index i)"
  note dist = php_array.entries_distinct [OF es(1,2)]
  show ?thesis
  proof (cases "map_of es ?k")
    case None
    then have "rsrc_step q ht = Some ht" using lookup_missing [OF es(1,2)] assms(3)
      by (auto simp: zend_list_addref_def zend_list_delete_def)
    with rsrc_inv_Suc [OF assms(1)] show ?thesis by simp
  next
    case (Some le)
    have le: "0 < le_refcount le" "le_refcount le \<le> 1 + int n" using count map_of_SomeD [OF Some] by blast+
    have replaced: "rsrc_inv (Suc n) reg u"
      if "array_inv u" "hash_entries u = Some (om_replace ?k (le\<lparr>le_refcount := c\<rparr>) es)" "destroyed u = destroyed ht"
        "0 < c" "c \<le> le_refcount le + 1" for u c
    proof (rule rsrc_invI [OF that(1,2)])
      show "0 < le_refcount x \<and> le_refcount x \<le> 1 + int (Suc n)" if "(k, x) \<in> set (om_replace ?k (le\<lparr>le_refcount := c\<rparr>) es)" for k x
        using that count [of k x] le \<open>0 < c\<close> \<open>c \<le> le_refcount le + 1\<close> by (fastforce simp: om_replace_def split: if_splits)
      show "image_mset rsrc_view (mset (destroyed u)) + image_mset rsrc_view (image_mset snd (mset (om_replace ?k (le\<lparr>le_refcount := c\<rparr>) es))) = reg"
        using es(5) that(3) unfolding view_mset om_replace_view [OF dist Some] by simp
    qed (use es(3) in \<open>simp add: om_replace_def\<close>)
    have closed: "rsrc_inv (Suc n) reg u"
      if "array_inv u" "hash_entries u = Some (om_delete ?k es)" "destroyed u = destroyed ht @ [le\<lparr>le_refcount := 0\<rparr>]" for u
    proof (rule rsrc_invI [OF that(1,2)])
      show "length (om_delete ?k es) \<le> Suc n" using length_om_delete [of ?k es] es(3) by simp
      show "0 < le_refcount x \<and> le_refcount x \<le> 1 + int (Suc n)" if "(k, x) \<in> set (om_delete ?k es)" for k x
        using that count [of k x] by (auto simp: om_delete_def)
      have "om_dropped ?k es = [le]"
        using om_dropped_distinct [OF dist, of ?k] Some by (metis domI dom_map_of_conv_image_fst option.sel)
      with mset_om_delete [of es ?k]
      show "image_mset rsrc_view (mset (destroyed u)) + image_mset rsrc_view (image_mset snd (mset (om_delete ?k es))) = reg"
        by (simp add: that(3) es(5) [symmetric])
    qed
    from list_refcount [OF es(1,2) Some le(1)] le assms(2)
    obtain u v where u: "zend_list_addref i ht = Some (SUCCESS, u)" "array_inv u"
        "hash_entries u = Some (om_replace ?k (le\<lparr>le_refcount := le_refcount le + 1\<rparr>) es)" "destroyed u = destroyed ht"
      and v: "zend_list_delete i ht = Some (SUCCESS, v)" "array_inv v"
        "if le_refcount le = 1 then hash_entries v = Some (om_delete ?k es) \<and> destroyed v = destroyed ht @ [le\<lparr>le_refcount := 0\<rparr>]
         else hash_entries v = Some (om_replace ?k (le\<lparr>le_refcount := le_refcount le - 1\<rparr>) es) \<and> destroyed v = destroyed ht"
      by auto
    have "rsrc_inv (Suc n) reg u" using replaced [OF u(2-4)] le by simp
    moreover have "rsrc_inv (Suc n) reg v"
      using v closed [of v] replaced [of v "le_refcount le - 1"] le by (cases "le_refcount le = 1") auto
    ultimately show ?thesis using u(1) v(1) assms(3) by auto
  qed
qed

lemma run_rsrc_inv:
  assumes "rsrc_inv n reg ht" "n + length ops \<le> 2147483646"
  shows "\<exists>ht'. run_rsrc ops ht = Some ht' \<and> rsrc_inv (n + length ops) (reg + mset (registered ops)) ht'"
  using assms
proof (induction ops arbitrary: n reg ht)
  case (Cons q ops)
  have "\<exists>ht'. rsrc_step q ht = Some ht' \<and> rsrc_inv (Suc n) (reg + mset (registered [q])) ht'"
  proof (cases q)
    case (Register p t)
    with register_step [OF Cons.prems(1)] Cons.prems(2) show ?thesis by simp
  next
    case (Addref i)
    with count_step [OF Cons.prems(1), of q i] Cons.prems(2) show ?thesis by simp
  next
    case (Release i)
    with count_step [OF Cons.prems(1), of q i] Cons.prems(2) show ?thesis by simp
  qed
  then obtain u where u: "rsrc_step q ht = Some u" "rsrc_inv (Suc n) (reg + mset (registered [q])) u" by blast
  have "registered (q # ops) = registered [q] @ registered ops" by (cases q) auto
  with Cons.IH [OF u(2)] u(1) Cons.prems(2) show ?case by (auto simp: ac_simps)
qed simp

text \<open>
  Fetching checks: a resource that is returned is in the list under some number, its type is one of those asked
  for, and there is no warning; \<open>zend_fetch_resource\<close> always returns.
\<close>

lemma list_find_ok:
  assumes "array_inv ht" "hash_entries ht = Some es"
  shows "zend_list_find rid ht = Some (case map_of es (HKIdx (id_index rid)) of Some le \<Rightarrow> (Some (le_ptr le), le_type le) | None \<Rightarrow> (None, -1))"
  using hash_get_ok [OF assms(1) _ assms(2), of "HKIdx (id_index rid)"] by (simp add: zend_list_find_def hash_get_def hash_key_ok_def)

lemma fetch_resource_sound:
  assumes "array_inv ht" "hash_entries ht = Some es"
  shows "\<exists>res ws. zend_fetch_resource who passed_id default_id name types ht = Some (res, ws)
    \<and> (\<forall>r t. res = Some (r, t) \<longrightarrow> ws = [] \<and> r \<noteq> 0 \<and> t \<in> set types
         \<and> (\<exists>rid le. map_of es (HKIdx (id_index rid)) = Some le \<and> le_ptr le = r \<and> le_type le = t))"
  using list_find_ok [OF assms]
  by (auto simp: zend_fetch_resource_def Let_def split: option.splits)

section \<open>Properties\<close>

text \<open>
  (C19) Every resource is closed, once: after any sequence of registrations, additional references and releases
  (of valid or invalid numbers) on the list of a new request, the end of the request, \<open>zend_destroy_rsrc_list\<close>, returns with
  all entries freed, and the destructor of the list has been called exactly once for each resource registered.
\<close>

theorem resources_closed_once:
  assumes "length ops \<le> 2147483646"
  shows "\<exists>ht ht'. run_rsrc ops zend_init_rsrc_list = Some ht \<and> zend_destroy_rsrc_list ht = Some ht' \<and> heap ht' = Map.empty
    \<and> image_mset (\<lambda>le. (le_ptr le, le_type le)) (mset (destroyed ht')) = mset (registered ops)"
proof -
  obtain ht where ht: "run_rsrc ops zend_init_rsrc_list = Some ht" "rsrc_inv (length ops) (mset (registered ops)) ht"
    using run_rsrc_inv [OF rsrc_inv_init, of ops] assms by auto
  obtain es where es: "array_inv ht" "hash_entries ht = Some es"
    "image_mset rsrc_view (mset (destroyed ht)) + image_mset rsrc_view (image_mset snd (mset es)) = mset (registered ops)"
    by (rule rsrc_invE [OF ht(2)])
  obtain ht' where d: "zend_destroy_rsrc_list ht = Some ht'" "heap ht' = Map.empty" "destroyed ht' = destroyed ht @ rev (map snd es)"
    using destroy_rsrc_list_ok [OF es(1,2)] by blast
  have "image_mset rsrc_view (mset (destroyed ht')) = mset (registered ops)" using es(3) by (simp add: d(3))
  moreover have "rsrc_view = (\<lambda>le. (le_ptr le, le_type le))" by (auto simp: rsrc_view_def)
  ultimately show ?thesis using ht(1) d(1,2) by auto
qed

theorem resources_closed_once_witness:
  "\<exists>ht ht'. run_rsrc [Register 41 2, Addref 1, Register 42 2, Release 1, Release 9] zend_init_rsrc_list = Some ht
    \<and> zend_destroy_rsrc_list ht = Some ht' \<and> image_mset (\<lambda>le. (le_ptr le, le_type le)) (mset (destroyed ht')) = {#(41, 2), (42, 2)#}"
  using resources_closed_once [of "[Register 41 2, Addref 1, Register 42 2, Release 1, Release 9]"] by auto

end
