(* ===== verification/Virtual_Cwd.thy ===== *)
theory Virtual_Cwd
  imports PHP_Prelude "HOL-Library.Word" "HOL-Library.Monad_Syntax"
begin

unbundle bit_operations_syntax

text \<open>
  Path resolution of the engine (Zend/zend_virtual_cwd.c, in the Unix configuration) and its clients
  in main/fopen_wrappers.c. A path lives in a buffer of \<open>MAXPATHLEN\<close> bytes that is overwritten in
  place; an access outside of the buffer is the outcome \<open>None\<close>. The system calls the code makes are
  the fields of the record \<open>sys\<close>. The cache of resolved paths is kept in \<open>virtual_cwd_globals\<close>; allocation succeeds.
  \<open>VCWD_GETCWD\<close> is the system call, as in a build without thread safety.
\<close>

definition LINK_MAX :: nat where
  "LINK_MAX = 32"

section \<open>Buffers\<close>

type_synonym buffer = "char list"

definition buf_get :: "buffer \<Rightarrow> nat \<Rightarrow> char option" where
  "buf_get b i = (if i < length b then Some (b ! i) else None)"

definition buf_put :: "buffer \<Rightarrow> nat \<Rightarrow> char \<Rightarrow> buffer option" where
  "buf_put b i c = (if i < length b then Some (b[i := c]) else None)"

text \<open>\<open>memcpy (b + i, xs, length xs)\<close>.\<close>

definition buf_copy :: "buffer \<Rightarrow> nat \<Rightarrow> char list \<Rightarrow> buffer option" where
  "buf_copy b i xs =
     (if i + length xs \<le> length b then Some (take i b @ xs @ drop (i + length xs) b) else None)"

text \<open>The C string at the start of a buffer.\<close>

definition cstring :: "buffer \<Rightarrow> string" where
  "cstring b = takeWhile (\<lambda>c. c \<noteq> NUL) b"

definition IS_SLASH :: "char \<Rightarrow> bool" where
  "IS_SLASH c \<longleftrightarrow> c = CHR ''/''"

definition IS_ABSOLUTE_PATH :: "string \<Rightarrow> bool" where
  "IS_ABSOLUTE_PATH path \<longleftrightarrow> IS_SLASH (cstr_at path 0)"

section \<open>System calls\<close>

datatype file_kind = S_ISREG | S_ISDIR | S_ISLNK

record sys =
  sys_lstat :: "string \<Rightarrow> file_kind option"
  sys_stat :: "string \<Rightarrow> file_kind option"
  sys_readlink :: "string \<Rightarrow> string option"
  sys_getcwd :: "string option"
  sys_time :: int
  sys_can_open :: "string \<Rightarrow> bool"
  sys_stack :: buffer

text \<open>
  The last field is what a new buffer on the stack contains. \<open>sys_readlink\<close> is the target of the link;
  the system call \<open>readlink (tmp, path, MAXPATHLEN)\<close> writes at most \<open>MAXPATHLEN\<close> bytes of it.
\<close>

datatype cwd_mode = CWD_EXPAND | CWD_FILEPATH | CWD_REALPATH

record cwd_state =
  cwd :: string

section \<open>The cache of resolved paths\<close>

text \<open>
  The fields \<open>path_len\<close> and \<open>realpath_len\<close> are the lengths of the two strings; the pointers \<open>path\<close> and
  \<open>realpath\<close> are the same exactly when the strings are. The code copies the byte behind the end of the real
  path along, but never reads it again.
\<close>

record realpath_cache_bucket =
  rb_key :: "64 word"
  rb_path :: string
  rb_realpath :: string
  rb_is_dir :: bool
  rb_expires :: int

record virtual_cwd_globals =
  cwdg_cwd :: cwd_state
  realpath_cache_size :: int
  realpath_cache_size_limit :: int
  realpath_cache_ttl :: int
  realpath_cache :: "nat \<Rightarrow> realpath_cache_bucket list"

definition REALPATH_CACHE_TTL :: int where
  "REALPATH_CACHE_TTL = 2 * 60"

definition REALPATH_CACHE_SIZE :: int where
  "REALPATH_CACHE_SIZE = 0"

definition cwd_globals_ctor :: "cwd_state \<Rightarrow> virtual_cwd_globals" where
  "cwd_globals_ctor main_cwd_state =
     \<lparr>cwdg_cwd = main_cwd_state, realpath_cache_size = 0, realpath_cache_size_limit = REALPATH_CACHE_SIZE,
      realpath_cache_ttl = REALPATH_CACHE_TTL, realpath_cache = (\<lambda>_. [])\<rparr>"

text \<open>The state \<open>main_cwd_state\<close> and the globals after start-up.\<close>

definition virtual_cwd_startup :: "sys \<Rightarrow> cwd_state \<times> virtual_cwd_globals" where
  "virtual_cwd_startup S =
     (let main_cwd_state = \<lparr>cwd = (case sys_getcwd S of None \<Rightarrow> [] | Some c \<Rightarrow> c)\<rparr>
      in (main_cwd_state, cwd_globals_ctor main_cwd_state))"

definition sizeof_realpath_cache_bucket :: int where
  "sizeof_realpath_cache_bucket = 56"

definition realpath_cache_buckets :: nat where
  "realpath_cache_buckets = 1024"

text \<open>\<open>*path++\<close> is a signed character that is extended to 64 bits.\<close>

definition char_long :: "char \<Rightarrow> 64 word" where
  "char_long c = signed (of_nat (of_char c) :: 8 word)"

definition realpath_cache_key :: "string \<Rightarrow> 64 word" where
  "realpath_cache_key path = fold (\<lambda>c h. (h * 16777619) XOR char_long c) path 2166136261"

definition cache_slot :: "64 word \<Rightarrow> nat" where
  "cache_slot key = unat key mod realpath_cache_buckets"

definition bucket_bytes :: "realpath_cache_bucket \<Rightarrow> int" where
  "bucket_bytes r =
     (if rb_path r = rb_realpath r then sizeof_realpath_cache_bucket + int (length (rb_path r)) + 1
      else sizeof_realpath_cache_bucket + int (length (rb_path r)) + 1 + int (length (rb_realpath r)) + 1)"

definition bucket_matches :: "64 word \<Rightarrow> string \<Rightarrow> realpath_cache_bucket \<Rightarrow> bool" where
  "bucket_matches key path b \<longleftrightarrow> key = rb_key b \<and> path = rb_path b"

definition realpath_cache_clean :: "virtual_cwd_globals \<Rightarrow> virtual_cwd_globals" where
  "realpath_cache_clean g = g\<lparr>realpath_cache := (\<lambda>_. []), realpath_cache_size := 0\<rparr>"

definition cwd_globals_dtor :: "virtual_cwd_globals \<Rightarrow> virtual_cwd_globals" where
  "cwd_globals_dtor g = realpath_cache_clean g"

text \<open>The chain without the first matching bucket, and that bucket.\<close>

fun cache_del_chain :: "(realpath_cache_bucket \<Rightarrow> bool) \<Rightarrow> realpath_cache_bucket list \<Rightarrow>
    realpath_cache_bucket option \<times> realpath_cache_bucket list" where
  "cache_del_chain P [] = (None, [])"
| "cache_del_chain P (b # bs) =
     (if P b then (Some b, bs)
      else (case cache_del_chain P bs of (r, bs') \<Rightarrow> (r, b # bs')))"

definition realpath_cache_del :: "string \<Rightarrow> virtual_cwd_globals \<Rightarrow> virtual_cwd_globals" where
  "realpath_cache_del path g =
     (let key = realpath_cache_key path; n = cache_slot key in
      case cache_del_chain (bucket_matches key path) (realpath_cache g n) of
        (None, _) \<Rightarrow> g
      | (Some r, bs) \<Rightarrow>
          g\<lparr>realpath_cache := (realpath_cache g)(n := bs),
            realpath_cache_size := realpath_cache_size g - bucket_bytes r\<rparr>)"

definition realpath_cache_add ::
  "string \<Rightarrow> string \<Rightarrow> bool \<Rightarrow> int \<Rightarrow> virtual_cwd_globals \<Rightarrow> virtual_cwd_globals" where
  "realpath_cache_add path realpath is_dir t g =
     (let same = (path = realpath);
          bytes = sizeof_realpath_cache_bucket + int (length path) + 1
            + (if same then 0 else int (length realpath) + 1)
      in if realpath_cache_size g + bytes \<le> realpath_cache_size_limit g then
           (let b = \<lparr>rb_key = realpath_cache_key path, rb_path = path, rb_realpath = realpath,
                     rb_is_dir = is_dir, rb_expires = t + realpath_cache_ttl g\<rparr>;
                n = cache_slot (rb_key b)
            in g\<lparr>realpath_cache := (realpath_cache g)(n := b # realpath_cache g n),
                 realpath_cache_size := realpath_cache_size g + bytes\<rparr>)
         else g)"

text \<open>The walk along a chain: the bucket found, the chain without the expired buckets passed, and their bytes.\<close>

fun cache_find_chain :: "int \<Rightarrow> int \<Rightarrow> (realpath_cache_bucket \<Rightarrow> bool) \<Rightarrow> realpath_cache_bucket list \<Rightarrow>
    realpath_cache_bucket option \<times> realpath_cache_bucket list \<times> int" where
  "cache_find_chain ttl t P [] = (None, [], 0)"
| "cache_find_chain ttl t P (b # bs) =
     (if ttl \<noteq> 0 \<and> rb_expires b < t then
        (case cache_find_chain ttl t P bs of (r, bs', freed) \<Rightarrow> (r, bs', freed + bucket_bytes b))
      else if P b then (Some b, b # bs, 0)
      else (case cache_find_chain ttl t P bs of (r, bs', freed) \<Rightarrow> (r, b # bs', freed)))"

definition realpath_cache_find ::
  "string \<Rightarrow> int \<Rightarrow> virtual_cwd_globals \<Rightarrow> realpath_cache_bucket option \<times> virtual_cwd_globals" where
  "realpath_cache_find path t g =
     (let key = realpath_cache_key path; n = cache_slot key in
      case cache_find_chain (realpath_cache_ttl g) t (bucket_matches key path) (realpath_cache g n) of
        (r, bs, freed) \<Rightarrow>
          (r, g\<lparr>realpath_cache := (realpath_cache g)(n := bs),
                realpath_cache_size := realpath_cache_size g - freed\<rparr>))"

definition realpath_cache_lookup ::
  "string \<Rightarrow> int \<Rightarrow> virtual_cwd_globals \<Rightarrow> realpath_cache_bucket option \<times> virtual_cwd_globals" where
  "realpath_cache_lookup path t g = realpath_cache_find path t g"

section \<open>Resolving a path in its buffer\<close>

text \<open>\<open>while (i > start && !IS_SLASH (path[i-1])) i--;\<close>\<close>

fun back_to_slash :: "buffer \<Rightarrow> nat \<Rightarrow> nat \<Rightarrow> nat" where
  "back_to_slash path start 0 = 0"
| "back_to_slash path start (Suc i) =
     (if start < Suc i \<and> \<not> IS_SLASH (path ! i) then back_to_slash path start i else Suc i)"

text \<open>\<open>while (j > start && !IS_SLASH (path[j])) j--;\<close>\<close>

fun back_on_slash :: "buffer \<Rightarrow> nat \<Rightarrow> nat \<Rightarrow> nat" where
  "back_on_slash path start 0 = 0"
| "back_on_slash path start (Suc j) =
     (if start < Suc j \<and> \<not> IS_SLASH (path ! Suc j) then back_on_slash path start j else Suc j)"

lemma back_to_slash_le: "back_to_slash path start i \<le> i"
  by (induction i) auto

text \<open>\<open>path[k] == '.' && path[k+1] == '.' && IS_SLASH (path[k+2])\<close>, read from left to right.\<close>

definition dotdot_slash_at :: "buffer \<Rightarrow> nat \<Rightarrow> bool option" where
  "dotdot_slash_at path k = do {
     a \<leftarrow> buf_get path k;
     if a \<noteq> CHR ''.'' then Some False else do {
       b \<leftarrow> buf_get path (k + 1);
       if b \<noteq> CHR ''.'' then Some False else do {
         c \<leftarrow> buf_get path (k + 2);
         Some (IS_SLASH c)}}}"

text \<open>
  What follows the resolution of the directory before a \<open>..\<close>, for a result \<open>j\<close>: cut the last component,
  but keep leading \<open>..\<close> components of a relative path.
\<close>

definition remove_parent :: "buffer \<Rightarrow> nat \<Rightarrow> nat \<Rightarrow> (buffer \<times> nat) option" where
  "remove_parent path start j =
     (if start < j then
        if length path \<le> j - 1 then None
        else
          (let j = back_on_slash path start (j - 1) in
           if start \<noteq> 0 then Some (path, j)
           else if j = 0 then do {
             dd \<leftarrow> dotdot_slash_at path 0;
             if dd then do { path \<leftarrow> buf_copy path 3 ''../''; Some (path, 5) } else Some (path, j) }
           else do {
             dd \<leftarrow> dotdot_slash_at path (j + 1);
             if dd then do { path \<leftarrow> buf_copy path (j + 4) ''../''; Some (path, j + 6) } else Some (path, j) })
      else if start = 0 \<and> j = 0 then do { path \<leftarrow> buf_copy path 0 ''../''; Some (path, 2) }
      else Some (path, j))"

text \<open>
  The result is the buffer, the globals, and \<open>None\<close> for the return value \<open>-1\<close>, otherwise the return value
  and what is written through \<open>link_is_dir\<close> (false if nothing is). Each activation makes at most one
  recursive call, so that the counters \<open>ll\<close> and \<open>t\<close> need not be handed back.
\<close>

type_synonym resolution = "buffer \<times> virtual_cwd_globals \<times> (nat \<times> bool) option"

definition add_to_cache ::
  "bool \<Rightarrow> nat \<Rightarrow> buffer \<Rightarrow> nat \<Rightarrow> bool \<Rightarrow> int \<Rightarrow> resolution \<Rightarrow> resolution" where
  "add_to_cache save start tmp len directory t =
     (\<lambda>(path, g, r).
        case r of None \<Rightarrow> (path, g, r)
        | Some (j, _) \<Rightarrow>
            (path,
             if save \<and> start \<noteq> 0 \<and> realpath_cache_size_limit g \<noteq> 0
             then realpath_cache_add (take len tmp) (take j path) directory t g else g, r))"

text \<open>Appending the last component behind the resolved directory.\<close>

definition append_component :: "buffer \<Rightarrow> virtual_cwd_globals \<Rightarrow> nat \<Rightarrow> buffer \<Rightarrow> nat \<Rightarrow> nat \<Rightarrow> bool \<Rightarrow> resolution option" where
  "append_component path g j tmp i len directory =
     (if MAXPATHLEN - 1 \<le> j + (len - i) then Some (path, g, None)
      else do {
        path \<leftarrow> buf_copy path j (drop i tmp);
        Some (path, g, Some (j + (len - i), directory)) })"

text \<open>
  One pass of the code up to its recursive call: the function returns, goes round its loop, or calls itself
  on the directory before a \<open>..\<close>, on the text after replacing a symbolic link (with the arguments of
  the cache entry to be made), or on the leading directories of the last component.
\<close>

datatype pass =
    Return resolution
  | Continue nat
  | Dotdot nat
  | Follow buffer nat nat buffer int virtual_cwd_globals
  | Leading buffer nat cwd_mode bool bool buffer nat int virtual_cwd_globals

text \<open>\<open>php_sys_readlink\<close> and the text to resolve instead of the link.\<close>

definition follow_link ::
  "sys \<Rightarrow> buffer \<Rightarrow> nat \<Rightarrow> nat \<Rightarrow> nat \<Rightarrow> nat \<Rightarrow> int \<Rightarrow> virtual_cwd_globals \<Rightarrow> pass option" where
  "follow_link S path start i len ll t g =
     (let tmp = take (len + 1) path in
      if LINK_MAX < ll + 1 then Some (Return (path, g, None))
      else case sys_readlink S (cstring tmp) of
        None \<Rightarrow> Some (Return (path, g, None))
      | Some target \<Rightarrow> do {
          let j = min MAXPATHLEN (length target);
          path \<leftarrow> buf_copy path 0 (take j target);
          path \<leftarrow> buf_put path j NUL;
          if IS_ABSOLUTE_PATH path then Some (Follow path 1 j tmp t g)
          else if MAXPATHLEN - 1 \<le> i + j then Some (Return (path, g, None))
          else if i = 0 then None
          else do {
            path \<leftarrow> buf_copy path i (take (j + 1) path);
            path \<leftarrow> buf_copy path 0 (take (i - 1) tmp);
            path \<leftarrow> buf_put path (i - 1) (CHR ''/'');
            Some (Follow path start (i + j) tmp t g) } })"

text \<open>From \<open>path[len] = 0\<close> on: the cache, \<open>lstat\<close>, and what it decides.\<close>

definition examine ::
  "sys \<Rightarrow> buffer \<Rightarrow> nat \<Rightarrow> nat \<Rightarrow> nat \<Rightarrow> nat \<Rightarrow> int \<Rightarrow> cwd_mode \<Rightarrow> bool \<Rightarrow> virtual_cwd_globals \<Rightarrow> pass option" where
  "examine S path start i len ll t use_realpath is_dir g =
     (let save = (use_realpath \<noteq> CWD_EXPAND);
          cached = (start \<noteq> 0 \<and> save \<and> realpath_cache_size_limit g \<noteq> 0);
          t = (if cached \<and> t = 0 then sys_time S else t);
          (bucket, g) = (if cached then realpath_cache_find (take len path) t g else (None, g))
      in case bucket of
           Some b \<Rightarrow>
             if is_dir \<and> \<not> rb_is_dir b then Some (Return (path, g, None))
             else do {
               path \<leftarrow> buf_copy path 0 (rb_realpath b @ [NUL]);
               Some (Return (path, g, Some (length (rb_realpath b), rb_is_dir b))) }
         | None \<Rightarrow>
             (let st = (if save then sys_lstat S (cstring path) else None); tmp = take (len + 1) path in
              if save \<and> st = None \<and> use_realpath = CWD_REALPATH then Some (Return (path, g, None))
              else if st = Some S_ISLNK then follow_link S path start i len ll t g
              else
                (let save = (st \<noteq> None); directory = (st = Some S_ISDIR) in
                 if save \<and> is_dir \<and> \<not> directory then Some (Return (path, g, None))
                 else if i - 1 \<le> start then do {
                   r \<leftarrow> append_component path g start tmp i len directory;
                   Some (Return (add_to_cache save start tmp len directory t r)) }
                 else Some (Leading path (i - 1) (if save then CWD_FILEPATH else use_realpath) save directory tmp i t g))))"

definition tsrm_pass ::
  "sys \<Rightarrow> buffer \<Rightarrow> nat \<Rightarrow> nat \<Rightarrow> nat \<Rightarrow> int \<Rightarrow> cwd_mode \<Rightarrow> bool \<Rightarrow> virtual_cwd_globals \<Rightarrow> pass option" where
  "tsrm_pass S path start len ll t use_realpath is_dir g =
     (if len \<le> start then Some (Return (path, g, Some (start, True)))
      else if length path < len then None
      else
        (let i = back_to_slash path start len in
         if i = len \<or> (i = len - 1 \<and> path ! i = CHR ''.'') then Some (Continue (i - 1))
         else if i = len - 2 \<and> path ! i = CHR ''.'' \<and> path ! (i + 1) = CHR ''.'' then
           if i - 1 \<le> start then Some (Return (path, g, Some (if start \<noteq> 0 then start else len, True)))
           else Some (Dotdot (i - 1))
         else do {
           path \<leftarrow> buf_put path len NUL;
           examine S path start i len ll t use_realpath is_dir g }))"

definition written_is_dir :: "resolution \<Rightarrow> bool" where
  "written_is_dir r = (case snd (snd r) of None \<Rightarrow> False | Some (_, directory) \<Rightarrow> directory)"

definition after_dotdot :: "nat \<Rightarrow> resolution \<Rightarrow> resolution option" where
  "after_dotdot start = (\<lambda>(path, g, r).
     case r of None \<Rightarrow> Some (path, g, None)
     | Some (j, _) \<Rightarrow> do { (path, j) \<leftarrow> remove_parent path start j; Some (path, g, Some (j, True)) })"

definition after_leading :: "nat \<Rightarrow> nat \<Rightarrow> nat \<Rightarrow> bool \<Rightarrow> bool \<Rightarrow> buffer \<Rightarrow> int \<Rightarrow> resolution \<Rightarrow> resolution option" where
  "after_leading start i len save directory tmp t = (\<lambda>(path, g, r).
     case r of None \<Rightarrow> Some (path, g, None)
     | Some (j, _) \<Rightarrow> do {
         (path, j) \<leftarrow> (if start < j then do { path \<leftarrow> buf_put path j (CHR ''/''); Some (path, j + 1) }
                       else Some (path, j));
         r \<leftarrow> append_component path g j tmp i len directory;
         Some (add_to_cache save start tmp len directory t r) })"

lemma examine_calls:
  assumes "examine S path start i len ll t m d g = Some p"
  shows "(\<forall>l. p \<noteq> Continue l) \<and> (\<forall>l. p \<noteq> Dotdot l)
    \<and> (\<forall>path' l m' s dir tmp i' t' g'. p = Leading path' l m' s dir tmp i' t' g' \<longrightarrow> l = i - 1 \<and> i' = i)
    \<and> (\<forall>path' st l tmp t' g'. p = Follow path' st l tmp t' g' \<longrightarrow> ll < LINK_MAX)"
  using assms
  by (auto simp: examine_def follow_link_def Let_def bind_eq_Some_conv split: prod.splits option.splits if_splits)

lemma tsrm_pass_calls:
  assumes "tsrm_pass S path start len ll t m d g = Some p"
  shows "(\<forall>l. p = Continue l \<or> p = Dotdot l \<longrightarrow> l < len)
    \<and> (\<forall>path' l m' s dir tmp i' t' g'. p = Leading path' l m' s dir tmp i' t' g' \<longrightarrow> l < len)
    \<and> (\<forall>path' st l tmp t' g'. p = Follow path' st l tmp t' g' \<longrightarrow> ll < LINK_MAX)"
proof (cases "len \<le> start \<or> length path < len")
  case False
  then have "back_to_slash path start len - 1 < len" using back_to_slash_le [of path start len] by linarith
  with False assms show ?thesis
    by (auto simp: tsrm_pass_def Let_def bind_eq_Some_conv dest!: examine_calls split: if_splits)
next
  case True
  with assms show ?thesis by (auto simp: tsrm_pass_def split: if_splits)
qed

function tsrm_realpath_r ::
  "sys \<Rightarrow> buffer \<Rightarrow> nat \<Rightarrow> nat \<Rightarrow> nat \<Rightarrow> int \<Rightarrow> cwd_mode \<Rightarrow> bool \<Rightarrow> virtual_cwd_globals \<Rightarrow> resolution option" where
  "tsrm_realpath_r S path start len ll t use_realpath is_dir g =
     (case tsrm_pass S path start len ll t use_realpath is_dir g of
        None \<Rightarrow> None
      | Some (Return r) \<Rightarrow> Some r
      | Some (Continue l) \<Rightarrow> tsrm_realpath_r S path start l ll t use_realpath True g
      | Some (Dotdot l) \<Rightarrow>
          tsrm_realpath_r S path start l ll t use_realpath True g \<bind> after_dotdot start
      | Some (Follow path' start' l tmp t g) \<Rightarrow>
          map_option (\<lambda>r. add_to_cache True start tmp len (written_is_dir r) t r)
            (tsrm_realpath_r S path' start' l (ll + 1) t use_realpath is_dir g)
      | Some (Leading path' l mode save directory tmp i t g) \<Rightarrow>
          tsrm_realpath_r S path' start l ll t mode True g \<bind> after_leading start i len save directory tmp t)"
  by pat_completeness auto
termination
  by (relation "measures [\<lambda>(S, path, start, len, ll, t, m, d, g). LINK_MAX - ll, \<lambda>(S, path, start, len, ll, t, m, d, g). len]")
     (auto dest!: tsrm_pass_calls)

declare tsrm_realpath_r.simps [simp del]

section \<open>Clients\<close>

text \<open>
  \<open>virtual_file_ex\<close>: the state to resolve against, the path, and the optional \<open>verify_path\<close>. The result is
  the return value with the new state and globals; \<open>None\<close> is undefined behaviour.
\<close>

definition initial_text :: "sys \<Rightarrow> cwd_state \<Rightarrow> string \<Rightarrow> (buffer \<times> nat \<times> nat) option option" where
  "initial_text S state path =
     (let resolved_path = sys_stack S; path_length = length path in
      if IS_ABSOLUTE_PATH path then do {
        b \<leftarrow> buf_copy resolved_path 0 (path @ [NUL]); Some (Some (b, 1, path_length)) }
      else if cwd state = [] then do {
        b \<leftarrow> buf_copy resolved_path 0 (path @ [NUL]); Some (Some (b, 0, path_length)) }
      else
        (let state_cwd_length = length (cwd state) in
         if MAXPATHLEN - 1 \<le> path_length + state_cwd_length + 1 then Some None
         else do {
           b \<leftarrow> buf_copy resolved_path 0 (cwd state);
           if b ! (state_cwd_length - 1) = CHR ''/'' then do {
             b \<leftarrow> buf_copy b state_cwd_length (path @ [NUL]);
             Some (Some (b, 1, path_length + state_cwd_length)) }
           else do {
             b \<leftarrow> buf_put b state_cwd_length (CHR ''/'');
             b \<leftarrow> buf_copy b (state_cwd_length + 1) (path @ [NUL]);
             Some (Some (b, 1, path_length + state_cwd_length + 1)) } }))"

text \<open>From the result of the resolution to the C string that becomes the new state; \<open>None\<close> inside is the return value \<open>-1\<close>.\<close>

definition final_text :: "bool \<Rightarrow> nat \<Rightarrow> buffer \<Rightarrow> nat \<Rightarrow> string option option" where
  "final_text add_slash start b path_length = do {
     (b, path_length) \<leftarrow>
       (if start = 0 \<and> path_length = 0 then do { b \<leftarrow> buf_put b 0 (CHR ''.''); Some (b, 1) } else Some (b, path_length));
     if add_slash \<and> path_length \<noteq> 0 \<and> \<not> IS_SLASH (b ! (path_length - 1)) then
       (if MAXPATHLEN - 1 \<le> path_length then Some None
        else do {
          b \<leftarrow> buf_put b path_length (CHR ''/'');
          b \<leftarrow> buf_put b (path_length + 1) NUL;
          Some (Some (take (path_length + 1) b)) })
     else do {
       b \<leftarrow> buf_put b path_length NUL;
       Some (Some (take path_length b)) } }"

definition virtual_file_ex ::
  "sys \<Rightarrow> cwd_state \<Rightarrow> string \<Rightarrow> (cwd_state \<Rightarrow> bool) option \<Rightarrow> cwd_mode \<Rightarrow> virtual_cwd_globals \<Rightarrow>
     (int \<times> cwd_state \<times> virtual_cwd_globals) option" where
  "virtual_file_ex S state path verify_path use_realpath g =
     (if path = [] \<or> MAXPATHLEN - 1 \<le> length path then Some (1, state, g)
      else do {
        initial \<leftarrow> initial_text S state path;
        case initial of
          None \<Rightarrow> Some (1, state, g)
        | Some (b, start, path_length) \<Rightarrow> do {
            let add_slash = (use_realpath \<noteq> CWD_REALPATH \<and> 0 < path_length \<and> IS_SLASH (b ! (path_length - 1)));
            let t = (if realpath_cache_ttl g \<noteq> 0 then 0 else -1);
            (b, g, r) \<leftarrow> tsrm_realpath_r S b start path_length 0 t use_realpath False g;
            case r of
              None \<Rightarrow> Some (1, state, g)
            | Some (path_length, _) \<Rightarrow> do {
                final \<leftarrow> final_text add_slash start b path_length;
                case final of
                  None \<Rightarrow> Some (-1, state, g)
                | Some text \<Rightarrow>
                    if verify_path \<noteq> None \<and> the verify_path \<lparr>cwd = text\<rparr> then Some (1, state, g)
                    else Some (0, \<lparr>cwd = text\<rparr>, g) } } })"

definition php_is_dir_ok :: "sys \<Rightarrow> cwd_state \<Rightarrow> bool" where
  "php_is_dir_ok S state \<longleftrightarrow> sys_stat S (cwd state) \<noteq> Some S_ISDIR"

definition php_is_file_ok :: "sys \<Rightarrow> cwd_state \<Rightarrow> bool" where
  "php_is_file_ok S state \<longleftrightarrow> sys_stat S (cwd state) \<noteq> Some S_ISREG"

definition virtual_chdir :: "sys \<Rightarrow> string \<Rightarrow> virtual_cwd_globals \<Rightarrow> (int \<times> virtual_cwd_globals) option" where
  "virtual_chdir S path g = do {
     (r, state, g) \<leftarrow> virtual_file_ex S (cwdg_cwd g) path (Some (php_is_dir_ok S)) CWD_REALPATH g;
     Some (if r \<noteq> 0 then -1 else 0, g\<lparr>cwdg_cwd := state\<rparr>) }"

text \<open>The directory of the last slash of a path, which itself is kept for the root.\<close>

fun last_slash_before :: "string \<Rightarrow> nat \<Rightarrow> nat option" where
  "last_slash_before path 0 = None"
| "last_slash_before path (Suc n) = (if IS_SLASH (path ! n) then Some n else last_slash_before path n)"

definition virtual_chdir_file ::
  "string \<Rightarrow> (string \<Rightarrow> virtual_cwd_globals \<Rightarrow> (int \<times> virtual_cwd_globals) option) \<Rightarrow> virtual_cwd_globals \<Rightarrow>
     (int \<times> virtual_cwd_globals) option" where
  "virtual_chdir_file path p_chdir g =
     (if path = [] then Some (1, g)
      else case last_slash_before path (length path) of
        None \<Rightarrow> Some (-1, g)
      | Some n \<Rightarrow> p_chdir (take (if n = 0 \<and> IS_ABSOLUTE_PATH path then n + 1 else n) path) g)"

definition virtual_getcwd_ex :: "virtual_cwd_globals \<Rightarrow> string" where
  "virtual_getcwd_ex g = (if cwd (cwdg_cwd g) = [] then ''/'' else cwd (cwdg_cwd g))"

text \<open>The size is unsigned: for \<open>size = 0\<close> the bound \<open>size - 1\<close> is the largest value. The buffer is given.\<close>

definition virtual_getcwd :: "nat \<Rightarrow> virtual_cwd_globals \<Rightarrow> string option" where
  "virtual_getcwd n g =
     (let c = virtual_getcwd_ex g in if n \<noteq> 0 \<and> n - 1 < length c then None else Some c)"

definition virtual_realpath :: "sys \<Rightarrow> string \<Rightarrow> virtual_cwd_globals \<Rightarrow> (string option \<times> virtual_cwd_globals) option" where
  "virtual_realpath S path g =
     (let (path, state) =
        (if path = [] then
           (case sys_getcwd S of Some c \<Rightarrow> (c, \<lparr>cwd = []\<rparr>) | None \<Rightarrow> (path, \<lparr>cwd = []\<rparr>))
         else if \<not> IS_ABSOLUTE_PATH path then (path, cwdg_cwd g)
         else (path, \<lparr>cwd = []\<rparr>))
      in do {
        (r, state, g) \<leftarrow> virtual_file_ex S state path None CWD_REALPATH g;
        Some (if r = 0 then Some (take (MAXPATHLEN - 1) (cwd state)) else None, g) })"

definition virtual_filepath_ex ::
  "sys \<Rightarrow> string \<Rightarrow> (cwd_state \<Rightarrow> bool) option \<Rightarrow> virtual_cwd_globals \<Rightarrow> (int \<times> string \<times> virtual_cwd_globals) option" where
  "virtual_filepath_ex S path verify_path g = do {
     (r, state, g) \<leftarrow> virtual_file_ex S (cwdg_cwd g) path verify_path CWD_FILEPATH g;
     Some (r, cwd state, g) }"

definition virtual_filepath :: "sys \<Rightarrow> string \<Rightarrow> virtual_cwd_globals \<Rightarrow> (int \<times> string \<times> virtual_cwd_globals) option" where
  "virtual_filepath S path g = virtual_filepath_ex S path (Some (php_is_file_ok S)) g"

text \<open>\<open>tsrm_realpath\<close> and \<open>expand_filepath_with_mode\<close> copy the result into a buffer of \<open>MAXPATHLEN\<close> bytes.
  \<open>is_script\<close> says whether \<open>filepath\<close> is the pointer \<open>SG (request_info).path_translated\<close>.\<close>

definition tsrm_realpath :: "sys \<Rightarrow> string \<Rightarrow> virtual_cwd_globals \<Rightarrow> (string option \<times> virtual_cwd_globals) option" where
  "tsrm_realpath S path g =
     (let (path, state) =
        (if path = [] then
           (case sys_getcwd S of Some c \<Rightarrow> (c, \<lparr>cwd = []\<rparr>) | None \<Rightarrow> (path, \<lparr>cwd = []\<rparr>))
         else if \<not> IS_ABSOLUTE_PATH path then
           (case sys_getcwd S of Some c \<Rightarrow> (path, \<lparr>cwd = c\<rparr>) | None \<Rightarrow> (path, \<lparr>cwd = []\<rparr>))
         else (path, \<lparr>cwd = []\<rparr>))
      in do {
        (r, state, g) \<leftarrow> virtual_file_ex S state path None CWD_REALPATH g;
        Some (if r \<noteq> 0 then None else Some (take (MAXPATHLEN - 1) (cwd state)), g) })"

definition expand_filepath_with_mode ::
  "sys \<Rightarrow> bool \<Rightarrow> string \<Rightarrow> string option \<Rightarrow> cwd_mode \<Rightarrow> virtual_cwd_globals \<Rightarrow>
     (string option \<times> virtual_cwd_globals) option" where
  "expand_filepath_with_mode S is_script filepath relative_to realpath_mode g =
     (if filepath = [] then Some (None, g)
      else if \<not> IS_ABSOLUTE_PATH filepath \<and> relative_to \<noteq> None \<and> MAXPATHLEN - 1 < length (the relative_to)
      then Some (None, g)
      else
        (let result = (if relative_to \<noteq> None then relative_to else sys_getcwd S) in
         if \<not> IS_ABSOLUTE_PATH filepath \<and> result = None \<and> \<not> is_script \<and> sys_can_open S filepath
         then Some (Some (take (MAXPATHLEN - 1) filepath), g)
         else
           (let c = (if IS_ABSOLUTE_PATH filepath then [] else case result of None \<Rightarrow> [] | Some c \<Rightarrow> c) in do {
              (r, state, g) \<leftarrow> virtual_file_ex S \<lparr>cwd = c\<rparr> filepath None realpath_mode g;
              Some (if r \<noteq> 0 then None else Some (take (MAXPATHLEN - 1) (cwd state)), g) })))"

definition expand_filepath_ex ::
  "sys \<Rightarrow> bool \<Rightarrow> string \<Rightarrow> string option \<Rightarrow> virtual_cwd_globals \<Rightarrow> (string option \<times> virtual_cwd_globals) option" where
  "expand_filepath_ex S is_script filepath relative_to g =
     expand_filepath_with_mode S is_script filepath relative_to CWD_FILEPATH g"

definition expand_filepath :: "sys \<Rightarrow> bool \<Rightarrow> string \<Rightarrow> virtual_cwd_globals \<Rightarrow> (string option \<times> virtual_cwd_globals) option" where
  "expand_filepath S is_script filepath g = expand_filepath_ex S is_script filepath None g"

end
