(* ===== verification/Path_Resolution.thy ===== *)
theory Path_Resolution
  imports Virtual_Cwd
begin

text \<open>
  Absolute paths as lists of components. The function \<open>resolve\<close> does on lists of names what
  \<open>tsrm_realpath_r\<close> does in its buffer; the refinement lemma shows that the buffer is never left and
  that the two agree. Results are canonical: no empty name, no \<open>.\<close>, no \<open>..\<close>.
\<close>

section \<open>Texts of paths\<close>

definition slashed :: "string list \<Rightarrow> string" where
  "slashed cs = concat (map (Cons (CHR ''/'')) cs)"

text \<open>The text of a list of components in reverse order, and the name of a resolved path.\<close>

definition rtext :: "string list \<Rightarrow> string" where
  "rtext rc = slashed (rev rc)"

definition ctext :: "string list \<Rightarrow> string" where
  "ctext cs = (if cs = [] then ''/'' else slashed cs)"

definition names :: "string \<Rightarrow> string list" where
  "names r = (if r = ''/'' then [] else split_sep (CHR ''/'') (tl r))"

definition name_ok :: "string \<Rightarrow> bool" where
  "name_ok c \<longleftrightarrow> CHR ''/'' \<notin> set c \<and> NUL \<notin> set c"

definition proper_name :: "string \<Rightarrow> bool" where
  "proper_name c \<longleftrightarrow> name_ok c \<and> c \<noteq> [] \<and> c \<noteq> ''.'' \<and> c \<noteq> ''..''"

definition canonical :: "string list \<Rightarrow> bool" where
  "canonical cs \<longleftrightarrow> list_all proper_name cs \<and> length (ctext cs) < MAXPATHLEN - 1"

lemma slashed_simps [simp]: "slashed [] = []" "slashed (c # cs) = CHR ''/'' # c @ slashed cs"
  "slashed (cs @ ds) = slashed cs @ slashed ds"
  by (simp_all add: slashed_def)

lemma rtext_simps [simp]: "rtext [] = []" "rtext (c # rc) = rtext rc @ CHR ''/'' # c"
  by (simp_all add: rtext_def)

lemma slashed_eq_Nil [simp]: "slashed cs = [] \<longleftrightarrow> cs = []"
  by (cases cs) auto

lemma rtext_eq_Nil [simp]: "rtext rc = [] \<longleftrightarrow> rc = []"
  by (simp add: rtext_def)

lemma ctext_neq_Nil [simp]: "ctext cs \<noteq> []"
  by (simp add: ctext_def)

lemma ctext_snoc [simp]: "ctext (cs @ [c]) = slashed cs @ CHR ''/'' # c"
  by (simp add: ctext_def)

lemma split_slashed: "slashed (split_sep (CHR ''/'') s) = CHR ''/'' # s"
proof (induction s rule: length_induct)
  case (1 s)
  show ?case
  proof (cases rule: split_sep_cases [of "CHR ''/''" s])
    case 1
    then show ?thesis by simp
  next
    case (2 a b)
    with 1 show ?thesis by simp
  qed
qed

lemma split_names: "c \<in> set (split_sep (CHR ''/'') s) \<Longrightarrow> CHR ''/'' \<notin> set c \<and> set c \<subseteq> set s"
proof (induction s rule: length_induct)
  case (1 s)
  show ?case
  proof (cases rule: split_sep_cases [of "CHR ''/''" s])
    case 1
    with \<open>c \<in> _\<close> show ?thesis by simp
  next
    case (2 a b)
    then have "length b < length s" by simp
    with 1 2 have "c \<in> set (split_sep (CHR ''/'') b) \<Longrightarrow> CHR ''/'' \<notin> set c \<and> set c \<subseteq> set b" by blast
    with 1(2) 2 show ?thesis by auto
  qed
qed

lemma split_slashed_names:
  assumes "cs \<noteq> []" "\<forall>c \<in> set cs. CHR ''/'' \<notin> set c"
  shows "split_sep (CHR ''/'') (tl (slashed cs)) = cs"
  using assms
proof (induction cs)
  case (Cons c cs)
  show ?case
  proof (cases cs)
    case Nil
    with Cons.prems show ?thesis by (simp add: split_sep_no_sep)
  next
    case (Cons d ds)
    with Cons.prems have "split_sep (CHR ''/'') (c @ CHR ''/'' # tl (slashed cs)) = c # split_sep (CHR ''/'') (tl (slashed cs))"
      by (intro split_sep_append) simp
    with Cons.IH Cons.prems \<open>cs = d # ds\<close> show ?thesis by simp
  qed
qed simp

lemma canonicalD: "canonical cs \<Longrightarrow> c \<in> set cs \<Longrightarrow> proper_name c"
  by (simp add: canonical_def list_all_iff)

lemma canonical_slash_free: "canonical cs \<Longrightarrow> \<forall>c \<in> set cs. CHR ''/'' \<notin> set c"
  by (auto dest: canonicalD simp: proper_name_def name_ok_def)

lemma names_ctext:
  assumes "canonical cs"
  shows "names (ctext cs) = cs"
proof (cases "cs = []")
  case False
  then have "slashed cs \<noteq> ''/''" using assms
    by (cases cs) (auto simp: canonical_def proper_name_def)
  then show ?thesis
    using False split_slashed_names [OF False canonical_slash_free [OF assms]] by (simp add: names_def ctext_def)
qed (simp add: names_def ctext_def)

lemma length_ctext_mono: "length (ctext cs) \<le> length (ctext (cs @ ds))"
  by (cases ds; cases cs) (auto simp: ctext_def)

lemma canonical_append: "canonical (cs @ ds) \<Longrightarrow> canonical cs"
  using length_ctext_mono [of cs ds] by (auto simp: canonical_def)

lemma canonical_butlast [simp]: "canonical cs \<Longrightarrow> canonical (butlast cs)"
  by (cases cs rule: rev_cases) (auto dest: canonical_append)

lemma canonical_Nil [simp]: "canonical []"
  by (simp add: canonical_def ctext_def MAXPATHLEN_def)

lemma canonical_snoc:
  "canonical cs \<Longrightarrow> proper_name c \<Longrightarrow> length (ctext (cs @ [c])) < MAXPATHLEN - 1 \<Longrightarrow> canonical (cs @ [c])"
  by (simp add: canonical_def)

section \<open>Resolution on components\<close>

text \<open>
  The components, last one first, after replacing a symbolic link; \<open>None\<close> where the code gives up.
\<close>

definition link_components :: "sys \<Rightarrow> nat \<Rightarrow> string list \<Rightarrow> string \<Rightarrow> string list option" where
  "link_components S ll rc path =
     (if LINK_MAX < ll + 1 then None
      else case sys_readlink S path of
        None \<Rightarrow> None
      | Some target \<Rightarrow>
          if IS_ABSOLUTE_PATH target then Some (rev (split_sep (CHR ''/'') (tl target)))
          else if MAXPATHLEN - 1 \<le> length (rtext rc) + 1 + length target then None
          else Some (rev (split_sep (CHR ''/'') target) @ rc))"

definition remember ::
  "bool \<Rightarrow> string \<Rightarrow> int \<Rightarrow> virtual_cwd_globals \<times> (string list \<times> bool) option \<Rightarrow>
     virtual_cwd_globals \<times> (string list \<times> bool) option" where
  "remember save path t = (\<lambda>(g, r).
     case r of None \<Rightarrow> (g, None)
     | Some (cs, d) \<Rightarrow>
         (if save \<and> realpath_cache_size_limit g \<noteq> 0 then realpath_cache_add path (ctext cs) d t g else g, r))"

definition consult :: "sys \<Rightarrow> cwd_mode \<Rightarrow> string \<Rightarrow> int \<Rightarrow> virtual_cwd_globals \<Rightarrow>
    int \<times> realpath_cache_bucket option \<times> virtual_cwd_globals" where
  "consult S m path t g =
     (if m \<noteq> CWD_EXPAND \<and> realpath_cache_size_limit g \<noteq> 0
      then (let t = (if t = 0 then sys_time S else t) in (t, realpath_cache_find path t g))
      else (t, None, g))"

definition join_component ::
  "bool \<Rightarrow> string \<Rightarrow> string \<Rightarrow> bool \<Rightarrow> int \<Rightarrow> virtual_cwd_globals \<times> (string list \<times> bool) option \<Rightarrow>
     virtual_cwd_globals \<times> (string list \<times> bool) option" where
  "join_component save c path d t = (\<lambda>(g, r).
     case r of None \<Rightarrow> (g, None)
     | Some (cs, _) \<Rightarrow>
         if MAXPATHLEN - 1 \<le> length (ctext (cs @ [c])) then (g, None)
         else remember save path t (g, Some (cs @ [c], d)))"

definition status :: "sys \<Rightarrow> cwd_mode \<Rightarrow> string \<Rightarrow> file_kind option" where
  "status S m path = (if m \<noteq> CWD_EXPAND then sys_lstat S path else None)"

function resolve ::
  "sys \<Rightarrow> cwd_mode \<Rightarrow> string list \<Rightarrow> nat \<Rightarrow> int \<Rightarrow> bool \<Rightarrow> virtual_cwd_globals \<Rightarrow>
     virtual_cwd_globals \<times> (string list \<times> bool) option" where
  "resolve S m [] ll t d g = (g, Some ([], True))"
| "resolve S m (c # rc) ll t d g =
     (if c = [] \<or> c = ''.'' then resolve S m rc ll t True g
      else if c = ''..'' then
        (case resolve S m rc ll t True g of (g, r) \<Rightarrow> (g, map_option (\<lambda>(cs, _). (butlast cs, True)) r))
      else
        (let path = rtext (c # rc); (t, bucket, g) = consult S m path t g in
         case bucket of
           Some b \<Rightarrow> (g, if d \<and> \<not> rb_is_dir b then None else Some (names (rb_realpath b), rb_is_dir b))
         | None \<Rightarrow>
             (let st = status S m path in
              if m = CWD_REALPATH \<and> st = None then (g, None)
              else if st = Some S_ISLNK then
                (case link_components S ll rc path of
                   None \<Rightarrow> (g, None)
                 | Some rc' \<Rightarrow> remember True path t (resolve S m rc' (ll + 1) t d g))
              else if st \<noteq> None \<and> d \<and> st \<noteq> Some S_ISDIR then (g, None)
              else
                join_component (st \<noteq> None) c path (st = Some S_ISDIR) t
                  (resolve S (if st \<noteq> None then CWD_FILEPATH else m) rc ll t True g))))"
  by pat_completeness auto
termination
  by (relation "measures [\<lambda>(S, m, rc, ll, t, d, g). LINK_MAX - ll, \<lambda>(S, m, rc, ll, t, d, g). length rc]")
     (auto simp: link_components_def split: if_splits option.splits)

declare resolve.simps(2) [simp del]

text \<open>The cases of the function as an induction rule, which also says what the result is in each of them.\<close>

lemma resolve_induct [case_names Root Skip Up Hit Missing Broken Link NotDir Join]:
  fixes P :: "cwd_mode \<Rightarrow> string list \<Rightarrow> nat \<Rightarrow> int \<Rightarrow> bool \<Rightarrow> virtual_cwd_globals \<Rightarrow>
    virtual_cwd_globals \<times> (string list \<times> bool) option \<Rightarrow> bool"
  assumes root: "\<And>m ll t d g. P m [] ll t d g (g, Some ([], True))"
    and skip: "\<And>m c rc ll t d g. c = [] \<or> c = ''.'' \<Longrightarrow> P m rc ll t True g (resolve S m rc ll t True g) \<Longrightarrow>
      P m (c # rc) ll t d g (resolve S m rc ll t True g)"
    and up: "\<And>m rc ll t d g g' r. resolve S m rc ll t True g = (g', r) \<Longrightarrow> P m rc ll t True g (g', r) \<Longrightarrow>
      P m (''..'' # rc) ll t d g (g', map_option (\<lambda>(cs, _). (butlast cs, True)) r)"
    and hit: "\<And>m c rc ll t d g t' b g'. c \<noteq> [] \<Longrightarrow> c \<noteq> ''.'' \<Longrightarrow> c \<noteq> ''..'' \<Longrightarrow>
      consult S m (rtext (c # rc)) t g = (t', Some b, g') \<Longrightarrow>
      P m (c # rc) ll t d g (g', if d \<and> \<not> rb_is_dir b then None else Some (names (rb_realpath b), rb_is_dir b))"
    and missing: "\<And>c rc ll t d g t' g'. c \<noteq> [] \<Longrightarrow> c \<noteq> ''.'' \<Longrightarrow> c \<noteq> ''..'' \<Longrightarrow>
      consult S CWD_REALPATH (rtext (c # rc)) t g = (t', None, g') \<Longrightarrow> status S CWD_REALPATH (rtext (c # rc)) = None \<Longrightarrow>
      P CWD_REALPATH (c # rc) ll t d g (g', None)"
    and broken: "\<And>m c rc ll t d g t' g'. c \<noteq> [] \<Longrightarrow> c \<noteq> ''.'' \<Longrightarrow> c \<noteq> ''..'' \<Longrightarrow>
      consult S m (rtext (c # rc)) t g = (t', None, g') \<Longrightarrow> status S m (rtext (c # rc)) = Some S_ISLNK \<Longrightarrow>
      link_components S ll rc (rtext (c # rc)) = None \<Longrightarrow> P m (c # rc) ll t d g (g', None)"
    and link: "\<And>m c rc ll t d g t' g' rc'. c \<noteq> [] \<Longrightarrow> c \<noteq> ''.'' \<Longrightarrow> c \<noteq> ''..'' \<Longrightarrow>
      consult S m (rtext (c # rc)) t g = (t', None, g') \<Longrightarrow> status S m (rtext (c # rc)) = Some S_ISLNK \<Longrightarrow>
      link_components S ll rc (rtext (c # rc)) = Some rc' \<Longrightarrow>
      P m rc' (ll + 1) t' d g' (resolve S m rc' (ll + 1) t' d g') \<Longrightarrow>
      P m (c # rc) ll t d g (remember True (rtext (c # rc)) t' (resolve S m rc' (ll + 1) t' d g'))"
    and notdir: "\<And>m c rc ll t g t' g'. c \<noteq> [] \<Longrightarrow> c \<noteq> ''.'' \<Longrightarrow> c \<noteq> ''..'' \<Longrightarrow>
      consult S m (rtext (c # rc)) t g = (t', None, g') \<Longrightarrow> status S m (rtext (c # rc)) = Some S_ISREG \<Longrightarrow>
      P m (c # rc) ll t True g (g', None)"
    and join: "\<And>m c rc ll t d g t' g' st m'. c \<noteq> [] \<Longrightarrow> c \<noteq> ''.'' \<Longrightarrow> c \<noteq> ''..'' \<Longrightarrow>
      consult S m (rtext (c # rc)) t g = (t', None, g') \<Longrightarrow> status S m (rtext (c # rc)) = st \<Longrightarrow> st \<noteq> Some S_ISLNK \<Longrightarrow>
      \<not> (m = CWD_REALPATH \<and> st = None) \<Longrightarrow> \<not> (st = Some S_ISREG \<and> d) \<Longrightarrow> m' = (if st \<noteq> None then CWD_FILEPATH else m) \<Longrightarrow>
      P m' rc ll t' True g' (resolve S m' rc ll t' True g') \<Longrightarrow>
      P m (c # rc) ll t d g (join_component (st \<noteq> None) c (rtext (c # rc)) (st = Some S_ISDIR) t' (resolve S m' rc ll t' True g'))"
  shows "P m rc ll t d g (resolve S m rc ll t d g)"
proof -
  have "P m rc ll t d g (resolve S' m rc ll t d g)" if "S' = S" for S'
    using that
  proof (induction S' m rc ll t d g rule: resolve.induct)
    case (1 S' m ll t d g)
    show ?case using root by simp
  next
    case (2 S' m c rc ll t d g)
    note ih = 2(1-4) and S' = 2(5)
    let ?path = "rtext (c # rc)"
    obtain t' b g' where con: "consult S m ?path t g = (t', b, g')" by (cases "consult S m ?path t g")
    define st where "st = status S m ?path"
    define m' where "m' = (if st \<noteq> None then CWD_FILEPATH else m)"
    obtain g1 r1 where r1: "resolve S m rc ll t True g = (g1, r1)" by fastforce
    consider "c = [] \<or> c = ''.''" | "c = ''..''" | b' where "c \<noteq> []" "c \<noteq> ''.''" "c \<noteq> ''..''" "b = Some b'"
      | "c \<noteq> []" "c \<noteq> ''.''" "c \<noteq> ''..''" "b = None" by (cases b) auto
    then show ?case
    proof cases
      case 1
      with skip [OF 1] ih(1) S' show ?thesis by (auto simp: resolve.simps(2))
    next
      case 2
      with up [OF r1] ih(2) S' r1 show ?thesis by (simp add: resolve.simps(2))
    next
      case 3
      with hit [OF 3(1-3)] con S' show ?thesis by (auto simp: resolve.simps(2))
    next
      case 4
      then have c: "c \<noteq> []" "c \<noteq> ''.''" "c \<noteq> ''..''" "consult S m ?path t g = (t', None, g')" using con by auto
      have eq: "resolve S m (c # rc) ll t d g =
         (if m = CWD_REALPATH \<and> st = None then (g', None)
          else if st = Some S_ISLNK then
            (case link_components S ll rc ?path of
               None \<Rightarrow> (g', None)
             | Some rc' \<Rightarrow> remember True ?path t' (resolve S m rc' (ll + 1) t' d g'))
          else if st \<noteq> None \<and> d \<and> st \<noteq> Some S_ISDIR then (g', None)
          else join_component (st \<noteq> None) c ?path (st = Some S_ISDIR) t' (resolve S m' rc ll t' True g'))"
        unfolding st_def m'_def using c by (simp add: resolve.simps(2) Let_def del: rtext_simps split del: if_split)
      have ih1: "P m rc' (ll + 1) t' d g' (resolve S m rc' (ll + 1) t' d g')"
        if "st = Some S_ISLNK" "link_components S ll rc ?path = Some rc'" for rc'
        using ih(3) [of ?path "(t', None, g')" t' "(None, g')" None g' st rc'] c that S' by (auto simp add: st_def del: rtext_simps)
      have ih2: "P m' rc ll t' True g' (resolve S m' rc ll t' True g')"
        if "\<not> (m = CWD_REALPATH \<and> st = None)" "st \<noteq> Some S_ISLNK" "\<not> (st \<noteq> None \<and> d \<and> st \<noteq> Some S_ISDIR)"
        using ih(4) [of ?path "(t', None, g')" t' "(None, g')" None g' st] c that S' by (auto simp add: st_def m'_def del: rtext_simps)
      consider "m = CWD_REALPATH" "st = None" | "st = Some S_ISLNK" "link_components S ll rc ?path = None"
        | rc' where "st = Some S_ISLNK" "link_components S ll rc ?path = Some rc'"
        | "st = Some S_ISREG" "d"
        | "\<not> (m = CWD_REALPATH \<and> st = None)" "st \<noteq> Some S_ISLNK" "\<not> (st = Some S_ISREG \<and> d)"
        by (cases "link_components S ll rc ?path") auto
      then show ?thesis
      proof cases
        case 1
        with missing [OF c(1-3)] c(4) eq st_def S' show ?thesis by auto
      next
        case 2
        with broken [OF c _ 2(2)] eq st_def S' show ?thesis by auto
      next
        case 3
        with link [OF c _ 3(2) ih1] eq st_def S' show ?thesis by auto
      next
        case 4
        with notdir [OF c] eq st_def S' show ?thesis by auto
      next
        case 5
        then have "\<not> (st \<noteq> None \<and> d \<and> st \<noteq> Some S_ISDIR)" using file_kind.exhaust by auto
        with join [OF c st_def [symmetric] 5(2,1,3) m'_def ih2] eq 5 S' show ?thesis by auto
      qed
    qed
  qed
  then show ?thesis by simp
qed

section \<open>Results are canonical\<close>

text \<open>
  Every entry of the cache holds the name of a canonical path, and an entry is in the chain of its key.
\<close>

definition cache_ok :: "virtual_cwd_globals \<Rightarrow> bool" where
  "cache_ok g \<longleftrightarrow> (\<forall>n. \<forall>b \<in> set (realpath_cache g n). \<exists>cs. canonical cs \<and> rb_realpath b = ctext cs)"

lemma cache_find_chain_set:
  "cache_find_chain ttl t P bs = (r, bs', freed) \<Longrightarrow> set bs' \<subseteq> set bs \<and> (\<forall>b. r = Some b \<longrightarrow> b \<in> set bs')"
  by (induction bs arbitrary: r bs' freed) (auto split: if_splits prod.splits)

lemma cache_ok_find:
  assumes "cache_ok g" and "realpath_cache_find path t g = (r, g')"
  shows "cache_ok g'" and "\<And>b. r = Some b \<Longrightarrow> \<exists>cs. canonical cs \<and> rb_realpath b = ctext cs"
  using assms
  by (auto simp: realpath_cache_find_def cache_ok_def Let_def split: prod.splits if_splits dest!: cache_find_chain_set)

lemma cache_ok_add: "cache_ok g \<Longrightarrow> canonical cs \<Longrightarrow> cache_ok (realpath_cache_add path (ctext cs) d t g)"
  by (auto simp: cache_ok_def realpath_cache_add_def Let_def)

lemma realpath_cache_limit [simp]:
  "realpath_cache_size_limit (realpath_cache_add path r d t g) = realpath_cache_size_limit g"
  "realpath_cache_find path t g = (b, g') \<Longrightarrow> realpath_cache_size_limit g' = realpath_cache_size_limit g"
  by (auto simp: realpath_cache_add_def realpath_cache_find_def Let_def split: prod.splits)

lemma cache_ok_consult:
  assumes "cache_ok g" and "consult S m path t g = (t', r, g')"
  shows "cache_ok g'" and "\<And>b. r = Some b \<Longrightarrow> \<exists>cs. canonical cs \<and> rb_realpath b = ctext cs"
  using assms cache_ok_find by (auto simp: consult_def Let_def split: if_splits prod.splits)

definition links_ok :: "sys \<Rightarrow> bool" where
  "links_ok S \<longleftrightarrow> (\<forall>p target. sys_readlink S p = Some target \<longrightarrow> length target < MAXPATHLEN \<and> NUL \<notin> set target)"

lemma link_components_ok:
  assumes "links_ok S" and "list_all name_ok rc" and "link_components S ll rc path = Some rc'"
  shows "list_all name_ok rc' \<and> length (rtext rc') < MAXPATHLEN \<and> rc' \<noteq> []"
proof -
  have ne: "split_sep (CHR ''/'') s \<noteq> []" for s by (subst split_sep.simps) (auto split: option.splits)
  have ok: "c \<in> set (split_sep (CHR ''/'') s) \<Longrightarrow> NUL \<notin> set s \<Longrightarrow> name_ok c" for c s
    using split_names by (auto simp: name_ok_def)
  obtain target where t: "sys_readlink S path = Some target" "length target < MAXPATHLEN" "NUL \<notin> set target"
    using assms(1,3) by (auto simp: link_components_def links_ok_def split: if_splits option.splits)
  show ?thesis
  proof (cases "IS_ABSOLUTE_PATH target")
    case True
    with assms(3) t(1) have rc': "rc' = rev (split_sep (CHR ''/'') (tl target))"
      by (auto simp: link_components_def split: if_splits)
    have "target = CHR ''/'' # tl target" using True
      by (cases target) (auto simp: IS_ABSOLUTE_PATH_def IS_SLASH_def cstr_at_def NUL_def)
    then have "rtext rc' = target" by (metis rc' rev_rev_ident rtext_def split_slashed)
    moreover have "NUL \<notin> set (tl target)" using t(3) by (cases target) auto
    ultimately show ?thesis using t(2) ok ne by (auto simp: rc' list_all_iff)
  next
    case False
    with assms(3) t(1) have rc': "rc' = rev (split_sep (CHR ''/'') target) @ rc"
      and len: "length (rtext rc) + 1 + length target < MAXPATHLEN - 1"
      by (auto simp: link_components_def split: if_splits)
    have "rtext rc' = rtext rc @ CHR ''/'' # target" by (simp add: rc' rtext_def split_slashed)
    with len t(3) assms(2) ok ne show ?thesis by (auto simp: rc' list_all_iff)
  qed
qed

lemma resolve_canonical:
  assumes "links_ok S" and "list_all name_ok rc" and "cache_ok g"
  shows "cache_ok (fst (resolve S m rc ll t d g))
    \<and> (\<forall>cs lid. snd (resolve S m rc ll t d g) = Some (cs, lid) \<longrightarrow> canonical cs)"
  using assms(2,3)
proof (induction S m rc ll t d g rule: resolve_induct)
  case (Hit m c rc ll t d g t' b g')
  note cache_ok_consult [OF Hit(6,4)]
  then show ?case by (auto simp: names_ctext)
next
  case (Missing c rc ll t d g t' g')
  then show ?case by (auto dest: cache_ok_consult)
next
  case (Broken m c rc ll t d g t' g')
  then show ?case by (auto dest: cache_ok_consult)
next
  case (Link m c rc ll t d g t' g' rc')
  have "list_all name_ok rc'" using link_components_ok [OF assms(1) _ Link(6)] Link(8) by simp
  with Link cache_ok_consult(1) [OF Link(9,4)] show ?case
    by (auto simp: remember_def cache_ok_add split: option.splits prod.splits)
next
  case (NotDir m c rc ll t g t' g')
  then show ?case by (auto dest: cache_ok_consult)
next
  case (Join m c rc ll t d g t' g' st m')
  note g' = cache_ok_consult(1) [OF Join(12,4)]
  obtain g1 r where r: "resolve S m' rc ll t' True g' = (g1, r)" by fastforce
  have c: "proper_name c" using Join(1-3,11) by (simp add: proper_name_def)
  show ?case using Join(10,11) g' r c
    by (auto simp: join_component_def remember_def not_le simp del: ctext_snoc intro!: cache_ok_add canonical_snoc split: option.splits)
qed auto

end
