(* ===== verification/Virtual_Cwd_Correct.thy ===== *)
theory Virtual_Cwd_Correct
  imports Path_Resolution
begin

text \<open>
  The resolution in the buffer refines the resolution on components: for an absolute path
  \<open>tsrm_realpath_r\<close> never leaves its buffer, ends, and computes \<open>resolve\<close>.
\<close>

section \<open>Buffers that hold a text\<close>

definition holds :: "buffer \<Rightarrow> string \<Rightarrow> bool" where
  "holds b p \<longleftrightarrow> length b = MAXPATHLEN \<and> prefix p b"

lemma holdsE:
  assumes "holds b p"
  obtains s where "b = p @ s" "length p + length s = MAXPATHLEN"
  using assms by (auto simp: holds_def prefix_def)

lemma holdsI: "length p + length s = MAXPATHLEN \<Longrightarrow> holds (p @ s) p"
  by (simp add: holds_def)

lemma holds_length: "holds b p \<Longrightarrow> length b = MAXPATHLEN \<and> length p \<le> MAXPATHLEN"
  by (auto elim: holdsE)

lemma holds_take: "holds b p \<Longrightarrow> take (length p) b = p"
  by (auto elim: holdsE)

lemma holds_append: "holds b (p @ q) \<Longrightarrow> holds b p"
  by (auto simp: holds_def dest: append_prefixD)

lemma holds_nth: "holds b p \<Longrightarrow> i < length p \<Longrightarrow> b ! i = p ! i"
  by (auto elim!: holdsE simp: nth_append)

lemma holds_put:
  assumes "holds b p" and "length p < MAXPATHLEN"
  shows "\<exists>b'. buf_put b (length p) x = Some b' \<and> holds b' (p @ [x])"
proof -
  obtain y s where "b = p @ y # s" "length p + Suc (length s) = MAXPATHLEN"
    using assms by (elim holdsE) (metis add.right_neutral length_Cons list.exhaust list.size(3) nat_neq_iff)
  then show ?thesis by (simp add: buf_put_def holds_def)
qed

lemma holds_copy:
  assumes "holds b p" and "length p + length xs \<le> MAXPATHLEN"
  shows "\<exists>b'. buf_copy b (length p) xs = Some b' \<and> holds b' (p @ xs)"
  using assms by (auto simp: holds_def buf_copy_def prefix_def)

lemma holds_copy0:
  assumes "length b = MAXPATHLEN" and "length xs \<le> MAXPATHLEN"
  shows "\<exists>b'. buf_copy b 0 xs = Some b' \<and> holds b' xs"
  using holds_copy [of b "[]" xs] assms by (simp add: holds_def)

text \<open>Overwriting a beginning.\<close>

lemma holds_overwrite:
  assumes "holds b (p @ q)" and "length xs = length p"
  shows "\<exists>b'. buf_copy b 0 xs = Some b' \<and> holds b' (xs @ q)"
proof -
  obtain s where "b = (p @ q) @ s" "length (p @ q) + length s = MAXPATHLEN" by (rule holdsE [OF assms(1)])
  with assms(2) show ?thesis by (simp add: buf_copy_def holds_def)
qed

lemma cstring_holds:
  assumes "holds b (p @ [NUL])" and "NUL \<notin> set p"
  shows "cstring b = p"
proof -
  obtain s where "b = p @ NUL # s" using assms(1) by (auto elim!: holdsE)
  moreover have "takeWhile (\<lambda>c. c \<noteq> NUL) (p @ NUL # s) = p" using assms(2) by (subst takeWhile_append2) auto
  ultimately show ?thesis by (simp add: cstring_def)
qed

lemma back_to_slash_eq:
  assumes "holds b (pre @ CHR ''/'' # c)" and "CHR ''/'' \<notin> set c" and "start \<le> length pre + 1"
  shows "back_to_slash b start (length (pre @ CHR ''/'' # c)) = length pre + 1"
  using assms
proof (induction c rule: rev_induct)
  case Nil
  then have "b ! length pre = CHR ''/''" using holds_nth [of b "pre @ ''/''" "length pre"] by simp
  then show ?case by (simp add: IS_SLASH_def)
next
  case (snoc x c)
  have "b ! Suc (length pre + length c) = x"
    using holds_nth [OF snoc(2), of "Suc (length pre + length c)"] by (simp add: nth_append)
  moreover have "holds b (pre @ CHR ''/'' # c)" using snoc(2) holds_append [of b "pre @ CHR ''/'' # c" "[x]"] by simp
  ultimately show ?case using snoc by (auto simp: IS_SLASH_def)
qed

lemma back_on_slash_eq:
  assumes "holds b (pre @ CHR ''/'' # c)" and "CHR ''/'' \<notin> set c"
  shows "back_on_slash b (Suc 0) (length pre + length c) = max (Suc 0) (length pre) \<or> pre = [] \<and> c = []"
  using assms
proof (induction c rule: rev_induct)
  case Nil
  then have "b ! length pre = CHR ''/''" using holds_nth [of b "pre @ ''/''" "length pre"] by simp
  then show ?case by (cases "length pre") (auto simp: IS_SLASH_def)
next
  case (snoc x c)
  have x: "b ! Suc (length pre + length c) = x"
    using holds_nth [OF snoc(2), of "Suc (length pre + length c)"] by (simp add: nth_append)
  have "holds b (pre @ CHR ''/'' # c)" using snoc(2) holds_append [of b "pre @ CHR ''/'' # c" "[x]"] by simp
  with snoc x show ?case by (cases "pre = [] \<and> c = []") (auto simp: IS_SLASH_def)
qed

section \<open>One pass\<close>

text \<open>The buffer holds an absolute path with these components, the last one first.\<close>

definition rc_in :: "buffer \<Rightarrow> string list \<Rightarrow> bool" where
  "rc_in b rc \<longleftrightarrow> holds b (rtext rc) \<and> length (rtext rc) < MAXPATHLEN \<and> holds b ''/'' \<and> list_all name_ok rc"

lemma rtext_NUL_free: "list_all name_ok rc \<Longrightarrow> NUL \<notin> set (rtext rc)"
  by (induction rc) (auto simp: name_ok_def NUL_def)

lemma rc_in_tl: "rc_in b (c # rc) \<Longrightarrow> rc_in b rc"
  by (auto simp: rc_in_def dest: holds_append)

lemma rc_in_last:
  assumes "rc_in b (c # rc)"
  shows "back_to_slash b 1 (length (rtext (c # rc))) = length (rtext rc) + 1"
  using assms back_to_slash_eq [of b "rtext rc" c 1] by (auto simp: rc_in_def name_ok_def)

lemma pass_root: "tsrm_pass S b 1 (length (rtext [])) ll t m d g = Some (Return (b, g, Some (1, True)))"
  by (simp add: tsrm_pass_def)

lemma pass_skip:
  assumes "rc_in b (c # rc)" and "c = [] \<or> c = ''.''"
  shows "tsrm_pass S b 1 (length (rtext (c # rc))) ll t m d g =
    (if c = [] \<and> rc = [] then Some (Return (b, g, Some (1, True))) else Some (Continue (length (rtext rc))))"
proof -
  have h: "holds b (rtext rc @ CHR ''/'' # c)" using assms(1) by (simp add: rc_in_def)
  then have "c = ''.'' \<Longrightarrow> b ! Suc (length (rtext rc)) = CHR ''.''"
    using holds_nth [OF h, of "Suc (length (rtext rc))"] by (simp add: nth_append)
  then show ?thesis
    using assms(2) rc_in_last [OF assms(1)] holds_length [OF h] by (auto simp: tsrm_pass_def Let_def)
qed

lemma pass_up:
  assumes "rc_in b (''..'' # rc)"
  shows "tsrm_pass S b 1 (length (rtext (''..'' # rc))) ll t m d g =
    (if length (rtext rc) \<le> 1 then Some (Return (b, g, Some (1, True))) else Some (Dotdot (length (rtext rc))))"
proof -
  have h: "holds b (rtext rc @ ''/..'')" using assms by (simp add: rc_in_def)
  have "b ! Suc (length (rtext rc)) = CHR ''.''" "b ! Suc (Suc (length (rtext rc))) = CHR ''.''"
    using holds_nth [OF h, of "Suc (length (rtext rc))"] holds_nth [OF h, of "Suc (Suc (length (rtext rc)))"]
    by (simp_all add: nth_append)
  then show ?thesis
    using rc_in_last [OF assms] holds_length [OF h] by (auto simp: tsrm_pass_def Let_def)
qed

lemma pass_name:
  assumes "rc_in b (c # rc)" and "c \<noteq> []" "c \<noteq> ''.''" "c \<noteq> ''..''"
  obtains b' where "holds b' (rtext (c # rc) @ [NUL])"
    "tsrm_pass S b 1 (length (rtext (c # rc))) ll t m d g
       = examine S b' 1 (length (rtext rc) + 1) (length (rtext (c # rc))) ll t m d g"
proof -
  have h: "holds b (rtext rc @ CHR ''/'' # c)" and len: "length (rtext (c # rc)) < MAXPATHLEN"
    using assms(1) by (simp_all add: rc_in_def)
  from holds_put [of b "rtext (c # rc)" NUL] h len
  obtain b' where b': "buf_put b (length (rtext (c # rc))) NUL = Some b'" "holds b' (rtext (c # rc) @ [NUL])" by auto
  define i where "i = length (rtext rc) + 1"
  define len where "len = length (rtext (c # rc))"
  have i: "back_to_slash b 1 len = i" "len = i + length c" "1 < len" "len \<le> length b"
    using rc_in_last [OF assms(1)] assms(2) holds_length [OF h] by (cases c; simp add: i_def len_def)+
  have nth: "k < length c \<Longrightarrow> b ! (i + k) = c ! k" for k
    using holds_nth [OF h, of "i + k"] by (simp add: i_def nth_append)
  have "i \<noteq> len" using assms(2) i(2) by simp
  moreover have "\<not> (i = len - 1 \<and> b ! i = CHR ''.'')"
    using assms(2,3) i(2) nth [of 0] by (cases c) auto
  moreover have "\<not> (i = len - 2 \<and> b ! i = CHR ''.'' \<and> b ! (i + 1) = CHR ''.'')"
    using assms(2-4) i(2) nth [of 0] nth [of 1] by (cases c; cases "tl c") auto
  ultimately have "tsrm_pass S b 1 len ll t m d g = examine S b' 1 i len ll t m d g"
    using i(1,3,4) b'(1) [folded len_def] by (auto simp add: tsrm_pass_def)
  then have "tsrm_pass S b 1 (length (rtext (c # rc))) ll t m d g
       = examine S b' 1 (length (rtext rc) + 1) (length (rtext (c # rc))) ll t m d g"
    by (simp only: len_def i_def)
  with b'(2) show thesis by (rule that)
qed

lemma pass_name_file:
  assumes "holds b' (rtext rc @ [NUL])" and "list_all name_ok rc"
  shows "take (length (rtext rc)) b' = rtext rc" and "cstring b' = rtext rc"
    and "take (length (rtext rc) + 1) b' = rtext rc @ [NUL]" and "cstring (rtext rc @ [NUL]) = rtext rc"
proof -
  have n: "NUL \<notin> set (rtext rc)" using rtext_NUL_free [OF assms(2)] .
  show "take (length (rtext rc)) b' = rtext rc" using holds_take [OF holds_append [OF assms(1)]] .
  show "cstring b' = rtext rc" by (rule cstring_holds [OF assms(1) n])
  show "take (length (rtext rc) + 1) b' = rtext rc @ [NUL]" using holds_take [OF assms(1)] by simp
  show "cstring (rtext rc @ [NUL]) = rtext rc"
    using n by (simp add: cstring_def) (subst takeWhile_append2; auto)
qed

text \<open>The outcome of the code, written over the outcome on components.\<close>

definition in_buffer :: "(string list \<times> bool) option \<Rightarrow> (nat \<times> bool) option" where
  "in_buffer = map_option (\<lambda>(cs, d). (length (ctext cs), d))"

definition result_in :: "buffer \<Rightarrow> (string list \<times> bool) option \<Rightarrow> bool" where
  "result_in b r \<longleftrightarrow> length b = MAXPATHLEN \<and> (\<forall>cs d. r = Some (cs, d) \<longrightarrow> holds b (ctext cs))"

definition refines :: "resolution option \<Rightarrow> virtual_cwd_globals \<times> (string list \<times> bool) option \<Rightarrow> bool" where
  "refines x R \<longleftrightarrow> (\<exists>b. x = Some (b, fst R, in_buffer (snd R)) \<and> result_in b (snd R))"

lemma refines_None: "length b = MAXPATHLEN \<Longrightarrow> refines (Some (b, g, None)) (g, None)"
  by (simp add: refines_def in_buffer_def result_in_def)

lemma refines_add_to_cache:
  assumes "refines (Some x) R" and "directory = (case snd R of None \<Rightarrow> directory | Some (_, d) \<Rightarrow> d)"
  shows "refines (Some (add_to_cache save 1 (p @ [NUL]) (length p) directory t x)) (remember save p t R)"
  using assms
  by (auto simp: refines_def add_to_cache_def remember_def in_buffer_def result_in_def holds_take split: option.splits prod.splits)

lemma append_component_refines:
  assumes "holds b (slashed cs @ ''/'')"
  shows "refines (append_component b g (length (slashed cs) + 1) (pre @ c @ [NUL]) (length pre) (length pre + length c) directory)
    (if MAXPATHLEN - 1 \<le> length (ctext (cs @ [c])) then (g, None) else (g, Some (cs @ [c], directory)))"
proof (cases "MAXPATHLEN - 1 \<le> length (ctext (cs @ [c]))")
  case True
  with holds_length [OF assms(1)] show ?thesis by (simp add: append_component_def refines_None)
next
  case False
  then have "length (slashed cs @ ''/'') + length (c @ [NUL]) \<le> MAXPATHLEN" by (simp add: MAXPATHLEN_def)
  from holds_copy [OF assms(1) this] obtain b' where
    "buf_copy b (length (slashed cs @ ''/'')) (c @ [NUL]) = Some b'" "holds b' ((slashed cs @ ''/'') @ c @ [NUL])" by blast
  then have "buf_copy b (Suc (length (slashed cs))) (c @ [NUL]) = Some b'" "holds b' (ctext (cs @ [c]))"
    using holds_append [of b' "slashed cs @ CHR ''/'' # c" "[NUL]"] by simp_all
  with False holds_length [of b' "ctext (cs @ [c])"] show ?thesis
    by (simp add: append_component_def refines_def in_buffer_def result_in_def)
qed

lemma canonical_ctext:
  assumes "canonical cs" "cs \<noteq> []"
  shows "ctext cs = slashed cs" "1 < length (slashed cs)" "length (slashed cs) < MAXPATHLEN - 1"
  using assms by (cases cs; auto simp: ctext_def canonical_def proper_name_def)+

lemma leading_slash:
  assumes "holds b (ctext cs)" and "canonical cs"
  shows "\<exists>b'. (if 1 < length (ctext cs) then do { path \<leftarrow> buf_put b (length (ctext cs)) (CHR ''/''); Some (path, length (ctext cs) + 1) }
      else Some (b, length (ctext cs))) = Some (b', length (slashed cs) + 1) \<and> holds b' (slashed cs @ ''/'')"
proof (cases "cs = []")
  case True
  with assms show ?thesis by (simp add: ctext_def)
next
  case False
  note c = canonical_ctext [OF assms(2) False]
  have "length (ctext cs) < MAXPATHLEN" using c by simp
  from holds_put [OF assms(1) this, of "CHR ''/''"] c show ?thesis by auto
qed

lemma after_leading_refines:
  assumes "refines (Some x) R" and "\<And>cs d. snd R = Some (cs, d) \<Longrightarrow> canonical cs"
  shows "refines (after_leading 1 (length pre) (length pre + length c) save directory (pre @ c @ [NUL]) t x)
    (join_component save c (pre @ c) directory t R)"
proof (cases "snd R")
  case None
  with assms show ?thesis
    by (auto simp: refines_def after_leading_def join_component_def in_buffer_def split: prod.splits)
next
  case (Some r)
  obtain cs d where r: "r = (cs, d)" by (cases r)
  from assms(1) Some r obtain b where x: "x = (b, fst R, Some (length (ctext cs), d))" "holds b (ctext cs)"
    by (auto simp: refines_def in_buffer_def result_in_def)
  from leading_slash [OF x(2)] assms(2) Some r obtain b' where
    b': "(if 1 < length (ctext cs) then do { path \<leftarrow> buf_put b (length (ctext cs)) (CHR ''/''); Some (path, length (ctext cs) + 1) }
      else Some (b, length (ctext cs))) = Some (b', length (slashed cs) + 1)" "holds b' (slashed cs @ ''/'')" by blast
  let ?R = "if MAXPATHLEN - 1 \<le> length (ctext (cs @ [c])) then (fst R, None) else (fst R, Some (cs @ [c], directory))"
  from append_component_refines [OF b'(2), of "fst R" pre c directory]
  obtain y where y: "append_component b' (fst R) (length (slashed cs) + 1) (pre @ c @ [NUL]) (length pre) (length pre + length c) directory = Some y"
    "refines (Some y) ?R" by (auto simp: refines_def)
  have "after_leading 1 (length pre) (length pre + length c) save directory (pre @ c @ [NUL]) t x =
      Some (add_to_cache save 1 ((pre @ c) @ [NUL]) (length (pre @ c)) directory t y)"
    using b'(1) y(1) by (simp add: after_leading_def x(1) cong: if_cong)
  moreover have "join_component save c (pre @ c) directory t R = remember save (pre @ c) t ?R"
    using Some r by (cases R) (simp add: join_component_def remember_def)
  ultimately show ?thesis using refines_add_to_cache [OF y(2), of directory save "pre @ c" t] by simp
qed

lemma after_dotdot_refines:
  assumes "refines (Some x) (g, r)" and "\<And>cs d. r = Some (cs, d) \<Longrightarrow> canonical cs"
  shows "refines (after_dotdot 1 x) (g, map_option (\<lambda>(cs, _). (butlast cs, True)) r)"
proof (cases r)
  case None
  with assms show ?thesis by (auto simp: refines_def after_dotdot_def in_buffer_def result_in_def)
next
  case (Some r')
  obtain cs d where r: "r = Some (cs, d)" using Some by (cases r') auto
  from assms(1) r obtain b where x: "x = (b, g, Some (length (ctext cs), d))" "holds b (ctext cs)"
    by (auto simp: refines_def in_buffer_def result_in_def)
  have can: "canonical cs" using assms(2) r by blast
  show ?thesis
  proof (cases cs rule: rev_cases)
    case Nil
    with x r show ?thesis
      by (auto simp: after_dotdot_def remove_parent_def refines_def in_buffer_def result_in_def ctext_def dest: holds_length)
  next
    case (snoc cs' c)
    have c: "proper_name c" using canonicalD [OF can] snoc by simp
    have h: "holds b (slashed cs' @ CHR ''/'' # c)" using x(2) snoc by simp
    have len: "length (ctext cs) = length (slashed cs') + 1 + length c" "1 \<le> length c"
      using snoc c by (auto simp: proper_name_def Suc_le_eq)
    have "back_on_slash b 1 (length (slashed cs') + length c) = max 1 (length (slashed cs'))"
      using back_on_slash_eq [OF h] c by (auto simp: proper_name_def name_ok_def)
    also have "\<dots> = length (ctext cs')" by (cases cs') (auto simp: ctext_def)
    finally have "remove_parent b 1 (length (ctext cs)) = Some (b, length (ctext cs'))"
      using len holds_length [OF h] by (auto simp: remove_parent_def)
    moreover have "holds b (ctext cs')"
      using h holds_append [of b "''/''" c] by (cases "cs' = []") (auto simp: ctext_def dest: holds_append)
    ultimately show ?thesis using holds_length [OF h]
      by (simp add: after_dotdot_def refines_def in_buffer_def result_in_def x(1) r snoc)
  qed
qed

section \<open>The code computes the resolution of the components\<close>

text \<open>The text after reading a link, and after moving a relative target behind its directory.\<close>

lemma link_target_holds:
  assumes "length b = MAXPATHLEN" and "length target < MAXPATHLEN"
  obtains b1 b2 where "buf_copy b 0 target = Some b1" "buf_put b1 (length target) NUL = Some b2"
    "holds b2 (target @ [NUL])" "IS_ABSOLUTE_PATH b2 \<longleftrightarrow> IS_ABSOLUTE_PATH target"
proof -
  from holds_copy0 [OF assms(1), of target] assms(2) obtain b1 where b1: "buf_copy b 0 target = Some b1" "holds b1 target" by auto
  from holds_put [OF b1(2) assms(2), of NUL] obtain b2 where
    b2: "buf_put b1 (length target) NUL = Some b2" "holds b2 (target @ [NUL])" by auto
  have "IS_ABSOLUTE_PATH b2 \<longleftrightarrow> IS_ABSOLUTE_PATH target"
    using b2(2) by (cases target) (auto elim!: holdsE simp: IS_ABSOLUTE_PATH_def cstr_at_def)
  with b1(1) b2 that show thesis by blast
qed

lemma relative_target_holds:
  assumes "holds b (target @ [NUL])" and "length pre + 1 + length target < MAXPATHLEN - 1"
  obtains b1 b2 b3 where "buf_copy b (length pre + 1) (take (length target + 1) b) = Some b1"
    "buf_copy b1 0 pre = Some b2" "buf_put b2 (length pre) (CHR ''/'') = Some b3"
    "holds b3 (pre @ CHR ''/'' # target)"
proof -
  have tk: "take (length target + 1) b = target @ [NUL]" using holds_take [OF assms(1)] by simp
  have len: "length b = MAXPATHLEN" using holds_length [OF assms(1)] by simp
  have fits: "length pre + 1 + (length target + 1) \<le> MAXPATHLEN" using assms(2) by (simp add: MAXPATHLEN_def)
  have "holds b (take (length pre + 1) b)" using len by (simp add: holds_def take_is_prefix)
  from holds_copy [OF this, of "target @ [NUL]"] fits len obtain b1 where
    b1: "buf_copy b (length pre + 1) (target @ [NUL]) = Some b1" "holds b1 (take (length pre + 1) b @ target @ [NUL])" by auto
  have "take (length pre + 1) b = take (length pre) b @ [b ! length pre]"
    using assms(2) len by (simp add: take_Suc_conv_app_nth)
  with b1(2) have "holds b1 (take (length pre) b @ [b ! length pre] @ target @ [NUL])" by simp
  from holds_overwrite [OF this, of pre] assms(2) len obtain b2 where
    b2: "buf_copy b1 0 pre = Some b2" "holds b2 (pre @ [b ! length pre] @ target @ [NUL])" by auto
  obtain s where s: "b2 = (pre @ [b ! length pre] @ target @ [NUL]) @ s"
    "length (pre @ [b ! length pre] @ target @ [NUL]) + length s = MAXPATHLEN" by (rule holdsE [OF b2(2)])
  then have "buf_put b2 (length pre) (CHR ''/'') = Some ((pre @ CHR ''/'' # target) @ NUL # s)"
    by (simp add: buf_put_def)
  moreover have "holds ((pre @ CHR ''/'' # target) @ NUL # s) (pre @ CHR ''/'' # target)"
    using s(2) by (intro holdsI) simp
  ultimately show thesis using b1(1) b2(1) tk that by metis
qed

lemma follow_link_eq:
  assumes b: "holds b (rtext (c # rc) @ [NUL])" and ok: "list_all name_ok (c # rc)" and "links_ok S"
  shows "case link_components S ll rc (rtext (c # rc)) of
      None \<Rightarrow> \<exists>b'. follow_link S b 1 (length (rtext rc) + 1) (length (rtext (c # rc))) ll t g = Some (Return (b', g, None))
        \<and> length b' = MAXPATHLEN
    | Some rc' \<Rightarrow> \<exists>b'. follow_link S b 1 (length (rtext rc) + 1) (length (rtext (c # rc))) ll t g
        = Some (Follow b' 1 (length (rtext rc')) (rtext (c # rc) @ [NUL]) t g) \<and> rc_in b' rc'"
proof -
  note buf = pass_name_file [OF b ok]
  have len: "length b = MAXPATHLEN" using holds_length [OF b] by simp
  let ?path = "rtext (c # rc)"
  show ?thesis
  proof (cases "LINK_MAX < ll + 1 \<or> sys_readlink S ?path = None")
    case True
    then show ?thesis using len buf by (auto simp: link_components_def follow_link_def Let_def simp del: rtext_simps)
  next
    case False
    then obtain target where t: "sys_readlink S ?path = Some target" "\<not> LINK_MAX < ll + 1" by auto
    with assms(3) have tl: "length target < MAXPATHLEN" "NUL \<notin> set target" by (auto simp: links_ok_def)
    obtain b1 b2 where b2: "buf_copy b 0 target = Some b1" "buf_put b1 (length target) NUL = Some b2"
      "holds b2 (target @ [NUL])" "IS_ABSOLUTE_PATH b2 \<longleftrightarrow> IS_ABSOLUTE_PATH target"
      by (rule link_target_holds [OF len tl(1)])
    have l2: "length b2 = MAXPATHLEN" using holds_length [OF b2(3)] by simp
    let ?n = "length (rtext rc)"
    have eq: "follow_link S b 1 (?n + 1) (length ?path) ll t g =
        (if IS_ABSOLUTE_PATH target then Some (Follow b2 1 (length target) (?path @ [NUL]) t g)
         else if MAXPATHLEN - 1 \<le> ?n + 1 + length target then Some (Return (b2, g, None))
         else do {
            path \<leftarrow> buf_copy b2 (?n + 1) (take (length target + 1) b2);
            path \<leftarrow> buf_copy path 0 (take ?n (?path @ [NUL]));
            path \<leftarrow> buf_put path ?n (CHR ''/'');
            Some (Follow path 1 (?n + 1 + length target) (?path @ [NUL]) t g) })"
      using t tl(1) b2 buf by (simp add: follow_link_def Let_def min_def del: rtext_simps)
    show ?thesis
    proof (cases "link_components S ll rc ?path")
      case None
      with t eq l2 show ?thesis by (auto simp: link_components_def split: if_splits)
    next
      case (Some rc')
      note ok' = link_components_ok [OF assms(3) _ Some]
      show ?thesis
      proof (cases "IS_ABSOLUTE_PATH target")
        case True
        then have "rc' = rev (split_sep (CHR ''/'') (tl target))" "target = CHR ''/'' # tl target"
          using Some t by (cases target; auto simp: link_components_def IS_ABSOLUTE_PATH_def IS_SLASH_def cstr_at_def NUL_def)+
        then have r: "rtext rc' = target" by (metis rev_rev_ident rtext_def split_slashed)
        have "holds b2 ''/''" using b2(3) \<open>target = _\<close> holds_append [of b2 "''/''" "tl target @ [NUL]"] by (metis append_Cons append_Nil)
        then have "rc_in b2 rc'" using ok ok' r tl(1) holds_append [OF b2(3)] by (simp add: rc_in_def)
        with Some True eq r show ?thesis by simp
      next
        case False
        have l: "?n + 1 + length target < MAXPATHLEN - 1" and "rc' = rev (split_sep (CHR ''/'') target) @ rc"
          using Some t False by (auto simp: link_components_def split: if_splits)
        then have r: "rtext rc' = rtext rc @ CHR ''/'' # target" by (simp add: rtext_def split_slashed)
        obtain b3 b4 b5 where b5: "buf_copy b2 (?n + 1) (take (length target + 1) b2) = Some b3"
          "buf_copy b3 0 (rtext rc) = Some b4" "buf_put b4 ?n (CHR ''/'') = Some b5" "holds b5 (rtext rc @ CHR ''/'' # target)"
          by (rule relative_target_holds [OF b2(3) l])
        have "holds b5 ''/''"
          using b5(4) holds_append [of b5 "''/''"] by (cases "rev rc") (auto simp: rtext_def)
        then have "rc_in b5 rc'" using ok ok' r b5(4) by (simp add: rc_in_def)
        with Some False eq r b5 l show ?thesis by simp
      qed
    qed
  qed
qed

lemma examine_eq:
  assumes "holds b (rtext (c # rc) @ [NUL])" and "list_all name_ok (c # rc)"
    and "consult S m (rtext (c # rc)) t g = (t', bucket, g')" and "i = length (rtext rc) + 1" "len = length (rtext (c # rc))"
  shows "examine S b 1 i len ll t m d g =
    (case bucket of
       Some bk \<Rightarrow>
         if d \<and> \<not> rb_is_dir bk then Some (Return (b, g', None))
         else do {
           b \<leftarrow> buf_copy b 0 (rb_realpath bk @ [NUL]);
           Some (Return (b, g', Some (length (rb_realpath bk), rb_is_dir bk))) }
     | None \<Rightarrow>
         (let st = status S m (rtext (c # rc)) in
          if m = CWD_REALPATH \<and> st = None then Some (Return (b, g', None))
          else if st = Some S_ISLNK then follow_link S b 1 i len ll t' g'
          else if st \<noteq> None \<and> d \<and> st \<noteq> Some S_ISDIR then Some (Return (b, g', None))
          else if length (rtext rc) \<le> 1 then
            map_option Return (after_leading 1 i len (st \<noteq> None) (st = Some S_ISDIR) (rtext (c # rc) @ [NUL]) t' (b, g', Some (1, True)))
          else Some (Leading b (length (rtext rc)) (if st \<noteq> None then CWD_FILEPATH else m) (st \<noteq> None) (st = Some S_ISDIR)
            (rtext (c # rc) @ [NUL]) i t' g')))"
proof -
  note buf = pass_name_file [OF assms(1,2)]
  let ?cached = "m \<noteq> CWD_EXPAND \<and> realpath_cache_size_limit g \<noteq> 0"
  have con: "(if ?cached \<and> t = 0 then sys_time S else t) = t'"
    "(if ?cached then realpath_cache_find (rtext (c # rc)) t' g else (None, g)) = (bucket, g')"
    using assms(3) by (auto simp: consult_def Let_def split: if_splits)
  have lead: "map_option Return (after_leading 1 i len save directory tmp t' (b, g', Some (1, True)))
      = append_component b g' 1 tmp i len directory \<bind>
          (\<lambda>r. Some (Return (add_to_cache save 1 tmp len directory t' r)))" for save directory tmp
    by (cases "append_component b g' 1 tmp i len directory") (auto simp: after_leading_def)
  have "examine S b 1 i len ll t m d g = (case (bucket, g') of (bucket, g') \<Rightarrow> case bucket of
       Some bk \<Rightarrow>
         if d \<and> \<not> rb_is_dir bk then Some (Return (b, g', None))
         else do {
           b \<leftarrow> buf_copy b 0 (rb_realpath bk @ [NUL]);
           Some (Return (b, g', Some (length (rb_realpath bk), rb_is_dir bk))) }
     | None \<Rightarrow>
         (let st = (if m \<noteq> CWD_EXPAND then sys_lstat S (rtext (c # rc)) else None); tmp = rtext (c # rc) @ [NUL] in
          if m \<noteq> CWD_EXPAND \<and> st = None \<and> m = CWD_REALPATH then Some (Return (b, g', None))
          else if st = Some S_ISLNK then follow_link S b 1 i len ll t' g'
          else
            (let save = (st \<noteq> None); directory = (st = Some S_ISDIR) in
             if save \<and> d \<and> \<not> directory then Some (Return (b, g', None))
             else if i - 1 \<le> 1 then do {
               r \<leftarrow> append_component b g' 1 tmp i len directory;
               Some (Return (add_to_cache save 1 tmp len directory t' r)) }
             else Some (Leading b (i - 1) (if save then CWD_FILEPATH else m) save directory tmp i t' g'))))"
    unfolding examine_def Let_def assms(5) buf(1-3) by (simp only: one_neq_zero not_False_eq_True simp_thms con prod.case)
  then show ?thesis
    unfolding Let_def prod.case status_def lead unfolding assms(4) by (cases bucket) auto
qed

lemma r_pass:
  "tsrm_pass S b start len ll t m d g = Some (Return r) \<Longrightarrow> tsrm_realpath_r S b start len ll t m d g = Some r"
  "tsrm_pass S b start len ll t m d g = Some (Continue l) \<Longrightarrow>
     tsrm_realpath_r S b start len ll t m d g = tsrm_realpath_r S b start l ll t m True g"
  "tsrm_pass S b start len ll t m d g = Some (Dotdot l) \<Longrightarrow>
     tsrm_realpath_r S b start len ll t m d g = tsrm_realpath_r S b start l ll t m True g \<bind> after_dotdot start"
  "tsrm_pass S b start len ll t m d g = Some (Follow b' start' l tmp t' g') \<Longrightarrow>
     tsrm_realpath_r S b start len ll t m d g =
       map_option (\<lambda>r. add_to_cache True start tmp len (written_is_dir r) t' r) (tsrm_realpath_r S b' start' l (ll + 1) t' m d g')"
  "tsrm_pass S b start len ll t m d g = Some (Leading b' l m' save directory tmp i t' g') \<Longrightarrow>
     tsrm_realpath_r S b start len ll t m d g =
       tsrm_realpath_r S b' start l ll t' m' True g' \<bind> after_leading start i len save directory tmp t'"
  by (simp_all add: tsrm_realpath_r.simps [of S b])

lemma refines_root: "holds b ''/'' \<Longrightarrow> refines (Some (b, g, Some (1, True))) (g, Some ([], True))"
  by (auto simp: refines_def in_buffer_def result_in_def ctext_def dest: holds_length)

lemma refines_Some: "refines x R \<Longrightarrow> \<exists>y. x = Some y \<and> refines (Some y) R"
  by (auto simp: refines_def)

lemma short_rc: "list_all name_ok rc \<Longrightarrow> length (rtext rc) \<le> 1 \<Longrightarrow> resolve S m rc ll t d g = (g, Some ([], True))"
  by (cases rc; cases "tl rc") (auto simp: resolve.simps(2))

abbreviation code :: "sys \<Rightarrow> buffer \<Rightarrow> cwd_mode \<Rightarrow> string list \<Rightarrow> nat \<Rightarrow> int \<Rightarrow> bool \<Rightarrow> virtual_cwd_globals \<Rightarrow> resolution option" where
  "code S b m rc ll t d g \<equiv> tsrm_realpath_r S b 1 (length (rtext rc)) ll t m d g"

lemma refines_skip:
  assumes "rc_in b (c # rc)" "c = [] \<or> c = ''.''" and "refines (code S b m rc ll t True g) (resolve S m rc ll t True g)"
  shows "refines (code S b m (c # rc) ll t d g) (resolve S m rc ll t True g)"
proof (cases "c = [] \<and> rc = []")
  case True
  with pass_skip [OF assms(1,2), of S ll t m d g] r_pass(1) [of S b] refines_root [of b g] assms(1)
  show ?thesis by (simp add: rc_in_def)
next
  case False
  with pass_skip [OF assms(1,2), of S ll t m d g] r_pass(2) [of S b] assms(3) show ?thesis by simp
qed

lemma refines_up:
  assumes "links_ok S" "cache_ok g" "rc_in b (''..'' # rc)" "resolve S m rc ll t True g = (g', r)"
    and "refines (code S b m rc ll t True g) (g', r)"
  shows "refines (code S b m (''..'' # rc) ll t d g) (g', map_option (\<lambda>(cs, _). (butlast cs, True)) r)"
proof -
  note pu = pass_up [OF assms(3), of S ll t m d g]
  have ok: "list_all name_ok rc" using assms(3) by (simp add: rc_in_def)
  show ?thesis
  proof (cases "length (rtext rc) \<le> 1")
    case True
    with assms(4) short_rc [OF ok True] have "g' = g" "r = Some ([], True)" by auto
    with True pu r_pass(1) [of S b] refines_root [of b g] assms(3) show ?thesis by (simp add: rc_in_def)
  next
    case False
    from refines_Some [OF assms(5)] obtain y where
      y: "code S b m rc ll t True g = Some y" "refines (Some y) (g', r)" by blast
    have "canonical cs" if "r = Some (cs, e)" for cs e
      using resolve_canonical [OF assms(1) ok assms(2), of m ll t True] assms(4) that by simp
    with False pu y after_dotdot_refines [OF y(2)] show ?thesis by (simp add: r_pass(3))
  qed
qed

text \<open>What \<open>examine\<close> sees of a proper name.\<close>

lemma code_name:
  assumes "rc_in b (c # rc)" "c \<noteq> []" "c \<noteq> ''.''" "c \<noteq> ''..''" and "consult S m (rtext (c # rc)) t g = (t', bucket, g')"
  obtains b' where "holds b' (rtext (c # rc) @ [NUL])" "list_all name_ok (c # rc)" "length b' = MAXPATHLEN"
    "tsrm_pass S b 1 (length (rtext (c # rc))) ll t m d g =
      (case bucket of
         Some bk \<Rightarrow>
           if d \<and> \<not> rb_is_dir bk then Some (Return (b', g', None))
           else do {
             b \<leftarrow> buf_copy b' 0 (rb_realpath bk @ [NUL]);
             Some (Return (b, g', Some (length (rb_realpath bk), rb_is_dir bk))) }
       | None \<Rightarrow>
           (let st = status S m (rtext (c # rc)) in
            if m = CWD_REALPATH \<and> st = None then Some (Return (b', g', None))
            else if st = Some S_ISLNK then follow_link S b' 1 (length (rtext rc) + 1) (length (rtext (c # rc))) ll t' g'
            else if st \<noteq> None \<and> d \<and> st \<noteq> Some S_ISDIR then Some (Return (b', g', None))
            else if length (rtext rc) \<le> 1 then
              map_option Return (after_leading 1 (length (rtext rc) + 1) (length (rtext (c # rc))) (st \<noteq> None) (st = Some S_ISDIR)
                (rtext (c # rc) @ [NUL]) t' (b', g', Some (1, True)))
            else Some (Leading b' (length (rtext rc)) (if st \<noteq> None then CWD_FILEPATH else m) (st \<noteq> None) (st = Some S_ISDIR)
              (rtext (c # rc) @ [NUL]) (length (rtext rc) + 1) t' g')))"
proof -
  obtain b' where b': "holds b' (rtext (c # rc) @ [NUL])"
    "tsrm_pass S b 1 (length (rtext (c # rc))) ll t m d g
       = examine S b' 1 (length (rtext rc) + 1) (length (rtext (c # rc))) ll t m d g"
    by (rule pass_name [OF assms(1-4)])
  have ok: "list_all name_ok (c # rc)" using assms(1) by (simp add: rc_in_def)
  show thesis
    by (rule that [OF b'(1) ok _ b'(2) [unfolded examine_eq [OF b'(1) ok assms(5) refl refl]]])
       (use holds_length [OF b'(1)] in simp)
qed

lemma refines_hit:
  assumes "cache_ok g" "rc_in b (c # rc)" "c \<noteq> []" "c \<noteq> ''.''" "c \<noteq> ''..''"
    and "consult S m (rtext (c # rc)) t g = (t', Some bk, g')"
  shows "refines (code S b m (c # rc) ll t d g)
    (g', if d \<and> \<not> rb_is_dir bk then None else Some (names (rb_realpath bk), rb_is_dir bk))"
proof -
  obtain b' where len: "length b' = MAXPATHLEN" and ps: "tsrm_pass S b 1 (length (rtext (c # rc))) ll t m d g =
      (if d \<and> \<not> rb_is_dir bk then Some (Return (b', g', None))
           else do {
             b \<leftarrow> buf_copy b' 0 (rb_realpath bk @ [NUL]);
             Some (Return (b, g', Some (length (rb_realpath bk), rb_is_dir bk))) })"
    by (rule code_name [OF assms(2-6), of ll d]) simp
  obtain cs where cs: "canonical cs" "rb_realpath bk = ctext cs" using cache_ok_consult(2) [OF assms(1,6)] by blast
  then have "length (ctext cs @ [NUL]) \<le> MAXPATHLEN" by (auto simp: canonical_def)
  from holds_copy0 [OF len this] obtain b'' where
    b'': "buf_copy b' 0 (ctext cs @ [NUL]) = Some b''" "holds b'' (ctext cs @ [NUL])" by blast
  show ?thesis
  proof (cases "d \<and> \<not> rb_is_dir bk")
    case True
    with ps r_pass(1) [of S b] refines_None [OF len] show ?thesis by simp
  next
    case False
    with ps b''(1) cs(2) have "tsrm_pass S b 1 (length (rtext (c # rc))) ll t m d g
        = Some (Return (b'', g', Some (length (ctext cs), rb_is_dir bk)))" by simp
    from r_pass(1) [OF this] False cs holds_append [OF b''(2)] holds_length [OF b''(2)] show ?thesis
      by (simp add: refines_def in_buffer_def result_in_def names_ctext)
  qed
qed

lemma refines_stop:
  assumes "links_ok S" "rc_in b (c # rc)" "c \<noteq> []" "c \<noteq> ''.''" "c \<noteq> ''..''"
    and "consult S m (rtext (c # rc)) t g = (t', None, g')"
    and "m = CWD_REALPATH \<and> status S m (rtext (c # rc)) = None
      \<or> status S m (rtext (c # rc)) = Some S_ISLNK \<and> link_components S ll rc (rtext (c # rc)) = None
      \<or> status S m (rtext (c # rc)) = Some S_ISREG \<and> d"
  shows "refines (code S b m (c # rc) ll t d g) (g', None)"
proof -
  obtain b' where b': "holds b' (rtext (c # rc) @ [NUL])" "list_all name_ok (c # rc)" "length b' = MAXPATHLEN"
    and ps: "tsrm_pass S b 1 (length (rtext (c # rc))) ll t m d g =
      (if status S m (rtext (c # rc)) = Some S_ISLNK
       then follow_link S b' 1 (length (rtext rc) + 1) (length (rtext (c # rc))) ll t' g'
       else Some (Return (b', g', None)))"
    using assms(7) by (auto intro: code_name [OF assms(2-6), of ll d])
  have "\<exists>b''. tsrm_pass S b 1 (length (rtext (c # rc))) ll t m d g = Some (Return (b'', g', None)) \<and> length b'' = MAXPATHLEN"
    using assms(7) ps b'(3) follow_link_eq [OF b'(1,2) assms(1), of ll t' g'] by auto
  then show ?thesis using r_pass(1) [of S b] refines_None by auto
qed

lemma refines_link:
  assumes "links_ok S" "rc_in b (c # rc)" "c \<noteq> []" "c \<noteq> ''.''" "c \<noteq> ''..''"
    and "consult S m (rtext (c # rc)) t g = (t', None, g')" "status S m (rtext (c # rc)) = Some S_ISLNK"
    and "link_components S ll rc (rtext (c # rc)) = Some rc'"
    and ih: "\<And>b. rc_in b rc' \<Longrightarrow> refines (code S b m rc' (ll + 1) t' d g') (resolve S m rc' (ll + 1) t' d g')"
  shows "refines (code S b m (c # rc) ll t d g) (remember True (rtext (c # rc)) t' (resolve S m rc' (ll + 1) t' d g'))"
proof -
  obtain b' where b': "holds b' (rtext (c # rc) @ [NUL])" "list_all name_ok (c # rc)"
    and ps: "tsrm_pass S b 1 (length (rtext (c # rc))) ll t m d g
      = follow_link S b' 1 (length (rtext rc) + 1) (length (rtext (c # rc))) ll t' g'"
    using assms(7) by (auto intro: code_name [OF assms(2-6), of ll d])
  from follow_link_eq [OF b' assms(1), of ll t' g'] assms(8) obtain b'' where
    b'': "tsrm_pass S b 1 (length (rtext (c # rc))) ll t m d g
      = Some (Follow b'' 1 (length (rtext rc')) (rtext (c # rc) @ [NUL]) t' g')" "rc_in b'' rc'"
    using ps by (auto simp del: rtext_simps)
  from refines_Some [OF ih [OF b''(2)]] obtain y where
    y: "code S b'' m rc' (ll + 1) t' d g' = Some y" "refines (Some y) (resolve S m rc' (ll + 1) t' d g')" by blast
  have "written_is_dir y = (case snd (resolve S m rc' (ll + 1) t' d g') of None \<Rightarrow> written_is_dir y | Some (_, d) \<Rightarrow> d)"
    using y(2) by (auto simp: refines_def written_is_dir_def in_buffer_def split: option.splits)
  from refines_add_to_cache [OF y(2) this, of True "rtext (c # rc)" t'] r_pass(4) [OF b''(1)] y(1) show ?thesis
    by (simp del: rtext_simps)
qed

lemma refines_join:
  assumes "links_ok S" "cache_ok g" "rc_in b (c # rc)" "c \<noteq> []" "c \<noteq> ''.''" "c \<noteq> ''..''"
    and "consult S m (rtext (c # rc)) t g = (t', None, g')" "status S m (rtext (c # rc)) = st" "st \<noteq> Some S_ISLNK"
    and "\<not> (m = CWD_REALPATH \<and> st = None)" "\<not> (st = Some S_ISREG \<and> d)" "m' = (if st \<noteq> None then CWD_FILEPATH else m)"
    and ih: "\<And>b. rc_in b rc \<Longrightarrow> refines (code S b m' rc ll t' True g') (resolve S m' rc ll t' True g')"
  shows "refines (code S b m (c # rc) ll t d g)
    (join_component (st \<noteq> None) c (rtext (c # rc)) (st = Some S_ISDIR) t' (resolve S m' rc ll t' True g'))"
proof -
  have st: "\<not> (st \<noteq> None \<and> d \<and> st \<noteq> Some S_ISDIR)" using assms(9,11) file_kind.exhaust by auto
  let ?after = "after_leading 1 (length (rtext rc) + 1) (length (rtext (c # rc))) (st \<noteq> None) (st = Some S_ISDIR) (rtext (c # rc) @ [NUL]) t'"
  obtain b' where b': "holds b' (rtext (c # rc) @ [NUL])" "list_all name_ok (c # rc)"
    and ps: "tsrm_pass S b 1 (length (rtext (c # rc))) ll t m d g
      = (if length (rtext rc) \<le> 1 then map_option Return (?after (b', g', Some (1, True)))
         else Some (Leading b' (length (rtext rc)) m' (st \<noteq> None) (st = Some S_ISDIR)
              (rtext (c # rc) @ [NUL]) (length (rtext rc) + 1) t' g'))"
    using st assms(8-12) by (auto intro: code_name [OF assms(3-7), of ll d])
  have g': "cache_ok g'" by (rule cache_ok_consult(1) [OF assms(2,7)])
  have slash: "holds b' ''/''" using b'(1) holds_append [of b' "''/''"] by (cases "rev rc") (auto simp: rtext_def)
  have can: "canonical cs" if "snd (resolve S m' rc ll t' True g') = Some (cs, e)" for cs e
    using resolve_canonical [OF assms(1) _ g', of rc m' ll t' True] b'(2) that by simp
  have after: "refines (?after y) (join_component (st \<noteq> None) c (rtext (c # rc)) (st = Some S_ISDIR) t' R)"
    if "refines (Some y) R" "\<And>cs e. snd R = Some (cs, e) \<Longrightarrow> canonical cs" for y R
    using after_leading_refines [OF that, where pre = "rtext rc @ ''/''" and c = c] by simp
  show ?thesis
  proof (cases "length (rtext rc) \<le> 1")
    case True
    have r: "resolve S m' rc ll t' True g' = (g', Some ([], True))" using short_rc [OF _ True] b'(2) by simp
    from refines_Some [OF after [OF refines_root [OF slash, of g']]] obtain y where
      y: "?after (b', g', Some (1, True)) = Some y"
      "refines (Some y) (join_component (st \<noteq> None) c (rtext (c # rc)) (st = Some S_ISDIR) t' (g', Some ([], True)))" by auto
    with True ps have "tsrm_pass S b 1 (length (rtext (c # rc))) ll t m d g = Some (Return y)" by simp
    from r_pass(1) [OF this] y(2) r show ?thesis by simp
  next
    case False
    have rc: "rc_in b' rc" using b' slash holds_length [OF b'(1)] holds_append [of b' "rtext rc"] by (simp add: rc_in_def)
    from refines_Some [OF ih [OF rc]] obtain y where
      y: "code S b' m' rc ll t' True g' = Some y" "refines (Some y) (resolve S m' rc ll t' True g')" by blast
    from False ps have "tsrm_pass S b 1 (length (rtext (c # rc))) ll t m d g
      = Some (Leading b' (length (rtext rc)) m' (st \<noteq> None) (st = Some S_ISDIR)
              (rtext (c # rc) @ [NUL]) (length (rtext rc) + 1) t' g')" by simp
    from r_pass(5) [OF this] y(1) after [OF y(2) can] show ?thesis by simp
  qed
qed

theorem tsrm_realpath_r_refines:
  assumes "links_ok S" and "cache_ok g" and "rc_in b rc"
  shows "refines (code S b m rc ll t d g) (resolve S m rc ll t d g)"
  using assms(2,3)
proof (induction S m rc ll t d g arbitrary: b rule: resolve_induct)
  case (Root m ll t d g)
  then show ?case using r_pass(1) [OF pass_root] refines_root by (simp add: rc_in_def)
next
  case (Skip m c rc ll t d g)
  then show ?case by (intro refines_skip) (auto dest: rc_in_tl)
next
  case (Up m rc ll t d g g' r)
  then show ?case by (intro refines_up [OF assms(1)]) (auto dest: rc_in_tl)
next
  case (Hit m c rc ll t d g t' bk g')
  then show ?case by (intro refines_hit)
next
  case (Missing c rc ll t d g t' g')
  then show ?case by (intro refines_stop [OF assms(1)]) auto
next
  case (Broken m c rc ll t d g t' g')
  then show ?case by (intro refines_stop [OF assms(1)]) auto
next
  case (Link m c rc ll t d g t' g' rc')
  from Link(7) cache_ok_consult(1) [OF Link(8,4)] show ?case
    by (intro refines_link [OF assms(1) Link(9,1-6)]) blast
next
  case (NotDir m c rc ll t g t' g')
  then show ?case by (intro refines_stop [OF assms(1)]) auto
next
  case (Join m c rc ll t d g t' g' st m')
  from Join(10) cache_ok_consult(1) [OF Join(11,4)] show ?case
    by (intro refines_join [OF assms(1) Join(11,12,1-9)]) blast
qed

section \<open>The clients\<close>

text \<open>The text that is resolved, for an absolute path or an absolute working directory.\<close>

definition full_text :: "string \<Rightarrow> string \<Rightarrow> string" where
  "full_text dir path =
     (if IS_ABSOLUTE_PATH path then path else if last dir = CHR ''/'' then dir @ path else dir @ CHR ''/'' # path)"

definition path_names :: "string \<Rightarrow> string list" where
  "path_names p = split_sep (CHR ''/'') (tl p)"

definition buffer_ok :: "sys \<Rightarrow> bool" where
  "buffer_ok S \<longleftrightarrow> length (sys_stack S) = MAXPATHLEN"

lemma IS_ABSOLUTE_PATH_Cons: "IS_ABSOLUTE_PATH p \<longleftrightarrow> (\<exists>q. p = CHR ''/'' # q)"
  by (cases p) (auto simp: IS_ABSOLUTE_PATH_def IS_SLASH_def cstr_at_def NUL_def)

lemma rtext_path_names: "IS_ABSOLUTE_PATH p \<Longrightarrow> rtext (rev (path_names p)) = p"
  by (auto simp: IS_ABSOLUTE_PATH_Cons path_names_def rtext_def split_slashed)

lemma path_names_ok: "NUL \<notin> set p \<Longrightarrow> IS_ABSOLUTE_PATH p \<Longrightarrow> list_all name_ok (path_names p)"
  by (auto simp: path_names_def list_all_iff name_ok_def IS_ABSOLUTE_PATH_Cons dest!: split_names)

lemma rc_in_path:
  assumes "holds b (p @ [NUL])" "IS_ABSOLUTE_PATH p" "NUL \<notin> set p" "length p < MAXPATHLEN"
  shows "rc_in b (rev (path_names p))"
proof -
  have "holds b ''/''" using assms(1,2) holds_append [of b "''/''"] by (auto simp: IS_ABSOLUTE_PATH_Cons)
  with assms path_names_ok holds_append [OF assms(1)] show ?thesis
    by (simp add: rc_in_def rtext_path_names list_all_iff)
qed

lemma initial_text_eq:
  assumes "buffer_ok S" and "path \<noteq> []" "length path < MAXPATHLEN - 1" and "IS_ABSOLUTE_PATH path \<or> IS_ABSOLUTE_PATH (cwd state)"
    and fit: "\<not> IS_ABSOLUTE_PATH path \<Longrightarrow> length path + length (cwd state) + 1 < MAXPATHLEN - 1"
  obtains b where "initial_text S state path = Some (Some (b, 1, length (full_text (cwd state) path)))"
    "holds b (full_text (cwd state) path @ [NUL])"
proof (cases "IS_ABSOLUTE_PATH path")
  case True
  have "length (path @ [NUL]) \<le> MAXPATHLEN" using assms(3) by simp
  from holds_copy0 [OF assms(1) [unfolded buffer_ok_def] this] True that show thesis
    by (auto simp: initial_text_def Let_def full_text_def)
next
  case False
  with assms(4) have c: "IS_ABSOLUTE_PATH (cwd state)" "cwd state \<noteq> []" by (auto simp: IS_ABSOLUTE_PATH_Cons)
  note fit = fit [OF False]
  have "length (cwd state) \<le> MAXPATHLEN" using fit by simp
  from holds_copy0 [OF assms(1) [unfolded buffer_ok_def] this] obtain b1 where
    b1: "buf_copy (sys_stack S) 0 (cwd state) = Some b1" "holds b1 (cwd state)" by auto
  have l: "b1 ! (length (cwd state) - 1) = last (cwd state)"
    using holds_nth [OF b1(2)] c(2) by (simp add: last_conv_nth)
  show thesis
  proof (cases "last (cwd state) = CHR ''/''")
    case True
    have "length (cwd state) + length (path @ [NUL]) \<le> MAXPATHLEN" using fit by simp
    from holds_copy [OF b1(2) this] True False c b1(1) l fit that show thesis
      by (auto simp: initial_text_def Let_def full_text_def not_le add.commute)
  next
    case sl: False
    have "length (cwd state) < MAXPATHLEN" using fit by simp
    from holds_put [OF b1(2) this, of "CHR ''/''"] obtain b2 where
      b2: "buf_put b1 (length (cwd state)) (CHR ''/'') = Some b2" "holds b2 (cwd state @ ''/'')" by auto
    have "length (cwd state @ ''/'') + length (path @ [NUL]) \<le> MAXPATHLEN" using fit by simp
    from holds_copy [OF b2(2) this] sl False c b1(1) b2(1) l fit that show thesis
      by (auto simp: initial_text_def Let_def full_text_def not_le add.commute)
  qed
qed

lemma final_text_eq:
  assumes "holds b (ctext cs)" "canonical cs"
  shows "final_text add_slash 1 b (length (ctext cs)) = Some (Some (ctext cs @ (if add_slash \<and> cs \<noteq> [] then ''/'' else [])))"
proof -
  have len: "length (ctext cs) < MAXPATHLEN - 1" using assms(2) by (simp add: canonical_def)
  have "b ! (length (ctext cs) - 1) = last (ctext cs)"
    using holds_nth [OF assms(1), of "length (ctext cs) - 1"] by (simp add: last_conv_nth)
  moreover have "last (ctext cs) \<noteq> CHR ''/''" if "cs \<noteq> []"
    using that canonicalD [OF assms(2), of "last cs"]
    by (cases cs rule: rev_cases) (auto simp: proper_name_def name_ok_def dest: last_in_set)
  ultimately have sl: "IS_SLASH (b ! (length (ctext cs) - 1)) \<longleftrightarrow> cs = []"
    by (auto simp: IS_SLASH_def ctext_def)
  have lenM: "length (ctext cs) < MAXPATHLEN" using len by simp
  from holds_put [OF assms(1) lenM, of "CHR ''/''"] obtain b1 where
    b1: "buf_put b (length (ctext cs)) (CHR ''/'') = Some b1" "holds b1 (ctext cs @ ''/'')" by auto
  have "length (ctext cs @ ''/'') < MAXPATHLEN" using len by simp
  from holds_put [OF b1(2) this, of NUL] obtain b2 where
    b2: "buf_put b1 (length (ctext cs) + 1) NUL = Some b2" "holds b2 (ctext cs @ ''/'' @ [NUL])" by auto
  from holds_put [OF assms(1) lenM, of NUL] obtain b3 where
    b3: "buf_put b (length (ctext cs)) NUL = Some b3" "holds b3 (ctext cs @ [NUL])" by auto
  have "take (length (ctext cs) + 1) b2 = ctext cs @ ''/''" "take (length (ctext cs)) b3 = ctext cs"
    using holds_take [OF holds_append [of b2 "ctext cs @ ''/''" "[NUL]"]] holds_take [OF holds_append [OF b3(2)]] b2(2) by simp_all
  with sl len b1(1) b2(1) b3(1) show ?thesis by (auto simp: final_text_def)
qed

text \<open>
  What the code computes for an absolute path, or for a relative one below an absolute working directory:
  \<open>None\<close> is a return value other than 0.
\<close>

definition resolved_text :: "sys \<Rightarrow> cwd_mode \<Rightarrow> string \<Rightarrow> string \<Rightarrow> virtual_cwd_globals \<Rightarrow> virtual_cwd_globals \<times> string option" where
  "resolved_text S m dir path g =
     (if path = [] \<or> MAXPATHLEN - 1 \<le> length path
         \<or> (\<not> IS_ABSOLUTE_PATH path \<and> MAXPATHLEN - 1 \<le> length path + length dir + 1) then (g, None)
      else
        (let p = full_text dir path in
         case resolve S m (rev (path_names p)) 0 (if realpath_cache_ttl g \<noteq> 0 then 0 else -1) False g of
           (g, r) \<Rightarrow> (g, map_option (\<lambda>(cs, _). ctext cs @ (if m \<noteq> CWD_REALPATH \<and> last p = CHR ''/'' \<and> cs \<noteq> [] then ''/'' else [])) r)))"

lemma full_text_ok:
  assumes "NUL \<notin> set path" "NUL \<notin> set dir" "IS_ABSOLUTE_PATH path \<or> IS_ABSOLUTE_PATH dir"
    "length path < MAXPATHLEN - 1" "\<not> IS_ABSOLUTE_PATH path \<Longrightarrow> length path + length dir + 1 < MAXPATHLEN - 1"
  shows "NUL \<notin> set (full_text dir path)" "IS_ABSOLUTE_PATH (full_text dir path)" "length (full_text dir path) < MAXPATHLEN"
  using assms by (auto simp: full_text_def IS_ABSOLUTE_PATH_Cons NUL_def)

lemma virtual_file_ex_eq:
  assumes "links_ok S" "buffer_ok S" "cache_ok g" "NUL \<notin> set path" "NUL \<notin> set (cwd state)"
    and "IS_ABSOLUTE_PATH path \<or> IS_ABSOLUTE_PATH (cwd state)"
  shows "virtual_file_ex S state path verify m g =
    (case resolved_text S m (cwd state) path g of
       (g', None) \<Rightarrow> Some (1, state, g')
     | (g', Some text) \<Rightarrow>
         if verify \<noteq> None \<and> the verify \<lparr>cwd = text\<rparr> then Some (1, state, g') else Some (0, \<lparr>cwd = text\<rparr>, g'))"
proof (cases "path = [] \<or> MAXPATHLEN - 1 \<le> length path
    \<or> (\<not> IS_ABSOLUTE_PATH path \<and> MAXPATHLEN - 1 \<le> length path + length (cwd state) + 1)")
  case True
  moreover have "cwd state \<noteq> []" if "\<not> IS_ABSOLUTE_PATH path" using that assms(6) by (auto simp: IS_ABSOLUTE_PATH_Cons)
  ultimately show ?thesis by (auto simp: virtual_file_ex_def resolved_text_def initial_text_def Let_def)
next
  case False
  let ?p = "full_text (cwd state) path" and ?t = "if realpath_cache_ttl g \<noteq> 0 then 0 else -1"
  have p: "NUL \<notin> set ?p" "IS_ABSOLUTE_PATH ?p" "length ?p < MAXPATHLEN"
    using full_text_ok [OF assms(4-6)] False by auto
  obtain b where b: "initial_text S state path = Some (Some (b, 1, length ?p))" "holds b (?p @ [NUL])"
    using initial_text_eq [OF assms(2), of path state] False assms(6) by (auto simp: not_le)
  have rc: "rc_in b (rev (path_names ?p))" by (rule rc_in_path [OF b(2) p(2,1,3)])
  have len: "length (rtext (rev (path_names ?p))) = length ?p" by (simp add: rtext_path_names [OF p(2)])
  obtain g' r where R: "resolve S m (rev (path_names ?p)) 0 ?t False g = (g', r)" by fastforce
  from tsrm_realpath_r_refines [OF assms(1,3) rc, of 0 ?t m False] len R obtain b' where
    b': "tsrm_realpath_r S b 1 (length ?p) 0 ?t m False g = Some (b', g', in_buffer r)" "result_in b' r"
    by (auto simp: refines_def)
  have nz: "?p \<noteq> []" using p(2) by (auto simp: IS_ABSOLUTE_PATH_Cons)
  have sl: "0 < length ?p \<and> IS_SLASH (b ! (length ?p - 1)) \<longleftrightarrow> last ?p = CHR ''/''"
    using holds_nth [OF holds_append [OF b(2)], of "length ?p - 1"] nz by (simp add: last_conv_nth IS_SLASH_def)
  have fin: "final_text (m \<noteq> CWD_REALPATH \<and> last ?p = CHR ''/'') 1 b' (length (ctext cs))
      = Some (Some (ctext cs @ (if m \<noteq> CWD_REALPATH \<and> last ?p = CHR ''/'' \<and> cs \<noteq> [] then ''/'' else [])))"
    if "r = Some (cs, e)" for cs e
    using final_text_eq [of b' cs] b'(2) that resolve_canonical [OF assms(1) _ assms(3), of "rev (path_names ?p)" m 0 ?t False] R rc
    by (auto simp: result_in_def rc_in_def)
  show ?thesis
  proof (cases r)
    case None
    with False b b'(1) R sl show ?thesis
      by (auto simp: virtual_file_ex_def resolved_text_def in_buffer_def Let_def)
  next
    case (Some x)
    then obtain cs e where r: "r = Some (cs, e)" by (cases x) auto
    let ?text = "ctext cs @ (if m \<noteq> CWD_REALPATH \<and> last ?p = CHR ''/'' \<and> cs \<noteq> [] then ''/'' else [])"
    have "resolved_text S m (cwd state) path g = (g', Some ?text)"
      using False R r by (auto simp: resolved_text_def Let_def)
    moreover have "virtual_file_ex S state path verify m g =
        (if verify \<noteq> None \<and> the verify \<lparr>cwd = ?text\<rparr> then Some (1, state, g') else Some (0, \<lparr>cwd = ?text\<rparr>, g'))"
      using False b(1) b'(1) sl fin [OF r] r by (auto simp: virtual_file_ex_def in_buffer_def Let_def)
    ultimately show ?thesis by simp
  qed
qed

section \<open>Lexical expansion\<close>

text \<open>Normalising the components without looking at the file system.\<close>

definition lex_step :: "string list \<Rightarrow> string \<Rightarrow> string list" where
  "lex_step cs c = (if c = [] \<or> c = ''.'' then cs else if c = ''..'' then butlast cs else cs @ [c])"

definition lexical :: "string list \<Rightarrow> string list" where
  "lexical ns = foldl lex_step [] ns"

lemma length_slashed_butlast: "length (slashed (butlast cs)) \<le> length (slashed cs)"
  by (cases cs rule: rev_cases) auto

lemma resolve_expand:
  assumes "length (rtext rc) < MAXPATHLEN - 1"
  shows "\<exists>e. resolve S CWD_EXPAND rc ll t d g = (g, Some (lexical (rev rc), e))
    \<and> length (slashed (lexical (rev rc))) \<le> length (rtext rc)"
  using assms
proof (induction rc arbitrary: d)
  case (Cons c rc)
  have con: "consult S CWD_EXPAND p t g = (t, None, g)" "status S CWD_EXPAND p = None" for p
    by (simp_all add: consult_def status_def)
  let ?cs = "lexical (rev rc)"
  from Cons obtain e where r: "resolve S CWD_EXPAND rc ll t True g = (g, Some (?cs, e))"
    and len: "length (slashed ?cs) \<le> length (rtext rc)" by auto
  have lx: "lexical (rev (c # rc)) = lex_step ?cs c" by (simp add: lexical_def)
  have "length (ctext (?cs @ [c])) < MAXPATHLEN - 1" using len Cons.prems by simp
  then show ?case unfolding lx lex_step_def
    using r len con length_slashed_butlast [of ?cs]
    by (auto simp: resolve.simps(2) Let_def join_component_def remember_def simp del: ctext_snoc)
qed (auto simp: lexical_def)

section \<open>The accounts of the cache\<close>

definition chain_bytes :: "realpath_cache_bucket list \<Rightarrow> int" where
  "chain_bytes bs = sum_list (map bucket_bytes bs)"

definition cache_bytes :: "virtual_cwd_globals \<Rightarrow> int" where
  "cache_bytes g = (\<Sum>n<realpath_cache_buckets. chain_bytes (realpath_cache g n))"

definition filed :: "virtual_cwd_globals \<Rightarrow> bool" where
  "filed g \<longleftrightarrow> (\<forall>n. \<forall>b \<in> set (realpath_cache g n).
     rb_key b = realpath_cache_key (rb_path b) \<and> n = cache_slot (realpath_cache_key (rb_path b)))"

definition cache_accounts :: "virtual_cwd_globals \<Rightarrow> bool" where
  "cache_accounts g \<longleftrightarrow> realpath_cache_size g = cache_bytes g
     \<and> realpath_cache_size g \<le> max 0 (realpath_cache_size_limit g)
     \<and> filed g"

lemma filed_subset: "filed g \<Longrightarrow> (\<And>n. set (realpath_cache g' n) \<subseteq> set (realpath_cache g n)) \<Longrightarrow> filed g'"
  unfolding filed_def by blast

lemma bucket_bytes_pos: "0 < bucket_bytes b"
  by (simp add: bucket_bytes_def sizeof_realpath_cache_bucket_def)

lemma cache_slot_less: "cache_slot key < realpath_cache_buckets"
  by (simp add: cache_slot_def realpath_cache_buckets_def)

lemma cache_bytes_update:
  assumes "n < realpath_cache_buckets"
  shows "cache_bytes (g\<lparr>realpath_cache := (realpath_cache g)(n := bs), realpath_cache_size := k\<rparr>)
    = cache_bytes g - chain_bytes (realpath_cache g n) + chain_bytes bs"
proof -
  have "(\<Sum>i<realpath_cache_buckets. chain_bytes (((realpath_cache g)(n := bs)) i))
      = chain_bytes bs + (\<Sum>i\<in>{..<realpath_cache_buckets} - {n}. chain_bytes (realpath_cache g i))"
    using assms by (subst sum.remove [of _ n]) auto
  moreover have "(\<Sum>i<realpath_cache_buckets. chain_bytes (realpath_cache g i))
      = chain_bytes (realpath_cache g n) + (\<Sum>i\<in>{..<realpath_cache_buckets} - {n}. chain_bytes (realpath_cache g i))"
    using assms by (subst sum.remove [of _ n]) auto
  ultimately show ?thesis by (simp add: cache_bytes_def)
qed

lemma cache_find_chain_bytes:
  "cache_find_chain ttl t P bs = (r, bs', freed) \<Longrightarrow>
     chain_bytes bs' = chain_bytes bs - freed \<and> 0 \<le> freed
     \<and> (\<forall>b. r = Some b \<longrightarrow> P b \<and> (ttl = 0 \<or> t \<le> rb_expires b))"
  by (induction bs arbitrary: r bs' freed)
     (auto simp: chain_bytes_def less_imp_le [OF bucket_bytes_pos] intro!: add_nonneg_nonneg split: if_splits prod.splits)

lemma accounts_find:
  assumes "cache_accounts g" and "realpath_cache_find path t g = (r, g')"
  shows "cache_accounts g' \<and> (\<forall>b. r = Some b \<longrightarrow> rb_path b = path \<and> (realpath_cache_ttl g = 0 \<or> t \<le> rb_expires b))"
proof -
  let ?key = "realpath_cache_key path" and ?n = "cache_slot (realpath_cache_key path)"
  obtain bs freed where f: "cache_find_chain (realpath_cache_ttl g) t (bucket_matches ?key path) (realpath_cache g ?n) = (r, bs, freed)"
    and g': "g' = g\<lparr>realpath_cache := (realpath_cache g)(?n := bs), realpath_cache_size := realpath_cache_size g - freed\<rparr>"
    using assms(2) by (auto simp: realpath_cache_find_def Let_def split: prod.splits)
  note b = cache_find_chain_bytes [OF f] and st = cache_find_chain_set [OF f]
  have "cache_bytes g' = cache_bytes g - freed" using b by (simp add: g' cache_bytes_update [OF cache_slot_less])
  moreover have "filed g'" using assms(1) st unfolding cache_accounts_def by - (rule filed_subset [of g], auto simp: g')
  moreover have "realpath_cache_size g' = realpath_cache_size g - freed" "realpath_cache_size_limit g' = realpath_cache_size_limit g"
    by (simp_all add: g')
  ultimately have "cache_accounts g'" using assms(1) b unfolding cache_accounts_def by linarith
  with b show ?thesis by (auto simp: bucket_matches_def)
qed

lemma accounts_add: "cache_accounts g \<Longrightarrow> cache_accounts (realpath_cache_add path r d t g)"
proof -
  assume ok: "cache_accounts g"
  define bytes where "bytes = sizeof_realpath_cache_bucket + int (length path) + 1 + (if path = r then 0 else int (length r) + 1)"
  define b where "b = \<lparr>rb_key = realpath_cache_key path, rb_path = path, rb_realpath = r, rb_is_dir = d, rb_expires = t + realpath_cache_ttl g\<rparr>"
  let ?n = "cache_slot (realpath_cache_key path)"
  define g' where "g' = g\<lparr>realpath_cache := (realpath_cache g)(?n := b # realpath_cache g ?n), realpath_cache_size := realpath_cache_size g + bytes\<rparr>"
  have add: "realpath_cache_add path r d t g = (if realpath_cache_size g + bytes \<le> realpath_cache_size_limit g then g' else g)"
    by (simp add: realpath_cache_add_def bytes_def g'_def b_def Let_def)
  have "bucket_bytes b = bytes" by (simp add: bucket_bytes_def b_def bytes_def)
  then have "cache_bytes g' = cache_bytes g + bytes"
    by (simp add: g'_def cache_bytes_update [OF cache_slot_less] chain_bytes_def)
  moreover have "filed g'" using ok by (auto simp: cache_accounts_def filed_def g'_def b_def simp del: fun_upd_apply split: if_splits) (auto split: if_splits)
  ultimately show ?thesis using ok by (auto simp: add cache_accounts_def g'_def)
qed

lemma cache_del_chain_bytes:
  "cache_del_chain P bs = (r, bs') \<Longrightarrow> set bs' \<subseteq> set bs \<and>
     (case r of None \<Rightarrow> bs' = bs | Some b \<Rightarrow> P b \<and> chain_bytes bs' = chain_bytes bs - bucket_bytes b)"
  by (induction bs arbitrary: r bs') (auto simp: chain_bytes_def split: if_splits prod.splits option.splits)

lemma accounts_del: "cache_accounts g \<Longrightarrow> cache_accounts (realpath_cache_del path g)"
proof -
  assume ok: "cache_accounts g"
  let ?n = "cache_slot (realpath_cache_key path)"
  obtain r bs where d: "cache_del_chain (bucket_matches (realpath_cache_key path) path) (realpath_cache g ?n) = (r, bs)" by fastforce
  show ?thesis
  proof (cases r)
    case None
    with d ok show ?thesis by (simp add: realpath_cache_del_def)
  next
    case (Some b)
    define g' where "g' = g\<lparr>realpath_cache := (realpath_cache g)(?n := bs), realpath_cache_size := realpath_cache_size g - bucket_bytes b\<rparr>"
    note bb = cache_del_chain_bytes [OF d]
    have "cache_bytes g' = cache_bytes g - bucket_bytes b" using bb Some by (simp add: g'_def cache_bytes_update [OF cache_slot_less])
    moreover have "filed g'" using ok bb unfolding cache_accounts_def by - (rule filed_subset [of g], auto simp: g'_def)
    moreover have "realpath_cache_del path g = g'" using d Some by (simp add: realpath_cache_del_def g'_def)
    moreover have "realpath_cache_size g' = realpath_cache_size g - bucket_bytes b" "realpath_cache_size_limit g' = realpath_cache_size_limit g"
      by (simp_all add: g'_def)
    ultimately show ?thesis using ok bucket_bytes_pos [of b] unfolding cache_accounts_def by (metis diff_le_eq le_add_same_cancel1 less_imp_le order_trans)
  qed
qed

lemma resolve_accounts:
  assumes "cache_accounts g"
  shows "cache_accounts (fst (resolve S m rc ll t d g))"
proof -
  have con: "cache_accounts g'" if "consult S m p t g = (t', b, g')" "cache_accounts g" for m p t g t' b g'
    using that accounts_find by (auto simp: consult_def Let_def split: if_splits)
  show ?thesis using assms
  proof (induction S m rc ll t d g rule: resolve_induct)
    case (Link m c rc ll t d g t' g' rc')
    then show ?case by (auto simp: remember_def accounts_add dest: con split: option.splits prod.splits)
  next
    case (Join m c rc ll t d g t' g' st m')
    obtain g1 r where "resolve S m' rc ll t' True g' = (g1, r)" by fastforce
    with Join con [OF Join(4)] show ?case by (auto simp: join_component_def remember_def accounts_add split: option.splits)
  qed (auto dest: con)
qed

lemma resolved_text_cache:
  assumes "links_ok S" "cache_ok g" "NUL \<notin> set path" "NUL \<notin> set dir" "IS_ABSOLUTE_PATH path \<or> IS_ABSOLUTE_PATH dir"
    and "resolved_text S m dir path g = (g', r)"
  shows "cache_ok g' \<and> (cache_accounts g \<longrightarrow> cache_accounts g')
    \<and> (\<forall>text. r = Some text \<longrightarrow> (\<exists>cs. canonical cs \<and> (text = ctext cs
         \<or> m \<noteq> CWD_REALPATH \<and> last path = CHR ''/'' \<and> cs \<noteq> [] \<and> text = ctext cs @ ''/'')))"
proof (cases "path = [] \<or> MAXPATHLEN - 1 \<le> length path
    \<or> (\<not> IS_ABSOLUTE_PATH path \<and> MAXPATHLEN - 1 \<le> length path + length dir + 1)")
  case True
  with assms(2,6) show ?thesis by (auto simp: resolved_text_def)
next
  case False
  let ?p = "full_text dir path" and ?t = "if realpath_cache_ttl g \<noteq> 0 then 0 else -1"
  have p: "NUL \<notin> set ?p" "IS_ABSOLUTE_PATH ?p" using full_text_ok [OF assms(3-5)] False by auto
  have ok: "list_all name_ok (rev (path_names ?p))" using path_names_ok [OF p] by (simp add: list_all_iff)
  have "last ?p = last path" using False by (simp add: full_text_def)
  moreover obtain g1 r1 where R: "resolve S m (rev (path_names ?p)) 0 ?t False g = (g1, r1)" by fastforce
  ultimately have eq: "g' = g1" "r = map_option (\<lambda>(cs, _). ctext cs @ (if m \<noteq> CWD_REALPATH \<and> last path = CHR ''/'' \<and> cs \<noteq> [] then ''/'' else [])) r1"
    using assms(6) False by (auto simp: resolved_text_def Let_def)
  have can: "r1 = Some (cs, e) \<Longrightarrow> canonical cs" for cs e
    using resolve_canonical [OF assms(1) ok assms(2), of m 0 ?t False] R by simp
  have "\<exists>cs. canonical cs \<and> (y = ctext cs \<or> m \<noteq> CWD_REALPATH \<and> last path = CHR ''/'' \<and> cs \<noteq> [] \<and> y = ctext cs @ ''/'')"
    if "r = Some y" for y
  proof -
    from that eq(2) obtain cs e where "r1 = Some (cs, e)"
      "y = ctext cs @ (if m \<noteq> CWD_REALPATH \<and> last path = CHR ''/'' \<and> cs \<noteq> [] then ''/'' else [])" by auto
    with can show ?thesis by (intro exI [of _ cs]) auto
  qed
  moreover have "cache_ok g1" "cache_accounts g \<longrightarrow> cache_accounts g1"
    using resolve_canonical [OF assms(1) ok assms(2), of m 0 ?t False] resolve_accounts [of g S m "rev (path_names ?p)" 0 ?t False] R by auto
  ultimately show ?thesis using eq(1) by simp
qed

section \<open>Properties\<close>


text \<open>
  The mode \<open>CWD_EXPAND\<close> is lexical: for every absolute path shorter than \<open>MAXPATHLEN - 1\<close> bytes
  \<open>virtual_file_ex\<close> succeeds, with the path normalised component by component, without consulting the
  file system or the cache.
\<close>

theorem expand_is_lexical:
  assumes "links_ok S" "buffer_ok S" "cache_ok g" "NUL \<notin> set path" "NUL \<notin> set (cwd state)"
    and "IS_ABSOLUTE_PATH path" "length path < MAXPATHLEN - 1"
  shows "virtual_file_ex S state path None CWD_EXPAND g = Some (0, \<lparr>cwd =
    ctext (lexical (path_names path)) @ (if last path = CHR ''/'' \<and> lexical (path_names path) \<noteq> [] then ''/'' else [])\<rparr>, g)"
proof -
  have "path \<noteq> []" using assms(6) by (auto simp: IS_ABSOLUTE_PATH_Cons)
  moreover have "length (rtext (rev (path_names path))) < MAXPATHLEN - 1" using assms(7) by (simp add: rtext_path_names [OF assms(6)])
  ultimately show ?thesis
    using virtual_file_ex_eq [OF assms(1-5), of None CWD_EXPAND] assms(6,7)
      resolve_expand [of "rev (path_names path)" S 0 "if realpath_cache_ttl g \<noteq> 0 then 0 else -1" False g]
    by (auto simp: resolved_text_def full_text_def Let_def)
qed

text \<open>
  (C16) The accounts of the realpath cache: \<open>realpath_cache_size\<close> is the number of bytes of the entries and
  does not exceed the limit, every entry is in the chain of its key; this holds after start-up, after cleaning
  and after deleting an entry, and every path resolution keeps it. A lookup returns only an entry for the path asked for
  that has not expired.
\<close>

theorem realpath_cache_accounts:
  assumes "links_ok S" "buffer_ok S" "cache_ok g" "cache_accounts g" "NUL \<notin> set path" "NUL \<notin> set (cwd state)"
    and "IS_ABSOLUTE_PATH path \<or> IS_ABSOLUTE_PATH (cwd state)"
  shows "(\<exists>r state' g'. virtual_file_ex S state path None m g = Some (r, state', g') \<and> cache_accounts g')
    \<and> cache_accounts (snd (virtual_cwd_startup S))
    \<and> cache_accounts (realpath_cache_clean g) \<and> cache_accounts (realpath_cache_del p g)
    \<and> (\<forall>b g''. realpath_cache_lookup p t g = (Some b, g'') \<longrightarrow>
         cache_accounts g'' \<and> rb_path b = p \<and> (realpath_cache_ttl g = 0 \<or> t \<le> rb_expires b))"
proof (intro conjI allI impI)
  obtain g1 x where R: "resolved_text S m (cwd state) path g = (g1, x)" by fastforce
  from resolved_text_cache [OF assms(1,3,5-7) R] virtual_file_ex_eq [OF assms(1-3,5-7), of None m] R assms(4)
  show "\<exists>r state' g'. virtual_file_ex S state path None m g = Some (r, state', g') \<and> cache_accounts g'"
    by (cases x) auto
  show "cache_accounts (snd (virtual_cwd_startup S))"
    by (simp add: cache_accounts_def filed_def virtual_cwd_startup_def cwd_globals_ctor_def cache_bytes_def chain_bytes_def
        REALPATH_CACHE_SIZE_def Let_def)
  show "cache_accounts (realpath_cache_clean g)"
    by (simp add: cache_accounts_def filed_def realpath_cache_clean_def cache_bytes_def chain_bytes_def)
  show "cache_accounts (realpath_cache_del p g)" by (rule accounts_del [OF assms(4)])
qed (use accounts_find [OF assms(4)] in \<open>auto simp: realpath_cache_lookup_def\<close>)

section \<open>A concrete system\<close>

text \<open>A directory \<open>/srv\<close> with a link to the root directory, and an empty cache of 16 KB.\<close>

definition bare_sys :: sys where
  "bare_sys = \<lparr>sys_lstat = (\<lambda>p. if p = ''/srv'' then Some S_ISDIR else if p = ''/srv/up'' then Some S_ISLNK else None),
     sys_stat = (\<lambda>p. if p \<in> {''/srv'', ''/srv/up''} then Some S_ISDIR else None),
     sys_readlink = (\<lambda>p. if p = ''/srv/up'' then Some ''..'' else None), sys_getcwd = Some ''/srv'', sys_time = 7,
     sys_can_open = (\<lambda>p. True), sys_stack = replicate MAXPATHLEN (CHR ''?'')\<rparr>"

definition bare_globals :: virtual_cwd_globals where
  "bare_globals = \<lparr>cwdg_cwd = \<lparr>cwd = ''/srv''\<rparr>, realpath_cache_size = 0, realpath_cache_size_limit = 16384,
     realpath_cache_ttl = 120, realpath_cache = (\<lambda>_. [])\<rparr>"

lemma bare_ok: "links_ok bare_sys" "buffer_ok bare_sys" "cache_ok bare_globals" "cache_accounts bare_globals"
  "NUL \<notin> set ''up/none''" "NUL \<notin> set (cwd \<lparr>cwd = ''/srv''\<rparr>)" "IS_ABSOLUTE_PATH ''up/none'' \<or> IS_ABSOLUTE_PATH (cwd \<lparr>cwd = ''/srv''\<rparr>)"
  by (simp_all add: links_ok_def buffer_ok_def cache_ok_def cache_accounts_def filed_def cache_bytes_def chain_bytes_def
      bare_sys_def bare_globals_def MAXPATHLEN_def NUL_def IS_ABSOLUTE_PATH_Cons)


theorem realpath_cache_accounts_witness:
  "\<exists>r state' g'. virtual_file_ex bare_sys \<lparr>cwd = ''/srv''\<rparr> ''up/none'' None CWD_FILEPATH bare_globals = Some (r, state', g')
    \<and> cache_accounts g'"
  using realpath_cache_accounts [OF bare_ok, of CWD_FILEPATH] by blast

end
