(* ===== verification/File_Tree.thy ===== *)
theory File_Tree
  imports Virtual_Cwd_Correct
begin

text \<open>
  A file system as the kernel sees it, and what the resolution of the engine finds there. The tree maps the
  location of every file, a list of names, to what is there; \<open>kwalk\<close> is the walk of the kernel along a path
  with its limit on symbolic links. \<open>realpath\<close> without the cache returns the location the kernel finds,
  and \<open>expand_filepath\<close> does so for every path the kernel can resolve.
\<close>

section \<open>The walk of the kernel\<close>

datatype node = Regular | Directory | Symlink string

type_synonym tree = "string list \<Rightarrow> node option"

definition target_names :: "string \<Rightarrow> string list" where
  "target_names t = split_sep (CHR ''/'') (if IS_ABSOLUTE_PATH t then tl t else t)"

definition link_base :: "string \<Rightarrow> string list \<Rightarrow> string list" where
  "link_base t cur = (if IS_ABSOLUTE_PATH t then [] else cur)"

function kwalk :: "tree \<Rightarrow> string list \<Rightarrow> string list \<Rightarrow> nat \<Rightarrow> (string list \<times> nat) option" where
  "kwalk fs cur [] n = Some (cur, n)"
| "kwalk fs cur (c # cs) n =
     (if fs cur \<noteq> Some Directory then None
      else if c = [] \<or> c = ''.'' then kwalk fs cur cs n
      else if c = ''..'' then kwalk fs (butlast cur) cs n
      else case fs (cur @ [c]) of
        None \<Rightarrow> None
      | Some (Symlink t) \<Rightarrow>
          (case n of
             0 \<Rightarrow> None
           | Suc k \<Rightarrow> kwalk fs (link_base t cur) (target_names t @ cs) k)
      | Some _ \<Rightarrow> kwalk fs (cur @ [c]) cs n)"
  by pat_completeness auto
termination
  by (relation "measures [\<lambda>(fs, cur, cs, n). n, \<lambda>(fs, cur, cs, n). length cs]") auto

declare kwalk.simps(2) [simp del]

text \<open>Linux follows at most 40 links while it resolves a path.\<close>

definition MAXSYMLINKS :: nat where
  "MAXSYMLINKS = 40"

text \<open>What is found under the last component of a path, the links before it followed.\<close>

definition kstat :: "tree \<Rightarrow> string list \<Rightarrow> string \<Rightarrow> node option" where
  "kstat fs rc c = (case kwalk fs [] (rev rc) MAXSYMLINKS of None \<Rightarrow> None | Some (d, _) \<Rightarrow> fs (d @ [c]))"

fun kind_of :: "node \<Rightarrow> file_kind" where
  "kind_of Regular = S_ISREG"
| "kind_of Directory = S_ISDIR"
| "kind_of (Symlink t) = S_ISLNK"

definition tree_ok :: "tree \<Rightarrow> bool" where
  "tree_ok fs \<longleftrightarrow> fs [] = Some Directory
     \<and> (\<forall>d c. fs (d @ [c]) \<noteq> None \<longrightarrow> fs d = Some Directory \<and> proper_name c)
     \<and> (\<forall>l t. fs l = Some (Symlink t) \<longrightarrow> length t < MAXPATHLEN \<and> NUL \<notin> set t)"

text \<open>The system calls answer from the tree; a path that ends in a slash never names a link.\<close>

definition posix :: "sys \<Rightarrow> tree \<Rightarrow> bool" where
  "posix S fs \<longleftrightarrow> tree_ok fs
     \<and> (\<forall>rc c. list_all name_ok rc \<and> proper_name c \<longrightarrow>
          sys_lstat S (rtext (c # rc)) = map_option kind_of (kstat fs rc c)
          \<and> sys_readlink S (rtext (c # rc)) =
              (case kstat fs rc c of Some (Symlink t) \<Rightarrow> Some t | _ \<Rightarrow> None))
     \<and> (\<forall>p. sys_readlink S (p @ ''/'') = None)
     \<and> links_ok S"

lemma kwalk_append:
  "kwalk fs cur (xs @ ys) n = kwalk fs cur xs n \<bind> (\<lambda>(d, k). kwalk fs d ys k)"
proof (induction fs cur xs n rule: kwalk.induct)
  case (2 fs cur c cs n)
  then show ?case by (auto simp: kwalk.simps(2) split: option.splits node.splits nat.splits)
qed simp

lemma kwalk_add:
  "kwalk fs cur xs n = Some (d, k) \<Longrightarrow> kwalk fs cur xs (n + m) = Some (d, k + m)"
proof (induction fs cur xs n rule: kwalk.induct)
  case (2 fs cur c cs n)
  then show ?case by (auto simp: kwalk.simps(2) split: option.splits node.splits nat.splits if_splits)
qed simp

lemma kwalk_mono: "kwalk fs cur xs n = Some (d, k) \<Longrightarrow> n \<le> m \<Longrightarrow> kwalk fs cur xs m = Some (d, k + (m - n))"
  using kwalk_add [of fs cur xs n d k "m - n"] by simp

lemma kwalk_unique:
  assumes "kwalk fs cur xs n = Some (d, k)" "kwalk fs cur xs n' = Some (d', k')"
  shows "d' = d"
  using kwalk_add [OF assms(1), of n'] kwalk_add [OF assms(2), of n] by (simp add: add.commute)

lemma kwalk_budget: "kwalk fs cur xs n = Some (d, k) \<Longrightarrow> k \<le> n"
proof (induction fs cur xs n rule: kwalk.induct)
  case (2 fs cur c cs n)
  then show ?case by (fastforce simp: kwalk.simps(2) split: option.splits node.splits nat.splits if_splits)
qed simp

text \<open>A walk ends at something that exists and is not a link, and a location is its own parent's entry.\<close>

definition located :: "tree \<Rightarrow> string list \<Rightarrow> bool" where
  "located fs d \<longleftrightarrow> fs d = Some Regular \<or> fs d = Some Directory"

lemma tree_ok_parent: "tree_ok fs \<Longrightarrow> fs (d @ e) \<noteq> None \<Longrightarrow> e \<noteq> [] \<Longrightarrow> fs d = Some Directory"
proof (induction e arbitrary: rule: rev_induct)
  case (snoc c e)
  then have "fs ((d @ e) @ [c]) \<noteq> None" by simp
  with snoc.prems(1) have "fs (d @ e) = Some Directory" unfolding tree_ok_def by blast
  with snoc show ?case by (cases "e = []") auto
qed simp

lemma tree_ok_butlast: "tree_ok fs \<Longrightarrow> fs d = Some Directory \<Longrightarrow> fs (butlast d) = Some Directory"
  by (cases d rule: rev_cases) (auto dest: tree_ok_parent)

lemma located_prefix: "tree_ok fs \<Longrightarrow> located fs (d @ e) \<Longrightarrow> located fs d"
  by (cases "e = []") (auto simp: located_def dest!: tree_ok_parent)

lemma located_names: "tree_ok fs \<Longrightarrow> located fs d \<Longrightarrow> list_all proper_name d"
proof (induction d rule: rev_induct)
  case (snoc c d)
  then have "fs (d @ [c]) \<noteq> None" by (auto simp: located_def)
  with snoc.prems(1) have "proper_name c" unfolding tree_ok_def by blast
  moreover have "located fs d" by (rule located_prefix [OF snoc.prems])
  ultimately show ?case using snoc by simp
qed simp

lemma located_root: "tree_ok fs \<Longrightarrow> located fs []"
  by (simp add: tree_ok_def located_def)

lemma kwalk_located:
  "kwalk fs cur xs n = Some (d, k) \<Longrightarrow> tree_ok fs \<Longrightarrow> located fs cur \<Longrightarrow> located fs d"
proof (induction fs cur xs n rule: kwalk.induct)
  case (2 fs cur c cs n)
  have "located fs (butlast cur)" "located fs (link_base t cur)" if "fs cur = Some Directory" for t
    using that 2(7,8) tree_ok_butlast [OF 2(7)] located_root [OF 2(7)] by (auto simp: located_def link_base_def)
  with 2 show ?case
    by (auto simp: kwalk.simps(2) located_def [of fs "cur @ [c]"] split: option.splits node.splits nat.splits if_splits)
qed simp

lemma kwalk_dirs:
  assumes "tree_ok fs" "fs (d @ e) = Some Directory"
  shows "kwalk fs d e n = Some (d @ e, n)"
  using assms(2)
proof (induction e arbitrary: d)
  case (Cons c e)
  have d: "fs (d @ c # e) \<noteq> None" using Cons.prems by simp
  then have "fs d = Some Directory" using tree_ok_parent [OF assms(1)] by blast
  moreover have c: "fs (d @ [c]) = Some Directory"
    using tree_ok_parent [OF assms(1), of "d @ [c]" e] Cons.prems by (cases "e = []") auto
  moreover have "proper_name c" using assms(1) c unfolding tree_ok_def by (metis option.distinct(1))
  ultimately show ?case using Cons.IH [of "d @ [c]"] Cons.prems by (simp add: kwalk.simps(2) proper_name_def)
qed simp

section \<open>What the engine finds\<close>

text \<open>The step for a proper name, and the text that replaces a link.\<close>

lemma kwalk_name:
  assumes "proper_name c"
  shows "kwalk fs d [c] n = (if fs d \<noteq> Some Directory then None else
    case fs (d @ [c]) of None \<Rightarrow> None
    | Some (Symlink t) \<Rightarrow> (case n of 0 \<Rightarrow> None | Suc k \<Rightarrow> kwalk fs (link_base t d) (target_names t) k)
    | Some _ \<Rightarrow> Some (d @ [c], n))"
  using assms by (auto simp: kwalk.simps(2) proper_name_def split: option.splits node.splits nat.splits)

lemma kstat_Some:
  assumes "kstat fs rc c = Some x"
  obtains d n where "kwalk fs [] (rev rc) MAXSYMLINKS = Some (d, n)" "fs (d @ [c]) = Some x"
  using assms by (auto simp: kstat_def split: option.splits)

lemma kwalk_link:
  assumes "link_components S ll rc p = Some rc'" "sys_readlink S p = Some t"
    and "kwalk fs [] (rev rc) n = Some (d, k)"
  shows "kwalk fs [] (rev rc') n = kwalk fs (link_base t d) (target_names t) (if IS_ABSOLUTE_PATH t then n else k)"
  using assms by (auto simp: link_components_def target_names_def link_base_def kwalk_append split: if_splits)

lemma posix_status:
  assumes "posix S fs" "list_all name_ok rc" "proper_name c" "m \<noteq> CWD_EXPAND"
  shows "status S m (rtext (c # rc)) = map_option kind_of (kstat fs rc c)"
  using assms by (simp add: posix_def status_def del: rtext_simps)

lemma posix_link:
  assumes "posix S fs" "list_all name_ok rc" "proper_name c" "m \<noteq> CWD_EXPAND"
    and "status S m (rtext (c # rc)) = Some S_ISLNK"
  obtains t d n where "sys_readlink S (rtext (c # rc)) = Some t"
    "kwalk fs [] (rev rc) MAXSYMLINKS = Some (d, n)" "fs (d @ [c]) = Some (Symlink t)"
proof -
  from posix_status [OF assms(1-4)] assms(5) obtain x where x: "kstat fs rc c = Some x" "kind_of x = S_ISLNK" by auto
  then obtain t where t: "x = Symlink t" by (cases x) auto
  with x(1) assms(1-3) have "sys_readlink S (rtext (c # rc)) = Some t" by (simp add: posix_def del: rtext_simps)
  with that t x(1) show thesis by (auto elim: kstat_Some)
qed

lemma no_cache:
  assumes "realpath_cache_size_limit g = 0"
  shows "consult S m p t g = (t', b, g') \<longleftrightarrow> t' = t \<and> b = None \<and> g' = g" and "remember save p t (g, r) = (g, r)"
  using assms by (auto simp: consult_def remember_def split: option.splits)

lemma resolve_no_cache:
  assumes "realpath_cache_size_limit g = 0"
  shows "fst (resolve S m rc ll t d g) = g"
  using assms
proof (induction S m rc ll t d g rule: resolve_induct)
  case (Link m c rc ll t d g t' g' rc')
  then show ?case by (cases "resolve S m rc' (ll + 1) t' d g'") (auto simp: no_cache)
next
  case (Join m c rc ll t d g t' g' st m')
  then show ?case by (cases "resolve S m' rc ll t' True g'") (auto simp: no_cache join_component_def split: option.splits)
qed (auto simp: no_cache)

text \<open>What a recursive call returns, without the cache.\<close>

lemma join_no_cache:
  assumes "realpath_cache_size_limit g = 0" and "snd (join_component save c p d t (g, r)) = Some (cs, e)"
  obtains cs0 e0 where "r = Some (cs0, e0)" "cs = cs0 @ [c]" "e = d"
  using assms by (auto simp: join_component_def no_cache split: option.splits if_splits)

text \<open>Where the kernel finds a file, the engine finds it too, in every mode that looks at the file system.\<close>

lemma resolve_follows_kernel:
  assumes "posix S fs" and "realpath_cache_size_limit g = 0" and "list_all name_ok rc" and "m \<noteq> CWD_EXPAND"
    and "kwalk fs [] (rev rc) MAXSYMLINKS = Some (loc, n)" and "snd (resolve S m rc ll t d g) = Some (cs, e)"
  shows "cs = loc"
  using assms(2-6)
proof (induction S m rc ll t d g arbitrary: loc n cs e rule: resolve_induct)
  case (Skip m c rc ll t d g)
  then show ?case by (auto simp: kwalk_append kwalk.simps(2) bind_eq_Some_conv split: if_splits)
next
  case (Up m rc ll t d g g' r)
  then show ?case by (auto simp: kwalk_append kwalk.simps(2) bind_eq_Some_conv split: if_splits)
next
  case (Link m c rc ll t d g t' g' rc')
  have ok: "list_all name_ok rc" "proper_name c" using Link(1-3,9) by (simp_all add: proper_name_def)
  have g': "g' = g" "t' = t" using Link(4,8) by (auto simp: no_cache)
  obtain tg l0 k where l: "sys_readlink S (rtext (c # rc)) = Some tg"
    "kwalk fs [] (rev rc) MAXSYMLINKS = Some (l0, k)" "fs (l0 @ [c]) = Some (Symlink tg)"
    by (rule posix_link [OF assms(1) ok Link(10,5)])
  with Link(11) obtain k' where k: "k = Suc k'" and w: "kwalk fs (link_base tg l0) (target_names tg) k' = Some (loc, n)"
    by (auto simp: kwalk_append kwalk_name [OF ok(2)] split: if_splits nat.splits)
  have le: "k \<le> MAXSYMLINKS" by (rule kwalk_budget [OF l(2)])
  then have "\<exists>n'. kwalk fs [] (rev rc') MAXSYMLINKS = Some (loc, n')"
    using kwalk_mono [OF w] k by (simp add: kwalk_link [OF Link(6) l(1,2)])
  moreover have "list_all name_ok rc'" using link_components_ok [OF _ ok(1) Link(6)] assms(1) by (simp add: posix_def)
  moreover have "snd (resolve S m rc' (ll + 1) t' d g') = Some (cs, e)"
    using Link(12) resolve_no_cache [of g S m rc' "ll + 1" t d] Link(8) no_cache(2)
    by (cases "resolve S m rc' (ll + 1) t' d g'") (auto simp: g')
  ultimately show ?case using Link(7,8,10) g' by blast
next
  case (Join m c rc ll t d g t' g' st m')
  have ok: "list_all name_ok rc" "proper_name c" using Join(1-3,12) by (simp_all add: proper_name_def)
  have g': "g' = g" "t' = t" using Join(4,11) by (auto simp: no_cache)
  obtain l0 k x where l: "kwalk fs [] (rev rc) MAXSYMLINKS = Some (l0, k)" "fs (l0 @ [c]) = Some x"
    using Join(14) by (auto simp: kwalk_append bind_eq_Some_conv kwalk_name [OF ok(2)] split: if_splits option.splits)
  then have st: "st = Some (kind_of x)" using posix_status [OF assms(1) ok Join(13)] Join(5) by (simp add: kstat_def)
  then have loc: "loc = l0 @ [c]" using Join(6,14) l
    by (cases x) (auto simp: kwalk_append kwalk_name [OF ok(2)] split: if_splits)
  have "resolve S m' rc ll t' True g' = (g, snd (resolve S m' rc ll t' True g'))"
    using resolve_no_cache [OF Join(11), of S m' rc ll t True] g' by (metis prod.collapse)
  with Join(15) obtain cs0 e0 where "snd (resolve S m' rc ll t' True g') = Some (cs0, e0)" "cs = cs0 @ [c]"
    by (metis join_no_cache [OF Join(11)])
  with Join(10) Join(11) ok(1) l(1) st Join(9) g' loc show ?case by auto
qed (auto simp: no_cache)

text \<open>What \<open>realpath\<close> returns is where the kernel walks to, if its limit on links did not stop it.\<close>

definition reaches :: "tree \<Rightarrow> string list \<Rightarrow> string list \<Rightarrow> bool" where
  "reaches fs p loc \<longleftrightarrow> (\<exists>n k. kwalk fs [] p n = Some (loc, k))"

lemma reaches_located: "tree_ok fs \<Longrightarrow> reaches fs p loc \<Longrightarrow> located fs loc"
  by (auto simp: reaches_def intro: kwalk_located located_root)

lemma reaches_unique: "reaches fs p l \<Longrightarrow> reaches fs p l' \<Longrightarrow> l' = l"
  by (auto simp: reaches_def dest: kwalk_unique)

lemma reaches_step:
  assumes "reaches fs p l" "fs l = Some Directory"
  shows "c = [] \<or> c = ''.'' \<Longrightarrow> reaches fs (p @ [c]) l" and "reaches fs (p @ [''..'']) (butlast l)"
  using assms by (auto simp: reaches_def kwalk_append kwalk.simps(2) bind_eq_Some_conv)

lemma reaches_append:
  "kwalk fs [] xs n = Some (d, k) \<Longrightarrow> kwalk fs d ys k = Some (l, j) \<Longrightarrow> reaches fs (xs @ ys) l"
  unfolding reaches_def by (intro exI [of _ n] exI [of _ j]) (simp add: kwalk_append)

lemma reaches_link:
  assumes "kwalk fs [] (rev rc) n = Some (d, k)" "fs d = Some Directory" "fs (d @ [c]) = Some (Symlink t)" "proper_name c"
    and "link_components S ll rc p = Some rc'" "sys_readlink S p = Some t" "reaches fs (rev rc') loc"
  shows "reaches fs (rev (c # rc)) loc"
proof -
  obtain n1 k1 where w: "kwalk fs [] (rev rc') n1 = Some (loc, k1)" using assms(7) by (auto simp: reaches_def)
  note w' = kwalk_add [OF w, of n] and d' = kwalk_add [OF assms(1), of n1]
  define b where "b = (if IS_ABSOLUTE_PATH t then n1 + n else k + n1)"
  have t: "kwalk fs (link_base t d) (target_names t) b = Some (loc, k1 + n)"
    using kwalk_link [OF assms(5,6) d'] w' by (simp add: b_def add.commute split: if_splits)
  have "kwalk fs [] (rev rc) (n + Suc b) = Some (d, k + Suc b)" by (rule kwalk_add [OF assms(1)])
  moreover have "kwalk fs d [c] (k + Suc b) = Some (loc, k1 + n + k)"
    using assms(2,3) kwalk_add [OF t, of k] by (simp add: kwalk_name [OF assms(4)] add.commute)
  ultimately show ?thesis using reaches_append [of fs "rev rc"] by simp
qed

lemma realpath_reaches:
  assumes "posix S fs" and "realpath_cache_size_limit g = 0" and "list_all name_ok rc"
    and "snd (resolve S m rc ll t d g) = Some (cs, e)" and "m = CWD_REALPATH"
  shows "reaches fs (rev rc) cs \<and> (d \<longrightarrow> fs cs = Some Directory)"
  using assms(2-5)
proof (induction S m rc ll t d g arbitrary: cs e rule: resolve_induct)
  case (Root m ll t d g)
  then show ?case using assms(1) by (auto simp: reaches_def posix_def tree_ok_def)
next
  case (Skip m c rc ll t d g)
  then show ?case using reaches_step(1) [of fs "rev rc" cs c] by auto
next
  case (Up m rc ll t d g g' r)
  then obtain cs0 e0 where "r = Some (cs0, e0)" "cs = butlast cs0" by auto
  with Up reaches_step(2) [of fs "rev rc" cs0] tree_ok_butlast [of fs cs0] assms(1) show ?case by (auto simp: posix_def)
next
  case (Link m c rc ll t d g t' g' rc')
  have ok: "list_all name_ok rc" "proper_name c" using Link(1-3,9) by (simp_all add: proper_name_def)
  have g': "g' = g" "t' = t" using Link(4,8) by (auto simp: no_cache)
  have m: "m \<noteq> CWD_EXPAND" using Link(11) by simp
  obtain tg l0 k where l: "sys_readlink S (rtext (c # rc)) = Some tg"
    "kwalk fs [] (rev rc) MAXSYMLINKS = Some (l0, k)" "fs (l0 @ [c]) = Some (Symlink tg)"
    by (rule posix_link [OF assms(1) ok m Link(5)])
  have l0: "fs l0 = Some Directory" using tree_ok_parent [of fs l0 "[c]"] l(3) assms(1) by (simp add: posix_def)
  have "list_all name_ok rc'" using link_components_ok [OF _ ok(1) Link(6)] assms(1) by (simp add: posix_def)
  moreover have "snd (resolve S m rc' (ll + 1) t' d g') = Some (cs, e)"
    using Link(10) resolve_no_cache [of g S m rc' "ll + 1" t d] Link(8) no_cache(2)
    by (cases "resolve S m rc' (ll + 1) t' d g'") (auto simp: g')
  ultimately have "reaches fs (rev rc') cs \<and> (d \<longrightarrow> fs cs = Some Directory)" using Link(7,8,11) g' by blast
  with reaches_link [OF l(2) l0 l(3) ok(2) Link(6) l(1)] show ?case by blast
next
  case (Join m c rc ll t d g t' g' st m')
  have ok: "list_all name_ok rc" "proper_name c" using Join(1-3,12) by (simp_all add: proper_name_def)
  have g': "g' = g" "t' = t" using Join(4,11) by (auto simp: no_cache)
  have m: "m \<noteq> CWD_EXPAND" using Join(14) by simp
  obtain x where x: "kstat fs rc c = Some x" "st = Some (kind_of x)"
    using posix_status [OF assms(1) ok m] Join(5,7,14) by auto
  obtain l0 k where l: "kwalk fs [] (rev rc) MAXSYMLINKS = Some (l0, k)" "fs (l0 @ [c]) = Some x"
    by (rule kstat_Some [OF x(1)])
  have l0: "fs l0 = Some Directory" using tree_ok_parent [of fs l0 "[c]"] l(2) assms(1) by (simp add: posix_def)
  have "resolve S m' rc ll t' True g' = (g, snd (resolve S m' rc ll t' True g'))"
    using resolve_no_cache [OF Join(11), of S m' rc ll t True] g' by (metis prod.collapse)
  with Join(13) obtain cs0 e0 where r: "snd (resolve S m' rc ll t' True g') = Some (cs0, e0)" "cs = cs0 @ [c]"
    by (metis join_no_cache [OF Join(11)])
  have "cs0 = l0"
    using resolve_follows_kernel [OF assms(1) Join(11) ok(1) _ l(1), of m'] r(1) g' x(2) Join(9) by auto
  moreover have "kwalk fs l0 [c] k = Some (l0 @ [c], k)"
    using l(2) l0 x(2) Join(6) by (cases x) (auto simp: kwalk_name [OF ok(2)])
  ultimately show ?case using reaches_append [OF l(1), of "[c]"] l(2) r(2) x(2) Join(6,8) by (cases x) auto
qed (auto simp: no_cache)

text \<open>A location is resolved to itself.\<close>

lemma resolve_located:
  assumes "posix S fs" and "realpath_cache_size_limit g = 0" and "canonical cs" and "located fs cs"
    and "d \<longrightarrow> fs cs = Some Directory" and "m \<noteq> CWD_EXPAND"
  shows "\<exists>e. resolve S m (rev cs) ll t d g = (g, Some (cs, e))"
  using assms(3-6)
proof (induction cs arbitrary: d m rule: rev_induct)
  case (snoc c cs)
  have tree: "tree_ok fs" using assms(1) by (simp add: posix_def)
  have c: "canonical cs" "proper_name c" "list_all name_ok cs"
    using canonical_append [OF snoc(2)] canonicalD [OF snoc(2)] by (auto simp: list_all_iff proper_name_def)
  have cs: "fs cs = Some Directory" using tree_ok_parent [OF tree, of cs "[c]"] snoc(3) by (auto simp: located_def)
  have "kwalk fs [] cs MAXSYMLINKS = Some (cs, MAXSYMLINKS)" using kwalk_dirs [OF tree, of "[]" cs] cs by simp
  then have "kstat fs (rev cs) c = fs (cs @ [c])" by (simp add: kstat_def)
  then have st: "status S m (rtext (c # rev cs)) = map_option kind_of (fs (cs @ [c]))"
    using posix_status [OF assms(1) _ c(2) snoc(5), of "rev cs"] c(3) by simp
  have "length (ctext (cs @ [c])) < MAXPATHLEN - 1" using snoc(2) by (simp add: canonical_def)
  moreover obtain e where "resolve S CWD_FILEPATH (rev cs) ll t True g = (g, Some (cs, e))"
    using snoc(1) [OF c(1), of True CWD_FILEPATH] cs by (auto simp: located_def)
  moreover have "consult S m p t g = (t, None, g)" for p using assms(2) by (simp add: no_cache)
  ultimately show ?case using st snoc(3,4) c(2)
    by (auto simp: resolve.simps(2) proper_name_def located_def join_component_def no_cache(2) [OF assms(2)] Let_def simp del: rtext_simps ctext_snoc)
qed auto

end
