(* ===== verification/Path_Resolver.thy ===== *)
theory Path_Resolver
  imports File_Tree Open_Basedir
begin

text \<open>
  The path resolution of the engine in its place: \<open>expand_filepath\<close> and \<open>tsrm_realpath\<close>, as modelled in
  \<open>Virtual_Cwd\<close>, provide what \<open>open_basedir\<close> relies on, on every file system the kernel can serve; the
  restriction then speaks about the locations of files.
\<close>

section \<open>The resolver of the engine\<close>

text \<open>
  The arguments of the C functions are C strings; the cache is off and the globals do not change.
\<close>

definition engine_expand :: "sys \<Rightarrow> virtual_cwd_globals \<Rightarrow> string \<Rightarrow> string option" where
  "engine_expand S g p =
     (if is_cstr p then (case expand_filepath S False p g of None \<Rightarrow> None | Some (r, _) \<Rightarrow> r) else None)"

definition engine_realpath :: "sys \<Rightarrow> virtual_cwd_globals \<Rightarrow> string \<Rightarrow> string option" where
  "engine_realpath S g p =
     (if is_cstr p then (case tsrm_realpath S p g of None \<Rightarrow> None | Some (r, _) \<Rightarrow> r) else None)"

definition with_engine :: "('w \<Rightarrow> sys) \<Rightarrow> virtual_cwd_globals \<Rightarrow> 'w externals \<Rightarrow> 'w externals" where
  "with_engine S g E = E\<lparr>x_expand_filepath := (\<lambda>w. engine_expand (S w) g), x_realpath := (\<lambda>w. engine_realpath (S w) g),
     x_readlink := (\<lambda>w. sys_readlink (S w)), x_getcwd := (\<lambda>w. sys_getcwd (S w))\<rparr>"

lemma with_engine_simps [simp]:
  "x_expand_filepath (with_engine S g E) w = engine_expand (S w) g"
  "x_realpath (with_engine S g E) w = engine_realpath (S w) g"
  "x_readlink (with_engine S g E) w = sys_readlink (S w)"
  "x_getcwd (with_engine S g E) w = sys_getcwd (S w)"
  by (simp_all add: with_engine_def)

text \<open>A file system served by the kernel, with an existing working directory.\<close>

definition serves_paths :: "sys \<Rightarrow> tree \<Rightarrow> string list \<Rightarrow> bool" where
  "serves_paths S fs dir \<longleftrightarrow> posix S fs \<and> buffer_ok S \<and> sys_getcwd S = Some (ctext dir)
     \<and> canonical dir \<and> fs dir = Some Directory \<and> length (ctext dir) + 2 < MAXPATHLEN - 1"

definition cache_off :: "virtual_cwd_globals \<Rightarrow> bool" where
  "cache_off g \<longleftrightarrow> realpath_cache_size_limit g = 0 \<and> (\<forall>n. realpath_cache g n = [])"

lemma cache_off_ok: "cache_off g \<Longrightarrow> cache_ok g" "cache_off g \<Longrightarrow> realpath_cache_size_limit g = 0"
  by (simp_all add: cache_off_def cache_ok_def)

section \<open>What the two functions compute\<close>

lemma ctext_absolute [simp]: "IS_ABSOLUTE_PATH (ctext cs)"
  by (cases cs) (auto simp: ctext_def IS_ABSOLUTE_PATH_Cons)

lemma ctext_cstr: "canonical cs \<Longrightarrow> is_cstr (ctext cs)"
  by (auto simp: is_cstr_def ctext_def slashed_def NUL_def canonical_def list_all_iff proper_name_def name_ok_def)

lemma plain_ctext:
  assumes "canonical cs"
  shows "plain_path (ctext cs)" and "cs \<noteq> [] \<Longrightarrow> last (ctext cs) \<noteq> CHR ''/''" and "ctext cs = ''/'' \<longleftrightarrow> cs = []"
proof -
  show l: "last (ctext cs) \<noteq> CHR ''/''" if "cs \<noteq> []"
    using that canonicalD [OF assms, of "last cs"]
    by (cases cs rule: rev_cases) (auto simp: proper_name_def name_ok_def dest: last_in_set)
  show e: "ctext cs = ''/'' \<longleftrightarrow> cs = []" using l by (cases "cs = []") (auto simp: ctext_def)
  show "plain_path (ctext cs)"
    using assms l e by (cases "cs = []") (auto simp: plain_path_def canonical_def)
qed

text \<open>The result of the resolution of a text, the cache being off.\<close>

definition found :: "sys \<Rightarrow> cwd_mode \<Rightarrow> virtual_cwd_globals \<Rightarrow> string \<Rightarrow> string list option" where
  "found S m g p = map_option fst (snd (resolve S m (rev (path_names p)) 0 (if realpath_cache_ttl g \<noteq> 0 then 0 else -1) False g))"

definition fits :: "string list \<Rightarrow> string \<Rightarrow> bool" where
  "fits dir path \<longleftrightarrow> path \<noteq> [] \<and> length path < MAXPATHLEN - 1
     \<and> (IS_ABSOLUTE_PATH path \<or> length path + length (ctext dir) + 1 < MAXPATHLEN - 1)"

lemma virtual_file_ex_engine:
  assumes "serves_paths S fs dir" "cache_off g" "is_cstr path" "IS_ABSOLUTE_PATH path \<or> c = ctext dir" "is_cstr c"
  shows "virtual_file_ex S \<lparr>cwd = c\<rparr> path None m g =
    (if \<not> (path \<noteq> [] \<and> length path < MAXPATHLEN - 1 \<and> (IS_ABSOLUTE_PATH path \<or> length path + length c + 1 < MAXPATHLEN - 1))
     then Some (1, \<lparr>cwd = c\<rparr>, g)
     else case found S m g (full_text c path) of
       None \<Rightarrow> Some (1, \<lparr>cwd = c\<rparr>, g)
     | Some cs \<Rightarrow> Some (0, \<lparr>cwd = ctext cs @ (if m \<noteq> CWD_REALPATH \<and> last (full_text c path) = CHR ''/'' \<and> cs \<noteq> [] then ''/'' else [])\<rparr>, g))"
proof -
  have ok: "links_ok S" "buffer_ok S" "cache_ok g" "NUL \<notin> set path" "NUL \<notin> set (cwd \<lparr>cwd = c\<rparr>)"
    "IS_ABSOLUTE_PATH path \<or> IS_ABSOLUTE_PATH (cwd \<lparr>cwd = c\<rparr>)"
    using assms cache_off_ok(1) by (auto simp: serves_paths_def posix_def is_cstr_def)
  let ?t = "if realpath_cache_ttl g \<noteq> 0 then 0 else -1 :: int"
  let ?R = "resolve S m (rev (path_names (full_text c path))) 0 ?t False g"
  have "fst ?R = g" by (rule resolve_no_cache [OF cache_off_ok(2) [OF assms(2)]])
  then obtain r where R: "?R = (g, r)" by (metis prod.collapse)
  with virtual_file_ex_eq [OF ok, of None m] show ?thesis
    by (cases r) (auto simp: resolved_text_def found_def Let_def)
qed

lemma found_canonical:
  assumes "serves_paths S fs dir" "cache_off g" "is_cstr p" "IS_ABSOLUTE_PATH p" "found S m g p = Some cs"
  shows "canonical cs"
proof -
  have "list_all name_ok (rev (path_names p))" using path_names_ok [of p] assms(3,4) by (auto simp: is_cstr_def list_all_iff)
  moreover have "links_ok S" using assms(1) by (simp add: serves_paths_def posix_def)
  ultimately show ?thesis using assms(5)
      resolve_canonical [OF _ _ cache_off_ok(1) [OF assms(2)], of S "rev (path_names p)" m 0 "if realpath_cache_ttl g \<noteq> 0 then 0 else -1" False]
    by (auto simp: found_def)
qed

lemma full_text_engine:
  assumes "canonical dir" "is_cstr path"
  shows "is_cstr (full_text (ctext dir) path)" "IS_ABSOLUTE_PATH (full_text (ctext dir) path)"
    "path \<noteq> [] \<Longrightarrow> last (full_text (ctext dir) path) = last path"
  using assms ctext_cstr [OF assms(1)] ctext_absolute [of dir]
  by (auto simp: full_text_def is_cstr_def NUL_def IS_ABSOLUTE_PATH_Cons)

lemma take_text: "canonical cs \<Longrightarrow> take (MAXPATHLEN - 1) (ctext cs @ (if b then ''/'' else [])) = ctext cs @ (if b then ''/'' else [])"
  by (auto simp: canonical_def)

lemma engine_expand_eq:
  assumes "serves_paths S fs dir" "cache_off g" "is_cstr p"
  shows "engine_expand S g p = (if fits dir p then
      map_option (\<lambda>cs. ctext cs @ (if last p = CHR ''/'' \<and> cs \<noteq> [] then ''/'' else [])) (found S CWD_FILEPATH g (full_text (ctext dir) p))
    else None)"
proof -
  have dir: "canonical dir" "sys_getcwd S = Some (ctext dir)" using assms(1) by (simp_all add: serves_paths_def)
  define c where "c = (if IS_ABSOLUTE_PATH p then [] else ctext dir)"
  have c: "IS_ABSOLUTE_PATH p \<or> c = ctext dir" "is_cstr c" "full_text c p = full_text (ctext dir) p"
    using ctext_cstr [OF dir(1)] by (auto simp: c_def is_cstr_def full_text_def)
  have e: "expand_filepath S False p g = (if p = [] then Some (None, g) else do {
      (r, state, g) \<leftarrow> virtual_file_ex S \<lparr>cwd = c\<rparr> p None CWD_FILEPATH g;
      Some (if r \<noteq> 0 then None else Some (take (MAXPATHLEN - 1) (cwd state)), g) })"
    using dir(2) by (simp add: expand_filepath_def expand_filepath_ex_def expand_filepath_with_mode_def Let_def c_def)
  have can: "found S CWD_FILEPATH g (full_text (ctext dir) p) = Some cs \<Longrightarrow> canonical cs" for cs
    by (rule found_canonical [OF assms(1,2) full_text_engine(1,2) [OF dir(1) assms(3)]])
  have fit: "p \<noteq> [] \<and> length p < MAXPATHLEN - 1 \<and> (IS_ABSOLUTE_PATH p \<or> length p + length c + 1 < MAXPATHLEN - 1) \<longleftrightarrow> fits dir p"
    by (auto simp: fits_def c_def)
  show ?thesis
  proof (cases "fits dir p")
    case False
    then show ?thesis using assms(3) virtual_file_ex_engine [OF assms c(1,2), of CWD_FILEPATH] unfolding fit
      by (simp add: engine_expand_def e)
  next
    case True
    then have "p \<noteq> []" by (simp add: fits_def)
    show ?thesis
    proof (cases "found S CWD_FILEPATH g (full_text (ctext dir) p)")
      case None
      with True \<open>p \<noteq> []\<close> assms(3) virtual_file_ex_engine [OF assms c(1,2), of CWD_FILEPATH] show ?thesis unfolding fit
        by (simp add: engine_expand_def e c(3))
    next
      case (Some cs)
      with True \<open>p \<noteq> []\<close> assms(3) virtual_file_ex_engine [OF assms c(1,2), of CWD_FILEPATH] full_text_engine(3) [OF dir(1) assms(3)]
        take_text [OF can [OF Some], of "last p = CHR ''/'' \<and> cs \<noteq> []"]
      show ?thesis unfolding fit by (simp add: engine_expand_def e c(3))
    qed
  qed
qed

lemma engine_realpath_eq:
  assumes "serves_paths S fs dir" "cache_off g" "is_cstr p" "p \<noteq> []"
  shows "engine_realpath S g p = (if fits dir p then map_option ctext (found S CWD_REALPATH g (full_text (ctext dir) p)) else None)"
proof -
  have dir: "canonical dir" "sys_getcwd S = Some (ctext dir)" using assms(1) by (simp_all add: serves_paths_def)
  define c where "c = (if IS_ABSOLUTE_PATH p then [] else ctext dir)"
  have c: "IS_ABSOLUTE_PATH p \<or> c = ctext dir" "is_cstr c" "full_text c p = full_text (ctext dir) p"
    using ctext_cstr [OF dir(1)] by (auto simp: c_def is_cstr_def full_text_def)
  have e: "tsrm_realpath S p g = do {
      (r, state, g) \<leftarrow> virtual_file_ex S \<lparr>cwd = c\<rparr> p None CWD_REALPATH g;
      Some (if r \<noteq> 0 then None else Some (take (MAXPATHLEN - 1) (cwd state)), g) }"
    using dir(2) assms(4) by (simp add: tsrm_realpath_def c_def)
  have can: "found S CWD_REALPATH g (full_text (ctext dir) p) = Some cs \<Longrightarrow> canonical cs" for cs
    by (rule found_canonical [OF assms(1,2) full_text_engine(1,2) [OF dir(1) assms(3)]])
  have fit: "p \<noteq> [] \<and> length p < MAXPATHLEN - 1 \<and> (IS_ABSOLUTE_PATH p \<or> length p + length c + 1 < MAXPATHLEN - 1) \<longleftrightarrow> fits dir p"
    by (auto simp: fits_def c_def)
  show ?thesis
    using assms(3) virtual_file_ex_engine [OF assms(1-3) c(1,2), of CWD_REALPATH] can take_text [of _ False] unfolding fit
    by (cases "found S CWD_REALPATH g (full_text (ctext dir) p)") (auto simp: engine_realpath_def e c(3))
qed

lemma engine_realpath_empty:
  assumes "serves_paths S fs dir" "cache_off g"
  shows "engine_realpath S g [] = engine_realpath S g (ctext dir)"
proof -
  have "sys_getcwd S = Some (ctext dir)" "is_cstr (ctext dir)" using assms(1) ctext_cstr by (simp_all add: serves_paths_def)
  then show ?thesis by (simp add: engine_realpath_def tsrm_realpath_def is_cstr_def)
qed

section \<open>Locations\<close>

lemma located_reaches:
  assumes "tree_ok fs" "located fs cs"
  shows "reaches fs cs cs"
proof (cases cs rule: rev_cases)
  case (snoc ds c)
  have "fs ds = Some Directory" using tree_ok_parent [OF assms(1), of ds "[c]"] assms(2) snoc by (auto simp: located_def)
  then have k: "kwalk fs [] ds n = Some (ds, n)" for n using kwalk_dirs [OF assms(1), of "[]" ds n] by simp
  have "proper_name c" using located_names [OF assms] snoc by simp
  then have "kwalk fs ds [c] 0 = Some (ds @ [c], 0)"
    using assms(2) \<open>fs ds = Some Directory\<close> snoc by (auto simp: kwalk_name located_def)
  with reaches_append [OF k [of 0], of "[c]"] snoc show ?thesis by simp
qed (auto simp: reaches_def)

lemma path_names_ctext:
  assumes "canonical cs" "cs \<noteq> []"
  shows "path_names (ctext cs) = cs" "CHR ''/'' \<notin> set d \<Longrightarrow> path_names (ctext cs @ CHR ''/'' # d) = cs @ [d]"
proof -
  have sf: "\<forall>c \<in> set cs. CHR ''/'' \<notin> set c" by (rule canonical_slash_free [OF assms(1)])
  show "path_names (ctext cs) = cs" using assms(2) split_slashed_names [OF assms(2) sf] by (simp add: path_names_def ctext_def)
  show "path_names (ctext cs @ CHR ''/'' # d) = cs @ [d]" if "CHR ''/'' \<notin> set d"
  proof -
    have "split_sep (CHR ''/'') (tl (slashed (cs @ [d]))) = cs @ [d]" by (rule split_slashed_names) (use sf that in auto)
    then show ?thesis using assms(2) by (simp add: path_names_def ctext_def)
  qed
qed

lemma split_sep_empty: "split_sep (CHR ''/'') [] = [[]]"
  by (rule split_sep_no_sep) simp

lemma split_sep_slash: "split_sep (CHR ''/'') ([] @ CHR ''/'' # []) = [] # split_sep (CHR ''/'') []"
  by (rule split_sep_append) simp

lemma split_sep_dot: "split_sep (CHR ''/'') ''.'' = [''.'']"
  by (rule split_sep_no_sep) simp

lemma path_names_root1: "path_names ''/'' = [[]]"
  by (simp only: path_names_def list.sel split_sep_empty)

lemma path_names_root2: "path_names ''//'' = [[], []]"
  using split_sep_slash by (simp only: path_names_def list.sel split_sep_empty append_Nil)

lemma path_names_root3: "path_names ''/.'' = [''.'']"
  by (simp only: path_names_def list.sel split_sep_dot)

lemma fits_canonical: "canonical cs \<Longrightarrow> fits dir (ctext cs)"
  by (auto simp: fits_def canonical_def)

lemma full_text_absolute: "IS_ABSOLUTE_PATH p \<Longrightarrow> full_text d p = p"
  by (simp add: full_text_def)

lemma found_located:
  assumes "serves_paths S fs dir" "cache_off g" "canonical cs" "located fs cs" "m \<noteq> CWD_EXPAND"
  shows "found S m g (ctext cs) = Some cs"
    and "fs cs = Some Directory \<Longrightarrow> found S m g (ctext cs @ ''/'') = Some cs"
    and "fs cs = Some Directory \<Longrightarrow> found S m g (full_text (ctext cs) ''.'') = Some cs"
proof -
  have posix: "posix S fs" using assms(1) by (simp add: serves_paths_def)
  let ?t = "if realpath_cache_ttl g \<noteq> 0 then 0 else -1 :: int"
  note res = resolve_located [OF posix cache_off_ok(2) [OF assms(2)] assms(3,4) _ assms(5), of _ 0 ?t]
  have skip: "resolve S m ([] # rc) 0 ?t d g = resolve S m rc 0 ?t True g" "resolve S m (''.'' # rc) 0 ?t d g = resolve S m rc 0 ?t True g"
    for rc d by (simp_all add: resolve.simps(2))
  have dot: "full_text (ctext cs) ''.'' = (if cs = [] then ''/.'' else ctext cs @ ''/.'')"
    using plain_ctext(2) [OF assms(3)] by (auto simp: full_text_def IS_ABSOLUTE_PATH_Cons ctext_def)
  have f: "found S m g p = Some cs"
    if "rev (path_names p) = c # rev cs" "c = [] \<or> c = ''.''" "fs cs = Some Directory" for p c
  proof -
    have "\<exists>e. resolve S m (rev cs) 0 ?t True g = (g, Some (cs, e))" using res [of True] that(3) by blast
    then show ?thesis using that(2) skip by (auto simp: found_def that(1))
  qed
  have root: "fs [] = Some Directory" using posix by (simp add: posix_def tree_ok_def)
  show "found S m g (ctext cs) = Some cs"
  proof (cases "cs = []")
    case True
    then show ?thesis using f [of "ctext cs" "[]"] root path_names_root1 by (simp add: ctext_def)
  next
    case False
    obtain e where "resolve S m (rev cs) 0 ?t False g = (g, Some (cs, e))" using res [of False] by auto
    then show ?thesis using path_names_ctext(1) [OF assms(3) False] by (simp add: found_def)
  qed
  show "found S m g (ctext cs @ ''/'') = Some cs" if "fs cs = Some Directory"
  proof (cases "cs = []")
    case True
    have "resolve S m [[], []] 0 ?t False g = (g, Some ([], True))" using skip by simp
    then show ?thesis using True path_names_root2 by (simp add: ctext_def found_def)
  next
    case False
    then show ?thesis using f [of "ctext cs @ ''/''" "[]"] path_names_ctext(2) [OF assms(3) False, of "[]"] that by simp
  qed
  show "found S m g (full_text (ctext cs) ''.'') = Some cs" if "fs cs = Some Directory"
  proof (cases "cs = []")
    case True
    with that have "found S m g ''/.'' = Some cs" using f [of "''/.''" "''.''"] path_names_root3 by simp
    then show ?thesis unfolding dot by (simp add: True)
  next
    case False
    then show ?thesis using f [of "ctext cs @ ''/.''" "''.''"] path_names_ctext(2) [OF assms(3) False, of "''.''"] that by (simp add: dot)
  qed
qed

text \<open>\<open>realpath\<close> finds the location of the file, if there is one.\<close>

lemma engine_realpath_reaches:
  assumes "serves_paths S fs dir" "cache_off g" "is_cstr p" "p \<noteq> []" "engine_realpath S g p = Some r"
  shows "\<exists>loc. r = ctext loc \<and> canonical loc \<and> located fs loc \<and> reaches fs (path_names (full_text (ctext dir) p)) loc"
proof -
  let ?p = "full_text (ctext dir) p"
  have dir: "canonical dir" and posix: "posix S fs" using assms(1) by (simp_all add: serves_paths_def)
  note p = full_text_engine(1,2) [OF dir assms(3)]
  obtain loc where loc: "found S CWD_REALPATH g ?p = Some loc" "r = ctext loc"
    using assms(5) engine_realpath_eq [OF assms(1-4)] by (auto split: if_splits)
  have "list_all name_ok (rev (path_names ?p))" using path_names_ok [of ?p] p by (auto simp: is_cstr_def list_all_iff)
  with loc(1) have w: "reaches fs (path_names ?p) loc"
    using realpath_reaches [OF posix cache_off_ok(2) [OF assms(2)], of "rev (path_names ?p)" CWD_REALPATH 0
        "if realpath_cache_ttl g \<noteq> 0 then 0 else -1" False loc] by (auto simp: found_def)
  moreover have "located fs loc" using reaches_located [OF _ w] posix by (simp add: posix_def)
  ultimately show ?thesis using loc found_canonical [OF assms(1,2) p loc(1)] by blast
qed

section \<open>The contract of open_basedir\<close>

lemma prefix_slashed:
  assumes "prefix (b @ ''/'') (slashed cs)" "\<forall>c \<in> set cs. CHR ''/'' \<notin> set c"
  shows "\<exists>ds es. cs = ds @ es \<and> b = slashed ds"
  using assms
proof (induction cs arbitrary: b)
  case (Cons c cs)
  show ?case
  proof (cases b)
    case Nil
    then show ?thesis by (metis append_Nil slashed_simps(1))
  next
    case (Cons x b')
    with Cons.prems have x: "x = CHR ''/''" and p: "prefix (b' @ ''/'') (c @ slashed cs)" and c: "CHR ''/'' \<notin> set c" by simp_all
    have "\<not> prefix (b' @ ''/'') c" using c set_mono_prefix [of "b' @ ''/''" c] by auto
    with p obtain r where r: "b' @ ''/'' = c @ r" "prefix r (slashed cs)" by (auto simp: prefix_append)
    then have "r \<noteq> []" using c by (auto dest: arg_cong [where f = set])
    then obtain r' where r': "r = r' @ ''/''" using r(1) by (cases r rule: rev_cases) auto
    with r have "b' = c @ r'" by simp
    moreover obtain ds es where "cs = ds @ es" "r' = slashed ds" using Cons.IH [of r'] r(2) r' Cons.prems(2) by auto
    ultimately show ?thesis using Cons x by (intro exI [of _ "c # ds"] exI [of _ es]) simp
  qed
qed simp

lemma in_tree_ctext:
  assumes "canonical cs" "in_tree b (ctext cs)" "b \<noteq> []"
  obtains ds es where "cs = ds @ es" "b = ctext ds"
proof (cases "b = ctext cs")
  case False
  then have p: "prefix (b @ ''/'') (ctext cs)" using assms(2) by (auto simp: in_tree_def)
  with assms(3) have "cs \<noteq> []" by (auto simp: ctext_def prefix_Cons append_eq_Cons_conv)
  with p obtain ds es where "cs = ds @ es" "b = slashed ds"
    using prefix_slashed [of b cs] canonical_slash_free [OF assms(1)] by (auto simp: ctext_def)
  with that assms(3) show thesis by (auto simp: ctext_def)
next
  case True
  with that [of cs "[]"] show thesis by simp
qed

text \<open>A location is its own real path; written with a slash it is, or the name is not that of a directory.\<close>

lemma engine_realpath_located:
  assumes "serves_paths S fs dir" "cache_off g" "canonical ds" "located fs ds"
  shows "engine_realpath S g (ctext ds) = Some (ctext ds)"
    and "engine_realpath S g (ctext ds @ ''/'') = Some (ctext ds) \<or> engine_realpath S g (ctext ds @ ''/'') = None"
proof -
  have posix: "posix S fs" using assms(1) by (simp add: serves_paths_def)
  have c: "is_cstr (ctext ds)" "is_cstr (ctext ds @ ''/'')" using ctext_cstr [OF assms(3)] by (auto simp: is_cstr_def NUL_def)
  show "engine_realpath S g (ctext ds) = Some (ctext ds)"
    using engine_realpath_eq [OF assms(1,2) c(1)] fits_canonical [OF assms(3)] found_located(1) [OF assms]
    by (simp add: full_text_absolute)
  have a: "IS_ABSOLUTE_PATH (ctext ds @ ''/'')" using ctext_absolute [of ds] by (auto simp: IS_ABSOLUTE_PATH_Cons)
  have "loc = ds" if f: "found S CWD_REALPATH g (ctext ds @ ''/'') = Some loc" for loc
  proof (cases "fs ds = Some Directory")
    case True
    with found_located(2) [OF assms, of CWD_REALPATH] f show ?thesis by simp
  next
    case False
    then have "ds \<noteq> []" using posix by (auto simp: posix_def tree_ok_def)
    note n = path_names_ctext(2) [OF assms(3) this, of "[]"]
    have "list_all name_ok (rev ds)" using assms(3) by (auto simp: canonical_def list_all_iff proper_name_def)
    with f have "reaches fs ds loc"
      using realpath_reaches [OF posix cache_off_ok(2) [OF assms(2)], of "rev ds" CWD_REALPATH 0
          "if realpath_cache_ttl g \<noteq> 0 then 0 else -1" True loc]
      by (auto simp: found_def n resolve.simps(2))
    with located_reaches [OF _ assms(4)] reaches_unique posix show ?thesis by (auto simp: posix_def)
  qed
  then show "engine_realpath S g (ctext ds @ ''/'') = Some (ctext ds) \<or> engine_realpath S g (ctext ds @ ''/'') = None"
    using engine_realpath_eq [OF assms(1,2) c(2)] by (auto simp: full_text_absolute [OF a])
qed

lemma engine_expand_plain:
  assumes "serves_paths S fs dir" "cache_off g" "engine_expand S g p = Some q"
  shows "length p + 1 < MAXPATHLEN \<and> (\<exists>n. plain_path n \<and> (q = n \<or> last p = CHR ''/'' \<and> n \<noteq> ''/'' \<and> q = n @ ''/''))"
proof -
  have p: "is_cstr p" using assms(3) by (simp add: engine_expand_def split: if_splits)
  have dir: "canonical dir" using assms(1) by (simp add: serves_paths_def)
  obtain cs where cs: "fits dir p" "found S CWD_FILEPATH g (full_text (ctext dir) p) = Some cs"
    "q = ctext cs @ (if last p = CHR ''/'' \<and> cs \<noteq> [] then ''/'' else [])"
    using assms(3) engine_expand_eq [OF assms(1,2) p] by (auto split: if_splits)
  have c: "canonical cs" by (rule found_canonical [OF assms(1,2) full_text_engine(1,2) [OF dir p] cs(2)])
  have "plain_path (ctext cs)" "ctext cs = ''/'' \<longleftrightarrow> cs = []" using plain_ctext [OF c] by auto
  then show ?thesis using cs(1,3) by (intro conjI exI [of _ "ctext cs"]) (auto simp: fits_def)
qed

lemma engine_realpath_plain:
  assumes "serves_paths S fs dir" "cache_off g" "engine_realpath S g a = Some r"
  shows "plain_path r \<and> (\<forall>b. b \<noteq> [] \<and> in_tree b r \<longrightarrow> engine_realpath S g b = Some b \<and>
    (engine_realpath S g (b @ ''/'') = Some b \<or> engine_realpath S g (b @ ''/'') = None \<and> sys_readlink S (b @ ''/'') = None))"
proof -
  have dir: "canonical dir" and posix: "posix S fs" using assms(1) by (simp_all add: serves_paths_def)
  have a: "is_cstr a" using assms(3) by (simp add: engine_realpath_def split: if_splits)
  define a' where "a' = (if a = [] then ctext dir else a)"
  have "engine_realpath S g a' = Some r" "is_cstr a'" "a' \<noteq> []"
    using assms(3) a ctext_cstr [OF dir] engine_realpath_empty [OF assms(1,2)] by (auto simp: a'_def)
  with engine_realpath_reaches [OF assms(1,2)] obtain loc where loc: "r = ctext loc" "canonical loc" "located fs loc" by blast
  have "engine_realpath S g b = Some b \<and>
      (engine_realpath S g (b @ ''/'') = Some b \<or> engine_realpath S g (b @ ''/'') = None \<and> sys_readlink S (b @ ''/'') = None)"
    if b: "b \<noteq> []" "in_tree b r" for b
  proof -
    obtain ds es where ds: "loc = ds @ es" "b = ctext ds" using in_tree_ctext [OF loc(2) _ b(1)] b(2) loc(1) by blast
    have "canonical ds" "located fs ds"
      using canonical_append loc(2) located_prefix [of fs ds es] loc(3) posix ds(1) by (auto simp: posix_def)
    with engine_realpath_located [OF assms(1,2)] ds(2) posix show ?thesis by (auto simp: posix_def)
  qed
  with plain_ctext(1) [OF loc(2)] loc(1) show ?thesis by blast
qed

lemma engine_expand_cwd:
  assumes "serves_paths S fs dir" "cache_off g"
  shows "engine_expand S g ''.'' = Some (ctext dir)" "engine_expand S g (ctext dir) = Some (ctext dir)"
proof -
  have d: "canonical dir" "fs dir = Some Directory" "located fs dir" "length (ctext dir) + 2 < MAXPATHLEN - 1"
    using assms(1) by (simp_all add: serves_paths_def located_def)
  show "engine_expand S g ''.'' = Some (ctext dir)"
    using engine_expand_eq [OF assms, of "''.''"] found_located(3) [OF assms d(1,3) _ d(2), of CWD_FILEPATH] d(4)
    by (simp add: fits_def is_cstr_def NUL_def)
  show "engine_expand S g (ctext dir) = Some (ctext dir)"
    using engine_expand_eq [OF assms ctext_cstr [OF d(1)]] found_located(1) [OF assms d(1,3), of CWD_FILEPATH]
      fits_canonical [OF d(1)] plain_ctext(2) [OF d(1)] by (cases "dir = []") (simp_all add: full_text_absolute)
qed

section \<open>What open_basedir says about the files\<close>

text \<open>The file a path names, for the kernel.\<close>

definition file_at :: "tree \<Rightarrow> string list \<Rightarrow> string \<Rightarrow> string list \<Rightarrow> bool" where
  "file_at fs dir path loc \<longleftrightarrow> (\<exists>n. kwalk fs [] (path_names (full_text (ctext dir) path)) MAXSYMLINKS = Some (loc, n))"

lemma file_at_located: "tree_ok fs \<Longrightarrow> file_at fs dir path loc \<Longrightarrow> located fs loc"
  by (auto simp: file_at_def intro: kwalk_located located_root)

lemma engine_expand_file:
  assumes "serves_paths S fs dir" "cache_off g" "file_at fs dir path loc" "engine_expand S g path = Some q"
  shows "canonical loc \<and> located fs loc \<and> (q = ctext loc \<or> q = ctext loc @ ''/'')"
proof -
  let ?p = "full_text (ctext dir) path"
  have dir: "canonical dir" and posix: "posix S fs" using assms(1) by (simp_all add: serves_paths_def)
  have path: "is_cstr path" using assms(4) by (simp add: engine_expand_def split: if_splits)
  note p = full_text_engine(1,2) [OF dir path]
  obtain cs where cs: "found S CWD_FILEPATH g ?p = Some cs" "q = ctext cs \<or> q = ctext cs @ ''/''"
    using assms(4) engine_expand_eq [OF assms(1,2) path] by (auto split: if_splits)
  have "list_all name_ok (rev (path_names ?p))" using path_names_ok [of ?p] p by (auto simp: is_cstr_def list_all_iff)
  with cs(1) assms(3) have "cs = loc"
    using resolve_follows_kernel [OF posix cache_off_ok(2) [OF assms(2)], of "rev (path_names ?p)" CWD_FILEPATH loc]
    by (auto simp: found_def file_at_def)
  with cs found_canonical [OF assms(1,2) p cs(1)] file_at_located [OF _ assms(3)] posix show ?thesis by (auto simp: posix_def)
qed

lemma resolve_name_file:
  assumes "serves_paths (S w) fs dir" "cache_off g" "canonical loc" "located fs loc" "q = ctext loc \<or> q = ctext loc @ ''/''"
    and "resolve_name (with_engine S g E) w q = Some (rn, t, l)"
  shows "rn = ctext loc"
proof -
  have "sys_readlink (S w) (ctext loc @ ''/'') = None" using assms(1) by (simp add: serves_paths_def posix_def)
  then show ?thesis using engine_realpath_located [OF assms(1-4)]
    by (intro resolve_name_base [OF assms(5) ctext_neq_Nil _ _ assms(6)]) simp_all
qed

lemma in_tree_names:
  assumes "canonical ds" "canonical cs" "in_tree (ctext ds) (ctext cs)"
  shows "prefix ds cs"
proof -
  obtain es fs where es: "cs = es @ fs" "ctext ds = ctext es" by (rule in_tree_ctext [OF assms(2,3) ctext_neq_Nil])
  have "canonical es" using assms(2) canonical_append es(1) by blast
  then have "ds = es" using names_ctext [OF assms(1)] names_ctext es(2) by metis
  with es(1) show ?thesis by simp
qed

lemma engine_resolver_ok:
  assumes "serves_paths (S w) fs dir" "cache_off g"
  shows "resolver_ok (with_engine S g E) w"
proof -
  have dir: "sys_getcwd (S w) = Some (ctext dir)" and tree: "tree_ok fs" using assms(1) by (simp_all add: serves_paths_def posix_def)
  have empty: "engine_expand (S w) g [] = None"
    using engine_expand_eq [OF assms, of "[]"] by (simp add: fits_def is_cstr_def)
  have cwd: "engine_expand (S w) g ''.'' = engine_expand (S w) g (ctext dir)" using engine_expand_cwd [OF assms] by simp
  have "canonical []" by (simp add: canonical_def ctext_def MAXPATHLEN_def)
  then have root: "engine_realpath (S w) g ''/'' = Some ''/''"
    using engine_realpath_located(1) [OF assms _ located_root [OF tree]] by (simp add: ctext_def)
  show ?thesis
    unfolding resolver_ok_def with_engine_simps dir
    using empty root engine_expand_plain [OF assms] engine_realpath_plain [OF assms] cwd by blast
qed

lemma base_of_ctext:
  assumes "resolver_ok E w" "x_expand_filepath E w (basedir_dir E w d) = Some rb" "canonical dl" "rb = ctext dl \<or> rb = ctext dl @ ''/''"
  shows "dl = [] \<or> base_of d rb = ctext dl"
proof (cases "dl = []")
  case False
  obtain n where n: "plain_path n" "rb = n \<or> rb = n @ ''/'' \<and> n \<noteq> ''/''"
    "base_of d rb = (if n = ''/'' \<and> last d = CHR ''/'' then [] else n)"
    by (rule base_of_cases [OF assms(1,2)])
  have l: "last (ctext dl) \<noteq> CHR ''/''" "ctext dl \<noteq> ''/''" using plain_ctext(2,3) [OF assms(3)] False by auto
  have "n = ctext dl"
  proof (rule ccontr)
    assume "n \<noteq> ctext dl"
    with n(2) assms(4) consider "n = ctext dl @ ''/''" | "ctext dl = n @ ''/''" by auto
    then show False
    proof cases
      case 1
      then have "n = ''/''" using plain_pathD(2) [OF n(1)] by simp
      with 1 show False by simp
    next
      case 2
      with l(1) show False by simp
    qed
  qed
  with n(3) l(2) show ?thesis by simp
qed simp

section \<open>A tree with its system calls\<close>

text \<open>Every tree has system calls that answer from it, so \<open>posix\<close> can be met.\<close>

definition entry :: "tree \<Rightarrow> string \<Rightarrow> node option" where
  "entry fs p = (if IS_ABSOLUTE_PATH p \<and> last p \<noteq> CHR ''/'' then
     (case rev (path_names p) of c # rc \<Rightarrow> if proper_name c then kstat fs rc c else None | [] \<Rightarrow> None) else None)"

definition tree_sys :: "tree \<Rightarrow> string list \<Rightarrow> sys" where
  "tree_sys fs dir = \<lparr>sys_lstat = (\<lambda>p. map_option kind_of (entry fs p)),
     sys_stat = (\<lambda>p. case kwalk fs [] (path_names p) MAXSYMLINKS of None \<Rightarrow> None | Some (l, _) \<Rightarrow> map_option kind_of (fs l)),
     sys_readlink = (\<lambda>p. case entry fs p of Some (Symlink t) \<Rightarrow> Some t | _ \<Rightarrow> None),
     sys_getcwd = Some (ctext dir), sys_time = 0, sys_can_open = (\<lambda>p. True), sys_stack = replicate MAXPATHLEN NUL\<rparr>"

lemma entry_rtext:
  assumes "list_all name_ok rc" "proper_name c"
  shows "entry fs (rtext (c # rc)) = kstat fs rc c"
proof -
  have c: "c \<noteq> []" "CHR ''/'' \<notin> set c" using assms(2) by (auto simp: proper_name_def name_ok_def)
  have "split_sep (CHR ''/'') (tl (slashed (rev (c # rc)))) = rev (c # rc)"
    by (rule split_slashed_names) (use assms c in \<open>auto simp: name_ok_def list_all_iff\<close>)
  then have "path_names (rtext (c # rc)) = rev (c # rc)" by (simp add: path_names_def rtext_def)
  moreover have "last c \<noteq> CHR ''/''" using c last_in_set by metis
  moreover have "last (rtext (c # rc)) = last c" using c(1) by simp
  moreover have "IS_ABSOLUTE_PATH (rtext (c # rc))"
    by (cases rc rule: rev_cases) (auto simp: IS_ABSOLUTE_PATH_Cons rtext_def)
  ultimately show ?thesis using assms(2) by (simp add: entry_def del: rtext_simps)
qed

lemma tree_sys_posix:
  assumes "tree_ok fs"
  shows "posix (tree_sys fs dir) fs"
proof -
  have "length t < MAXPATHLEN \<and> NUL \<notin> set t" if "entry fs p = Some (Symlink t)" for p t
    using that assms by (auto simp: entry_def tree_ok_def split: if_splits list.splits elim!: kstat_Some)
  then have "links_ok (tree_sys fs dir)" by (auto simp: links_ok_def tree_sys_def split: option.splits node.splits)
  moreover have "entry fs (p @ ''/'') = None" for p by (simp add: entry_def)
  ultimately show ?thesis
    using assms entry_rtext by (simp add: posix_def tree_sys_def del: rtext_simps)
qed

lemma tree_sys_serves:
  assumes "tree_ok fs" "canonical dir" "fs dir = Some Directory" "length (ctext dir) + 2 < MAXPATHLEN - 1"
  shows "serves_paths (tree_sys fs dir) fs dir"
  using assms tree_sys_posix [OF assms(1)] by (simp add: serves_paths_def) (simp add: tree_sys_def buffer_ok_def)

text \<open>The directory \<open>/srv/app\<close> with a file, and a link \<open>/srv/www\<close> to it.\<close>

definition sample_tree :: tree where
  "sample_tree l = (if l \<in> {[], [''srv''], [''srv'', ''app'']} then Some Directory
     else if l = [''srv'', ''app'', ''x''] then Some Regular
     else if l = [''srv'', ''www''] then Some (Symlink ''app'') else None)"

definition sample_globals :: virtual_cwd_globals where
  "sample_globals = \<lparr>cwdg_cwd = \<lparr>cwd = ''/srv''\<rparr>, realpath_cache_size = 0, realpath_cache_size_limit = 0,
     realpath_cache_ttl = 120, realpath_cache = (\<lambda>_. [])\<rparr>"

lemma sample_tree_ok: "tree_ok sample_tree"
proof -
  have "sample_tree d = Some Directory \<and> proper_name c" if "sample_tree (d @ [c]) \<noteq> None" for d c
    using that by (auto simp: sample_tree_def append_eq_Cons_conv proper_name_def name_ok_def NUL_def split: if_splits)
  moreover have "length t < MAXPATHLEN \<and> NUL \<notin> set t" if "sample_tree l = Some (Symlink t)" for l t
    using that by (auto simp: sample_tree_def MAXPATHLEN_def NUL_def split: if_splits)
  moreover have "sample_tree [] = Some Directory" by (simp add: sample_tree_def)
  ultimately show ?thesis unfolding tree_ok_def by blast
qed

lemma sample_cache_off: "cache_off sample_globals"
  by (simp add: cache_off_def sample_globals_def)

lemma sample_canonical:
  "canonical [''srv'']" "canonical [''srv'', ''app'']" "canonical [''srv'', ''app'', ''x'']" "canonical [''srv'', ''www'']"
  by (simp_all add: canonical_def proper_name_def name_ok_def NUL_def ctext_def MAXPATHLEN_def)

lemma sample_serves: "serves_paths (tree_sys sample_tree [''srv'']) sample_tree [''srv'']"
  by (rule tree_sys_serves [OF sample_tree_ok sample_canonical(1)]) (simp_all add: sample_tree_def ctext_def MAXPATHLEN_def)

text \<open>
  A name directly below the root directory that does not exist: expansion keeps it, and the loop of the
  test cuts it to the empty string, whose real path is the working directory.
\<close>

lemma missing_below_root:
  assumes "serves_paths (S w) fs dir" "cache_off g" "fs [c] = None" "proper_name c" "length c + 2 < MAXPATHLEN"
  shows "engine_expand (S w) g (CHR ''/'' # c) = Some (CHR ''/'' # c)"
    and "resolve_name (with_engine S g E) w (CHR ''/'' # c) = Some (ctext dir, [], 1)"
proof -
  let ?t = "if realpath_cache_ttl g \<noteq> 0 then 0 else -1 :: int"
  have posix: "posix (S w) fs" and dir: "canonical dir" "located fs dir"
    using assms(1) by (simp_all add: serves_paths_def located_def)
  have c: "CHR ''/'' \<notin> set c" "c \<noteq> []" "c \<noteq> ''.''" "c \<noteq> ''..''" "NUL \<notin> set c"
    using assms(4) by (auto simp: proper_name_def name_ok_def)
  have slash: "last c \<noteq> CHR ''/''" using c(1,2) last_in_set by metis
  have p: "is_cstr (CHR ''/'' # c)" "IS_ABSOLUTE_PATH (CHR ''/'' # c)" "fits dir (CHR ''/'' # c)" "last (CHR ''/'' # c) \<noteq> CHR ''/''"
    using c assms(5) slash by (auto simp: is_cstr_def NUL_def IS_ABSOLUTE_PATH_Cons fits_def)
  have n: "path_names (CHR ''/'' # c) = [c]" using split_sep_no_sep [OF c(1)] by (simp only: path_names_def list.sel)
  have r: "rtext [c] = CHR ''/'' # c" by simp
  have k: "kstat fs [] c = None" using assms(3) by (simp add: kstat_def)
  have st: "status (S w) m (CHR ''/'' # c) = None" if "m \<noteq> CWD_EXPAND" for m
    using posix_status [OF posix _ assms(4) that, of "[]"] k by simp
  have con: "consult (S w) m q ?t g = (?t, None, g)" for m q using no_cache(1) [OF cache_off_ok(2) [OF assms(2)]] by simp
  have "found (S w) CWD_FILEPATH g (CHR ''/'' # c) = Some [c]"
    using st [of CWD_FILEPATH] c assms(5) con
    by (simp add: found_def n resolve.simps(2) Let_def join_component_def remember_def ctext_def) auto
  then show "engine_expand (S w) g (CHR ''/'' # c) = Some (CHR ''/'' # c)"
    using engine_expand_eq [OF assms(1,2) p(1)] p(3,4) by (simp add: full_text_absolute [OF p(2)] ctext_def)
  have "found (S w) CWD_REALPATH g (CHR ''/'' # c) = None"
    using st [of CWD_REALPATH] c con by (simp add: found_def n resolve.simps(2) Let_def)
  then have real: "engine_realpath (S w) g (CHR ''/'' # c) = None"
    using engine_realpath_eq [OF assms(1,2) p(1)] by (simp add: full_text_absolute [OF p(2)])
  have "sys_readlink (S w) (rtext [c]) = None" using posix assms(4) k by (simp add: posix_def del: rtext_simps)
  then have link: "sys_readlink (S w) (CHR ''/'' # c) = None" unfolding r .
  have "strrchr c (CHR ''/'') = None" using strrchr_Some [of c] c(1) by (cases "strrchr c (CHR ''/'')") (auto, metis nth_mem)
  moreover have "engine_realpath (S w) g [] = Some (ctext dir)"
    using engine_realpath_empty [OF assms(1,2)] engine_realpath_located(1) [OF assms(1,2) dir] by simp
  ultimately show "resolve_name (with_engine S g E) w (CHR ''/'' # c) = Some (ctext dir, [], 1)"
    by (simp add: resolve_name_def real link resolve_parents.simps [of _ "[]"])
qed

text \<open>
  The empty path in the test: for a name directly below the root directory under which there is nothing, the
  test gives the answer for the working directory, so a script may name files there that no directory of the
  list allows. The permissions of the root directory are what is left to refuse the creation of such a file.
\<close>

theorem open_basedir_root_gap:
  assumes "serves_paths (S (world s)) fs dir" "cache_off g"
    and "open_basedir s = Some dirs" "dirs \<noteq> []"
    and "fs [c] = None" "proper_name c" "length c + 2 < MAXPATHLEN"
  shows "php_check_open_basedir_ex (with_engine S g E) (CHR ''/'' # c) False s =
    php_check_open_basedir_ex (with_engine S g E) ''.'' False s"
proof -
  let ?E = "with_engine S g E" and ?w = "world s"
  have ok: "resolver_ok ?E ?w" using assms(1,2) by (rule engine_resolver_ok)
  have dir: "canonical dir" "located fs dir" using assms(1) by (simp_all add: serves_paths_def located_def)
  note c = missing_below_root [of S ?w, OF assms(1,2,5-7)]
  have dot: "engine_expand (S ?w) g ''.'' = Some (ctext dir)"
    and cwd: "resolve_name ?E ?w (ctext dir) = Some (ctext dir, ctext dir, length (ctext dir))"
    using engine_expand_cwd [OF assms(1,2)] engine_realpath_located(1) [OF assms(1,2) dir]
    by (simp_all add: resolve_name_def)
  have "dirs_allow ?E ?w dirs (CHR ''/'' # c) = dirs_allow ?E ?w dirs ''.''"
    by (simp add: dirs_allow_def basedir_allows_def c dot cwd)
  moreover have "length (CHR ''/'' # c) < MAXPATHLEN" "length ''.'' < MAXPATHLEN" using assms(7) by (simp_all add: MAXPATHLEN_def)
  ultimately show ?thesis using check_ex_eq [OF ok _ assms(3,4)] by simp
qed

section \<open>Properties\<close>

text \<open>
  (C12) The path functions of the engine keep the contract \<open>resolver_ok\<close> on which the properties of \<open>open_basedir\<close>
  rest: on every file system, with symbolic links and the cache off, \<open>expand_filepath\<close> and \<open>realpath\<close> yield
  bounded names without a trailing slash, and every directory above a real path is its own real path.
\<close>

theorem virtual_cwd_resolver:
  assumes "serves_paths (S w) fs dir" "cache_off g"
  shows "resolver_ok (with_engine S g E) w"
  using assms by (rule engine_resolver_ok)


text \<open>
  (C15) \<open>realpath\<close> names the file the kernel opens: with the cache off, what \<open>tsrm_realpath\<close> returns for a
  non-empty path is the location of an existing file that is not a symbolic link, and it is the location
  that the kernel's own walk along the path, link by link, arrives at.
\<close>

theorem realpath_finds_file:
  assumes "serves_paths S fs dir" "cache_off g" "is_cstr path" "path \<noteq> []"
    and "tsrm_realpath S path g = Some (Some r, g')"
  shows "\<exists>loc n k. r = ctext loc \<and> canonical loc \<and> located fs loc
    \<and> kwalk fs [] (path_names (full_text (ctext dir) path)) n = Some (loc, k)"
  using engine_realpath_reaches [OF assms(1-4), of r] assms(3,5) by (auto simp: engine_realpath_def reaches_def)

text \<open>
  (C13) \<open>open_basedir\<close> confines to locations: with the engine's own path resolution and the cache off, if the
  test accepts a path under which the kernel finds a file, and the kernel finds every directory of the list,
  then the location of the file is below the location of one of these directories, whatever
  symbolic links the path and the list go through.
\<close>

theorem open_basedir_confines_files:
  assumes "serves_paths (S (world s)) fs dir" "cache_off g"
    and "open_basedir s = Some dirs" "dirs \<noteq> []" "length path < MAXPATHLEN"
    and "\<forall>d \<in> set (split_sep (CHR '':'') dirs). \<exists>dl. file_at fs dir d dl"
    and "file_at fs dir path loc"
    and "php_check_open_basedir_ex (with_engine S g E) path False s = (Ret 0, s')"
  shows "\<exists>d \<in> set (split_sep (CHR '':'') dirs). \<exists>dl. file_at fs dir d dl \<and> prefix dl loc"
proof -
  let ?E = "with_engine S g E" and ?w = "world s"
  have ok: "resolver_ok ?E ?w" using assms(1,2) by (rule engine_resolver_ok)
  have "dirs_allow ?E ?w dirs path" using check_ex_eq [OF ok assms(5,3,4)] assms(8) by (auto split: if_splits)
  then obtain d q rn t l rb where d: "d \<in> set (split_sep (CHR '':'') dirs)"
    and q: "engine_expand (S ?w) g path = Some q" "resolve_name ?E ?w q = Some (rn, t, l)"
    and rb: "x_expand_filepath ?E ?w (basedir_dir ?E ?w d) = Some rb" "in_tree (base_of d rb) rn"
    by (auto simp: dirs_allow_def basedir_allows_def)
  have loc: "canonical loc" "located fs loc" "q = ctext loc \<or> q = ctext loc @ ''/''"
    using engine_expand_file [OF assms(1,2,7) q(1)] by auto
  have rn: "rn = ctext loc" by (rule resolve_name_file [OF assms(1,2) loc q(2)])
  obtain dl where dl: "file_at fs dir d dl" using assms(6) d by blast
  have dlc: "canonical dl" and r: "rb = ctext dl \<or> rb = ctext dl @ ''/''"
    using engine_expand_file [OF assms(1,2) dl, of rb] expand_basedir_dir [OF ok rb(1)] by auto
  have "dl = [] \<or> base_of d rb = ctext dl"
    using base_of_ctext [OF ok rb(1) dlc r] by blast
  then have "prefix dl loc" using in_tree_names [OF dlc loc(1)] rb(2) rn by auto
  with d dl show ?thesis by blast
qed

lemma sample_engine:
  "engine_expand (tree_sys sample_tree [''srv'']) sample_globals ''/srv/app/x'' = Some ''/srv/app/x''"
  "engine_expand (tree_sys sample_tree [''srv'']) sample_globals ''/srv/app'' = Some ''/srv/app''"
  "engine_realpath (tree_sys sample_tree [''srv'']) sample_globals ''/srv/app/x'' = Some ''/srv/app/x''"
proof -
  note s = sample_serves sample_cache_off
  have l: "located sample_tree [''srv'', ''app'', ''x'']" "located sample_tree [''srv'', ''app'']" by (simp_all add: located_def sample_tree_def)
  have e: "engine_expand (tree_sys sample_tree [''srv'']) sample_globals (ctext cs) = Some (ctext cs)"
    if "canonical cs" "located sample_tree cs" "cs \<noteq> []" for cs
    using engine_expand_eq [OF s ctext_cstr [OF that(1)]] found_located(1) [OF s that(1,2), of CWD_FILEPATH]
      fits_canonical [OF that(1)] plain_ctext(2) [OF that(1,3)] by (simp add: full_text_absolute)
  show "engine_expand (tree_sys sample_tree [''srv'']) sample_globals ''/srv/app/x'' = Some ''/srv/app/x''"
    using e [OF sample_canonical(3) l(1)] by (simp add: ctext_def)
  show "engine_expand (tree_sys sample_tree [''srv'']) sample_globals ''/srv/app'' = Some ''/srv/app''"
    using e [OF sample_canonical(2) l(2)] by (simp add: ctext_def)
  show "engine_realpath (tree_sys sample_tree [''srv'']) sample_globals ''/srv/app/x'' = Some ''/srv/app/x''"
    using engine_realpath_located(1) [OF s sample_canonical(3) l(1)] by (simp add: ctext_def)
qed

text \<open>The link is followed.\<close>

lemma sample_link: "engine_expand (tree_sys sample_tree [''srv'']) sample_globals ''/srv/www'' = Some ''/srv/app''"
proof -
  let ?S = "tree_sys sample_tree [''srv'']"
  note s = sample_serves sample_cache_off
  have posix: "posix ?S sample_tree" using sample_serves by (simp add: serves_paths_def)
  have l: "located sample_tree [''srv'', ''app'']" by (simp add: located_def sample_tree_def)
  have ok: "list_all name_ok [''srv'']" "proper_name ''www''" by (simp_all add: proper_name_def name_ok_def NUL_def)
  have "kwalk sample_tree [] [''srv''] MAXSYMLINKS = Some ([''srv''], MAXSYMLINKS)"
    using kwalk_dirs [OF sample_tree_ok, of "[]" "[''srv'']"] by (simp add: sample_tree_def)
  then have k: "kstat sample_tree [''srv''] ''www'' = Some (Symlink ''app'')" by (simp add: kstat_def sample_tree_def)
  have st: "status ?S CWD_FILEPATH ''/srv/www'' = Some S_ISLNK" using posix_status [OF posix ok, of CWD_FILEPATH] k by simp
  have "sys_readlink ?S ''/srv/www'' = Some ''app''"
    using entry_rtext [OF ok, of sample_tree] k by (simp add: tree_sys_def)
  moreover have "split_sep (CHR ''/'') ''app'' = [''app'']" by (rule split_sep_no_sep) simp
  ultimately have rc: "link_components ?S 0 [''srv''] ''/srv/www'' = Some [''app'', ''srv'']"
    by (simp add: link_components_def LINK_MAX_def IS_ABSOLUTE_PATH_Cons MAXPATHLEN_def)
  have con: "consult ?S m q t sample_globals = (t, None, sample_globals)" for m q t
    using no_cache(1) [OF cache_off_ok(2) [OF sample_cache_off]] by simp
  obtain e where "resolve ?S CWD_FILEPATH [''app'', ''srv''] 1 0 False sample_globals = (sample_globals, Some ([''srv'', ''app''], e))"
    using resolve_located [OF posix cache_off_ok(2) [OF sample_cache_off] sample_canonical(2) l, of False CWD_FILEPATH 1 0] by auto
  then have "resolve ?S CWD_FILEPATH [''www'', ''srv''] 0 0 False sample_globals = (sample_globals, Some ([''srv'', ''app''], e))"
    using st rc con by (simp add: resolve.simps(2) Let_def no_cache(2) [OF cache_off_ok(2) [OF sample_cache_off]])
  moreover have "path_names ''/srv/www'' = [''srv'', ''www'']" using path_names_ctext(1) [OF sample_canonical(4)] by (simp add: ctext_def)
  ultimately have "found ?S CWD_FILEPATH sample_globals ''/srv/www'' = Some [''srv'', ''app'']"
    by (simp add: found_def) (simp add: sample_globals_def)
  then show ?thesis using engine_expand_eq [OF s, of "''/srv/www''"]
    by (simp add: full_text_absolute IS_ABSOLUTE_PATH_Cons fits_def is_cstr_def NUL_def MAXPATHLEN_def ctext_def)
qed

lemma sample_file_at:
  "file_at sample_tree [''srv''] ''/srv/www'' [''srv'', ''app'']"
  "file_at sample_tree [''srv''] ''/srv/app/x'' [''srv'', ''app'', ''x'']"
proof -
  have n: "path_names ''/srv/www'' = [''srv'', ''www'']" "path_names ''/srv/app/x'' = [''srv'', ''app'', ''x'']"
    using path_names_ctext(1) [OF sample_canonical(4)] path_names_ctext(1) [OF sample_canonical(3)] by (simp_all add: ctext_def)
  have t: "target_names ''app'' = [''app'']" "link_base ''app'' d = d" for d
    using split_sep_no_sep [of "CHR ''/''" "''app''"] by (simp_all add: target_names_def link_base_def IS_ABSOLUTE_PATH_Cons)
  have f: "full_text (ctext [''srv'']) ''/srv/www'' = ''/srv/www''" "full_text (ctext [''srv'']) ''/srv/app/x'' = ''/srv/app/x''"
    by (simp_all add: full_text_absolute IS_ABSOLUTE_PATH_Cons)
  have "(case MAXSYMLINKS of 0 \<Rightarrow> None | Suc x \<Rightarrow> h x) = h 39" for h :: "nat \<Rightarrow> (string list \<times> nat) option"
    by (simp add: MAXSYMLINKS_def)
  then show "file_at sample_tree [''srv''] ''/srv/www'' [''srv'', ''app'']"
    "file_at sample_tree [''srv''] ''/srv/app/x'' [''srv'', ''app'', ''x'']"
    by (simp_all add: file_at_def f n kwalk.simps(2) sample_tree_def t)
qed

lemma sample_dir: "split_sep (CHR '':'') ''/srv/www'' = [''/srv/www'']"
  by (rule split_sep_no_sep) simp

theorem virtual_cwd_resolver_witness:
  "resolver_ok (with_engine (\<lambda>_. tree_sys sample_tree [''srv'']) sample_globals sample_ext) (world sample_state)"
  by (rule virtual_cwd_resolver [of "\<lambda>_. tree_sys sample_tree [''srv'']", OF sample_serves sample_cache_off])

theorem realpath_finds_file_witness:
  "\<exists>loc n k. ''/srv/app/x'' = ctext loc \<and> canonical loc \<and> located sample_tree loc
    \<and> kwalk sample_tree [] (path_names (full_text (ctext [''srv'']) ''/srv/app/x'')) n = Some (loc, k)"
proof -
  have c: "is_cstr ''/srv/app/x''" by (simp add: is_cstr_def NUL_def)
  then obtain g' where "tsrm_realpath (tree_sys sample_tree [''srv'']) ''/srv/app/x'' sample_globals = Some (Some ''/srv/app/x'', g')"
    using sample_engine(3) by (auto simp: engine_realpath_def split: option.splits)
  from realpath_finds_file [OF sample_serves sample_cache_off c _ this] show ?thesis by simp
qed

theorem open_basedir_confines_files_witness:
  "\<exists>d \<in> set (split_sep (CHR '':'') ''/srv/www''). \<exists>dl. file_at sample_tree [''srv''] d dl \<and> prefix dl [''srv'', ''app'', ''x'']"
proof -
  let ?S = "\<lambda>_ :: sample_world. tree_sys sample_tree [''srv'']"
  let ?E = "with_engine ?S sample_globals sample_ext" and ?s = "sample_state\<lparr>open_basedir := Some ''/srv/www''\<rparr>"
  have ok: "resolver_ok ?E (world ?s)" by (rule engine_resolver_ok [of ?S, OF sample_serves sample_cache_off])
  have "dirs_allow ?E (world ?s) ''/srv/www'' ''/srv/app/x''"
    by (simp add: dirs_allow_def basedir_allows_def sample_dir sample_engine sample_link resolve_name_def
        basedir_dir_def MAXPATHLEN_def base_of_def in_tree_def)
  then have "php_check_open_basedir_ex ?E ''/srv/app/x'' False ?s = (Ret 0, ?s)"
    using check_ex_eq [OF ok, of "''/srv/app/x''" "''/srv/www''"] by (simp add: MAXPATHLEN_def)
  moreover have "\<forall>d \<in> set (split_sep (CHR '':'') ''/srv/www''). \<exists>dl. file_at sample_tree [''srv''] d dl"
    using sample_file_at(1) by (auto simp: sample_dir)
  ultimately show ?thesis
    using open_basedir_confines_files [of ?S ?s sample_tree "[''srv'']" sample_globals "''/srv/www''" "''/srv/app/x''"
        "[''srv'', ''app'', ''x'']" sample_ext ?s] sample_serves sample_cache_off sample_file_at(2)
    by (simp add: MAXPATHLEN_def)
qed

end
