(* ===== verification/Fopen_Wrappers.thy ===== *)
theory Fopen_Wrappers
  imports Path_Resolver
begin

text \<open>
  Opening files along a search path (the rest of main/fopen\_wrappers.c): the search for an included file, opening
  with a list of directories, the choice of the primary script, and hiding the password of a URL. The
  locating of stream wrappers, \<open>fopen\<close>, the password database and the opening of scripts are parameters.
\<close>

section \<open>Parameters\<close>

text \<open>
  What \<open>php_stream_locate_url_wrapper\<close> yields: nothing, the plain files wrapper with the \<open>actual_path\<close>, or another
  wrapper with its optional \<open>url_stat\<close>, which says whether it succeeds.
\<close>

datatype 'w wrapper = No_wrapper | Plain_files_wrapper string | Url_wrapper "(string \<Rightarrow> 'w \<Rightarrow> bool) option"

record 'w script_env =
  i_locate :: "string \<Rightarrow> 'w \<Rightarrow> 'w wrapper"
  i_fopen :: "string \<Rightarrow> string \<Rightarrow> 'w \<Rightarrow> nat option \<times> 'w"
  i_expand :: "string \<Rightarrow> 'w \<Rightarrow> string option"
  i_getpwnam :: "string \<Rightarrow> 'w \<Rightarrow> string option option"
  i_stream_open :: "string \<Rightarrow> bool \<Rightarrow> 'w \<Rightarrow> nat option \<times> 'w"
  i_executed_filename :: "'w \<Rightarrow> string option" \<comment> \<open>while a script is executed\<close>

section \<open>Searching for an included file\<close>

text \<open>\<open>isalnum ((int) *p) || *p == '+' || *p == '-' || *p == '.'\<close> in the C locale.\<close>

definition scheme_char :: "char \<Rightarrow> bool" where
  "scheme_char c \<longleftrightarrow> (let n = of_char c :: nat in
     48 \<le> n \<and> n \<le> 57 \<or> 65 \<le> n \<and> n \<le> 90 \<or> 97 \<le> n \<and> n \<le> 122) \<or> c \<in> {CHR ''+'', CHR ''-'', CHR ''.''}"

definition scheme_length :: "string \<Rightarrow> nat" where
  "scheme_length s = length (takeWhile scheme_char s)"

definition has_scheme :: "string \<Rightarrow> bool" where
  "has_scheme s \<longleftrightarrow> 1 < scheme_length s \<and> prefix ''://'' (drop (scheme_length s) s)"

text \<open>The test of one name: the real path, or the name itself if another wrapper finds it.\<close>

definition try_path :: "'w externals \<Rightarrow> 'w script_env \<Rightarrow> 'w \<Rightarrow> bool \<Rightarrow> string \<Rightarrow> string option" where
  "try_path E I w is_stream_wrapper trypath =
     (if is_stream_wrapper then
        (case i_locate I trypath w of
           No_wrapper \<Rightarrow> None
         | Url_wrapper url_stat \<Rightarrow>
             (case url_stat of None \<Rightarrow> None | Some st \<Rightarrow> if st trypath w then Some trypath else None)
         | Plain_files_wrapper actual_path \<Rightarrow> x_realpath E w actual_path)
      else x_realpath E w trypath)"

text \<open>Whether an entry of the path is a URL, and the offset of its end; \<open>.:\<close> and \<open>..:\<close> before two slashes do not make a URL.\<close>

definition entry_is_stream :: "string \<Rightarrow> bool" where
  "entry_is_stream ptr \<longleftrightarrow> has_scheme ptr \<and> \<not> (scheme_length ptr = 2 \<and> ptr ! 1 = CHR ''.'' \<and> ptr ! 0 = CHR ''.'')"

definition entry_end :: "string \<Rightarrow> nat option" where
  "entry_end ptr =
     (let p = scheme_length ptr + (if entry_is_stream ptr then 3 else 0)
      in map_option (\<lambda>i. p + i) (strchr (drop p ptr) (CHR '':'')))"

function include_loop :: "'w externals \<Rightarrow> 'w script_env \<Rightarrow> 'w \<Rightarrow> string \<Rightarrow> string \<Rightarrow> string option" where
  "include_loop E I w filename ptr =
     (if ptr = [] then None
      else
        (let e = entry_end ptr; dir = (case e of None \<Rightarrow> ptr | Some n \<Rightarrow> take n ptr);
             r = (if MAXPATHLEN \<le> length dir + 1 + length filename + 1 then None
                  else try_path E I w (entry_is_stream ptr) (dir @ CHR ''/'' # filename))
         in case r of
              Some resolved \<Rightarrow> Some resolved
            | None \<Rightarrow> (case e of None \<Rightarrow> None | Some n \<Rightarrow> include_loop E I w filename (drop (Suc n) ptr))))"
  by pat_completeness auto
termination
  by (relation "measure (\<lambda>(E, I, w, filename, ptr). length ptr)") auto

declare include_loop.simps [simp del]

text \<open>The directory of the running script as a last resort.\<close>

definition include_fallback :: "'w externals \<Rightarrow> 'w script_env \<Rightarrow> 'w \<Rightarrow> string \<Rightarrow> string option" where
  "include_fallback E I w filename =
     (case i_executed_filename I w of
        None \<Rightarrow> None
      | Some exec_fname \<Rightarrow>
          (case strrchr exec_fname (CHR ''/'') of
             None \<Rightarrow> None
           | Some n \<Rightarrow>
               if cstr_at exec_fname 0 \<noteq> CHR ''['' \<and> 0 < n \<and> n + 1 + length filename + 1 < MAXPATHLEN then
                 (let trypath = take (n + 1) exec_fname @ filename in try_path E I w (has_scheme trypath) trypath)
               else None))"

definition php_resolve_path :: "'w externals \<Rightarrow> 'w script_env \<Rightarrow> 'w \<Rightarrow> string option \<Rightarrow> string option \<Rightarrow> string option" where
  "php_resolve_path E I w filename path =
     (case filename of
        None \<Rightarrow> None
      | Some f \<Rightarrow>
          if \<not> is_cstr f then None
          else if has_scheme f then
            (case i_locate I f w of Plain_files_wrapper actual_path \<Rightarrow> x_realpath E w actual_path | _ \<Rightarrow> None)
          else if prefix ''./'' f \<or> prefix ''../'' f \<or> IS_ABSOLUTE_PATH f \<or> path = None \<or> path = Some [] then
            x_realpath E w f
          else
            (case include_loop E I w f (the path) of
               Some r \<Rightarrow> Some r
             | None \<Rightarrow> include_fallback E I w f))"

section \<open>Opening with a list of directories\<close>

text \<open>The result is the file and what is written to \<open>opened_path\<close>, if \<open>want\<close> says that it is given.\<close>

definition php_fopen_and_set_opened_path ::
  "'w externals \<Rightarrow> 'w script_env \<Rightarrow> string \<Rightarrow> string \<Rightarrow> bool \<Rightarrow> ('w, nat option \<times> string option) php" where
  "php_fopen_and_set_opened_path E I path mode want =
     cbind (php_check_open_basedir E path) (\<lambda>r.
       if r \<noteq> 0 then cret (None, None)
       else
         cbind (xcall (i_fopen I path mode)) (\<lambda>fp.
           if fp \<noteq> None \<and> want then cbind (xread (i_expand I path)) (\<lambda>opened. cret (fp, opened))
           else cret (fp, None)))"

function fopen_loop ::
  "'w externals \<Rightarrow> 'w script_env \<Rightarrow> string \<Rightarrow> string \<Rightarrow> bool \<Rightarrow> string \<Rightarrow> ('w, nat option \<times> string option) php" where
  "fopen_loop E I filename mode want ptr =
     (if ptr = [] then cret (None, None)
      else
        (let e = strchr ptr (CHR '':''); dir = (case e of None \<Rightarrow> ptr | Some i \<Rightarrow> take i ptr);
             full = dir @ CHR ''/'' # filename
         in cseq (if MAXPATHLEN \<le> length full
                  then php_error_docref E_NOTICE (vsprintf ''%s/%s path was truncated to %d'' [FStr dir, FStr filename, FInt (int MAXPATHLEN)])
                  else cret ())
              (cbind (php_fopen_and_set_opened_path E I (take (MAXPATHLEN - 1) full) mode want) (\<lambda>(fp, opened).
                 if fp \<noteq> None then cret (fp, opened)
                 else (case e of None \<Rightarrow> cret (None, None) | Some i \<Rightarrow> fopen_loop E I filename mode want (drop (Suc i) ptr))))))"
  by pat_completeness auto
termination
  by (relation "measure (\<lambda>(E, I, filename, mode, want, ptr). length ptr)") auto

declare fopen_loop.simps [simp del]

text \<open>The path with the directory of the running script appended.\<close>

definition fopen_pathbuf :: "string option \<Rightarrow> string \<Rightarrow> string" where
  "fopen_pathbuf executed path =
     (case executed of
        None \<Rightarrow> path
      | Some exec_fname \<Rightarrow>
          (case strrchr exec_fname (CHR ''/'') of
             None \<Rightarrow> path
           | Some n \<Rightarrow> if cstr_at exec_fname 0 = CHR ''['' \<or> n = 0 then path else path @ CHR '':'' # take n exec_fname))"

definition php_fopen_with_path ::
  "'w externals \<Rightarrow> 'w script_env \<Rightarrow> string option \<Rightarrow> string \<Rightarrow> string option \<Rightarrow> bool \<Rightarrow> ('w, nat option \<times> string option) php" where
  "php_fopen_with_path E I filename mode path want =
     (case filename of
        None \<Rightarrow> cret (None, None)
      | Some f \<Rightarrow>
          if cstr_at f 0 = CHR ''.'' \<or> IS_ABSOLUTE_PATH f \<or> path = None \<or> path = Some [] then
            php_fopen_and_set_opened_path E I f mode want
          else
            cbind (xread (i_executed_filename I)) (\<lambda>executed.
              fopen_loop E I f mode want (fopen_pathbuf executed (the path))))"

section \<open>The primary script\<close>

record request_info =
  request_uri :: "string option"
  path_translated :: "string option"

record core_settings =
  user_dir :: "string option"
  doc_root :: "string option"
  include_path :: "string option"
  display_errors :: bool

definition below_doc_root :: "string option \<Rightarrow> string \<Rightarrow> string option \<Rightarrow> string option" where
  "below_doc_root root path_info translated =
     (case root of
        None \<Rightarrow> translated
      | Some d \<Rightarrow>
          if d \<noteq> [] \<and> IS_ABSOLUTE_PATH d then
            (let b = (if IS_SLASH (last d) then d else d @ ''/'')
             in Some ((if IS_SLASH (cstr_at path_info 0) then butlast b else b) @ path_info))
          else translated)"

text \<open>\<open>filename\<close>, possibly a null pointer; a home directory is \<open>pw_dir\<close> of an entry that exists.\<close>

definition primary_filename :: "'w script_env \<Rightarrow> 'w \<Rightarrow> core_settings \<Rightarrow> request_info \<Rightarrow> string option" where
  "primary_filename I w pg sg =
     (case (user_dir pg, request_uri sg) of
        (Some u, Some path_info) \<Rightarrow>
          if u \<noteq> [] \<and> prefix ''/~'' path_info then
            (case strchr (drop 2 path_info) (CHR ''/'') of
               None \<Rightarrow> None
             | Some n \<Rightarrow>
                 (case i_getpwnam I (take (min n 31) (drop 2 path_info)) w of
                    Some (Some pw_dir) \<Rightarrow> Some (pw_dir @ ''/'' @ u @ ''/'' @ drop (n + 3) path_info)
                  | _ \<Rightarrow> path_translated sg))
          else below_doc_root (doc_root pg) path_info (path_translated sg)
      | (None, Some path_info) \<Rightarrow> below_doc_root (doc_root pg) path_info (path_translated sg)
      | (_, None) \<Rightarrow> path_translated sg)"

definition php_resolve_path_for_zend :: "'w externals \<Rightarrow> 'w script_env \<Rightarrow> 'w \<Rightarrow> core_settings \<Rightarrow> string \<Rightarrow> string option" where
  "php_resolve_path_for_zend E I w pg filename = php_resolve_path E I w (Some filename) (include_path pg)"

text \<open>The result with the file handle; the settings, the request and the world afterwards.\<close>

definition php_fopen_primary_script ::
  "'w externals \<Rightarrow> 'w script_env \<Rightarrow> core_settings \<Rightarrow> request_info \<Rightarrow> 'w \<Rightarrow>
     (zresult \<times> nat option) \<times> core_settings \<times> request_info \<times> 'w" where
  "php_fopen_primary_script E I pg sg w =
     (case primary_filename I w pg sg of
        None \<Rightarrow> ((FAILURE, None), pg, sg\<lparr>path_translated := None\<rparr>, w)
      | Some filename \<Rightarrow>
          if php_resolve_path_for_zend E I w pg filename = None
          then ((FAILURE, None), pg, sg\<lparr>path_translated := None\<rparr>, w)
          else
            (let orig_display_errors = display_errors pg;
                 pg = pg\<lparr>display_errors := False\<rparr>;
                 (file_handle, w) = i_stream_open I filename (display_errors pg) w;
                 pg = pg\<lparr>display_errors := orig_display_errors\<rparr>
             in if file_handle = None then ((FAILURE, None), pg, sg\<lparr>path_translated := None\<rparr>, w)
                else ((SUCCESS, file_handle), pg, sg\<lparr>path_translated := Some filename\<rparr>, w)))"

section \<open>Hiding the password of a URL\<close>

text \<open>The string is changed in place; \<open>None\<close> is an access behind its end.\<close>

fun strip_dots :: "nat \<Rightarrow> char list \<Rightarrow> nat \<Rightarrow> nat \<Rightarrow> char list \<times> nat" where
  "strip_dots 0 b url_start p = (b, url_start)"
| "strip_dots (Suc i) b url_start p =
     (if url_start < p then strip_dots i (b[url_start := CHR ''.'']) (url_start + 1) p else (b, url_start))"

function strip_copy :: "char list \<Rightarrow> nat \<Rightarrow> nat \<Rightarrow> char list option" where
  "strip_copy b url_start p =
     (if length b \<le> p then None
      else if b ! p = NUL then Some (b[url_start := NUL])
      else strip_copy (b[url_start := b ! p]) (url_start + 1) (p + 1))"
  by pat_completeness auto
termination
  by (relation "measure (\<lambda>(b, u, p). length b - p)") auto

function strip_at :: "char list \<Rightarrow> nat \<Rightarrow> nat \<Rightarrow> char list option" where
  "strip_at b url_start p =
     (if length b \<le> p then None
      else if b ! p = NUL then Some b
      else if b ! p = CHR ''@'' then (case strip_dots 3 b url_start p of (b, u) \<Rightarrow> strip_copy b u p)
      else strip_at b url_start (p + 1))"
  by pat_completeness auto
termination
  by (relation "measure (\<lambda>(b, u, p). length b - p)") auto

function strip_from :: "char list \<Rightarrow> nat \<Rightarrow> char list option" where
  "strip_from b p =
     (if length b \<le> p then None
      else if b ! p = NUL then Some b
      else if prefix ''://'' (drop p b) then strip_at b (p + 3) (p + 3)
      else strip_from b (p + 1))"
  by pat_completeness auto
termination
  by (relation "measure (\<lambda>(b, p). length b - p)") auto

declare strip_copy.simps [simp del] strip_at.simps [simp del] strip_from.simps [simp del]

definition php_strip_url_passwd :: "string option \<Rightarrow> string option" where
  "php_strip_url_passwd url =
     (case url of None \<Rightarrow> Some [] | Some u \<Rightarrow> map_option (takeWhile (\<lambda>c. c \<noteq> NUL)) (strip_from (u @ [NUL]) 0))"

section \<open>The password is hidden\<close>

lemma strip_copy_eq:
  assumes "NUL \<notin> set src"
  shows "\<exists>rest. strip_copy (pre @ mid @ src @ NUL # t) (length pre) (length pre + length mid) = Some (pre @ src @ NUL # rest)"
  using assms
proof (induction src arbitrary: pre mid t)
  case Nil
  have "(pre @ mid @ NUL # t) ! (length pre + length mid) = NUL" by (simp add: nth_append)
  then show ?case by (cases mid) (auto simp: strip_copy.simps list_update_append)
next
  case (Cons c src)
  have n: "(pre @ mid @ (c # src) @ NUL # t) ! (length pre + length mid) = c" by (simp add: nth_append)
  obtain mid' where "(pre @ mid @ (c # src) @ NUL # t)[length pre := c] = (pre @ [c]) @ mid' @ src @ NUL # t" "length mid' = length mid"
    by (cases mid) (auto simp: list_update_append intro: that [of "[]"] that [of "tl mid @ [c]"])
  with Cons n show ?case
    using Cons.IH [of "pre @ [c]" mid' t] by (auto simp: strip_copy.simps [of _ "length pre"])
qed

lemma strip_dots_eq:
  "length mid = k \<Longrightarrow> strip_dots n (pre @ mid @ r) (length pre) (length pre + k) =
     (pre @ replicate (min n k) (CHR ''.'') @ drop (min n k) mid @ r, length pre + min n k)"
proof (induction n arbitrary: pre mid k)
  case (Suc n)
  show ?case
  proof (cases mid)
    case (Cons m ms)
    then have "(pre @ mid @ r)[length pre := CHR ''.''] = (pre @ ''.'') @ ms @ r" by (simp add: list_update_append)
    with Suc.IH [of ms "length ms" "pre @ ''.''"] Suc.prems Cons show ?thesis by auto
  qed (use Suc in auto)
qed simp

lemma strip_at_search:
  assumes "NUL \<notin> set a" "CHR ''@'' \<notin> set a"
  shows "strip_at (pre @ a @ NUL # r) u (length pre) = Some (pre @ a @ NUL # r)"
    and "strip_at (pre @ a @ CHR ''@'' # r) u (length pre) =
      (case strip_dots 3 (pre @ a @ CHR ''@'' # r) u (length pre + length a) of (b, v) \<Rightarrow> strip_copy b v (length pre + length a))"
  using assms
proof (induction a arbitrary: pre)
  case Nil
  case 1 show ?case by (simp add: strip_at.simps [of _ u "length pre"])
next
  case Nil
  case 2 show ?case by (simp add: strip_at.simps [of _ u "length pre"] NUL_def)
next
  case (Cons c a)
  case 1
  then show ?case using Cons.IH(1) [of "pre @ [c]"] by (auto simp: strip_at.simps [of _ u "length pre"])
next
  case (Cons c a)
  case 2
  then show ?case using Cons.IH(2) [of "pre @ [c]"] by (auto simp: strip_at.simps [of _ u "length pre"])
qed

lemma strip_at_eq:
  assumes "NUL \<notin> set u"
  shows "\<exists>rest. strip_at (pre @ u @ [NUL]) (length pre) (length pre) =
    Some (pre @ (case strchr u (CHR ''@'') of None \<Rightarrow> u | Some k \<Rightarrow> replicate (min 3 k) (CHR ''.'') @ drop k u) @ NUL # rest)"
proof (cases "CHR ''@'' \<in> set u")
  case False
  with strip_at_search(1) [OF assms False, of pre "[]"] show ?thesis by (simp add: strchr_None [THEN iffD2])
next
  case True
  then obtain a r where u: "u = a @ CHR ''@'' # r" "CHR ''@'' \<notin> set a" by (meson split_list_first)
  let ?m = "min 3 (length a)"
  have a: "NUL \<notin> set a" and r: "NUL \<notin> set (CHR ''@'' # r)" using assms u(1) by (auto simp: NUL_def)
  have d: "length (drop ?m a) = length a - ?m" by simp
  obtain rest where "strip_copy ((pre @ replicate ?m (CHR ''.'')) @ drop ?m a @ (CHR ''@'' # r) @ NUL # [])
      (length (pre @ replicate ?m (CHR ''.''))) (length (pre @ replicate ?m (CHR ''.'')) + length (drop ?m a))
      = Some ((pre @ replicate ?m (CHR ''.'')) @ (CHR ''@'' # r) @ NUL # rest)"
    using strip_copy_eq [OF r] by blast
  then show ?thesis
    using strip_at_search(2) [OF a u(2), of pre "r @ [NUL]" "length pre"] strip_dots_eq [of a "length a" 3 pre "CHR ''@'' # r @ [NUL]"]
    by (simp add: u strchr_append [OF u(2)])
qed

lemma strip_from_eq:
  assumes "NUL \<notin> set u"
  shows "strip_from (pre @ u @ [NUL]) (length pre) =
    (case strstr u ''://'' of None \<Rightarrow> Some (pre @ u @ [NUL])
     | Some i \<Rightarrow> strip_at (pre @ u @ [NUL]) (length pre + i + 3) (length pre + i + 3))"
  using assms
proof (induction u arbitrary: pre)
  case (Cons c u)
  have p: "prefix ''://'' ((c # u) @ [NUL]) \<longleftrightarrow> prefix ''://'' (c # u)"
    unfolding prefix_snoc by (auto simp: NUL_def append_eq_Cons_conv)
  show ?case
    using Cons.prems Cons.IH [of "pre @ [c]"] p
    by (auto simp: strip_from.simps [of _ "length pre"] split: option.splits)
qed (simp add: strip_from.simps)

text \<open>
  The password of a URL is not shown: \<open>php_strip_url_passwd\<close> returns for every string, within its bounds, and what
  stands between \<open>://\<close> and the first \<open>@\<close> behind it becomes at most three dots; other strings are kept.
\<close>

theorem strip_url_passwd_eq:
  assumes "is_cstr u"
  shows "php_strip_url_passwd (Some u) = Some
    (case strstr u ''://'' of None \<Rightarrow> u
     | Some i \<Rightarrow> take (i + 3) u @ (case strchr (drop (i + 3) u) (CHR ''@'') of None \<Rightarrow> drop (i + 3) u
         | Some k \<Rightarrow> replicate (min 3 k) (CHR ''.'') @ drop (i + 3 + k) u))"
proof -
  have u: "NUL \<notin> set u" using assms by (simp add: is_cstr_def)
  have t: "takeWhile (\<lambda>c. c \<noteq> NUL) (a @ NUL # r) = a" if "NUL \<notin> set a" for a r
    using that by (induction a) auto
  show ?thesis
  proof (cases "strstr u ''://''")
    case None
    with strip_from_eq [OF u, of "[]"] t [OF u, of "[]"] show ?thesis by (simp add: php_strip_url_passwd_def)
  next
    case (Some i)
    have i: "i + 3 \<le> length u" using strstr_Some [OF Some] prefix_length_le by fastforce
    define v where "v = drop (i + 3) u"
    have d: "NUL \<notin> set v" using u set_drop_subset [of "i + 3" u] by (auto simp: v_def)
    let ?v = "case strchr v (CHR ''@'') of None \<Rightarrow> v | Some k \<Rightarrow> replicate (min 3 k) (CHR ''.'') @ drop k v"
    obtain rest where r: "strip_at (take (i + 3) u @ v @ [NUL]) (length (take (i + 3) u)) (length (take (i + 3) u))
        = Some (take (i + 3) u @ ?v @ NUL # rest)"
      using strip_at_eq [OF d] by blast
    have "NUL \<notin> set (take (i + 3) u @ ?v)"
      using u d by (auto simp: NUL_def split: option.splits dest: in_set_takeD in_set_dropD)
    from t [OF this, of rest] r i Some strip_from_eq [OF u, of "[]"]
    show ?thesis
      by (simp add: php_strip_url_passwd_def v_def [symmetric] append_assoc [symmetric] del: append_assoc)
        (simp add: v_def add.commute split: option.splits)
  qed
qed

section \<open>The search path\<close>

text \<open>The entries that are tried: an empty last entry is not, an empty entry before it stands for the root directory.\<close>

definition include_entries :: "string \<Rightarrow> string list" where
  "include_entries path = (let ds = split_sep (CHR '':'') path in if last ds = [] then butlast ds else ds)"

definition script_dir :: "string option \<Rightarrow> string list" where
  "script_dir executed = (case executed of None \<Rightarrow> []
     | Some e \<Rightarrow> (case strrchr e (CHR ''/'') of None \<Rightarrow> [] | Some n \<Rightarrow> if 0 < n then [take n e] else []))"

fun first_some :: "('a \<Rightarrow> 'b option) \<Rightarrow> 'a list \<Rightarrow> 'b option" where
  "first_some f [] = None"
| "first_some f (x # xs) = (case f x of None \<Rightarrow> first_some f xs | Some y \<Rightarrow> Some y)"

lemma first_some_append: "first_some f (xs @ ys) = (case first_some f xs of None \<Rightarrow> first_some f ys | Some y \<Rightarrow> Some y)"
  by (induction xs) (auto split: option.splits)

lemma first_some_Some: "first_some f xs = Some y \<Longrightarrow> \<exists>x \<in> set xs. f x = Some y"
  by (induction xs) (auto split: option.splits)

lemma split_sep_neq_Nil: "split_sep x s \<noteq> []"
  by (subst split_sep.simps) (auto split: option.splits)

lemma include_entries_Nil: "include_entries [] = []"
  using split_sep_no_sep [of "CHR '':''" "[]"] by (simp add: include_entries_def)

lemma include_entries_single: "CHR '':'' \<notin> set ptr \<Longrightarrow> ptr \<noteq> [] \<Longrightarrow> include_entries ptr = [ptr]"
  using split_sep_no_sep [of "CHR '':''" ptr] by (simp add: include_entries_def)

lemma include_entries_append: "CHR '':'' \<notin> set a \<Longrightarrow> include_entries (a @ CHR '':'' # b) = a # include_entries b"
  using split_sep_append [of "CHR '':''" a b] split_sep_neq_Nil [of "CHR '':''" b] by (simp add: include_entries_def Let_def)

lemmas include_entries_eq = include_entries_Nil include_entries_single include_entries_append

lemma strchr_skip: "x \<notin> set a \<Longrightarrow> strchr (a @ b) x = map_option (\<lambda>i. length a + i) (strchr b x)"
  by (cases "strchr b x"; induction a) auto

lemma no_url_entry:
  assumes "strstr ptr ''://'' = None"
  shows "\<not> has_scheme ptr" "\<not> entry_is_stream ptr" "entry_end ptr = strchr ptr (CHR '':'')"
proof -
  show h: "\<not> has_scheme ptr"
  proof
    assume "has_scheme ptr"
    then obtain z where "drop (scheme_length ptr) ptr = ''://'' @ z" by (auto simp: has_scheme_def prefix_def)
    then have "ptr = take (scheme_length ptr) ptr @ ''://'' @ z" using append_take_drop_id [of "scheme_length ptr" ptr] by simp
    with assms show False unfolding strstr_None by blast
  qed
  then show s: "\<not> entry_is_stream ptr" by (simp add: entry_is_stream_def)
  have t: "takeWhile scheme_char ptr @ drop (scheme_length ptr) ptr = ptr"
    unfolding scheme_length_def by (metis append_take_drop_id takeWhile_eq_take)
  have "CHR '':'' \<notin> set (takeWhile scheme_char ptr)" by (auto dest!: set_takeWhileD simp: scheme_char_def)
  from strchr_skip [OF this, of "drop (scheme_length ptr) ptr"] t show "entry_end ptr = strchr ptr (CHR '':'')"
    using s by (simp add: entry_end_def scheme_length_def Let_def)
qed

lemma include_loop_eq:
  assumes "strstr ptr ''://'' = None"
  shows "include_loop E I w f ptr = first_some (x_realpath E w)
    (map (\<lambda>d. d @ CHR ''/'' # f) (filter (\<lambda>d. length d + length f + 2 < MAXPATHLEN) (include_entries ptr)))"
  using assms
proof (induction ptr rule: length_induct)
  case (1 ptr)
  note e = no_url_entry [OF 1(2)]
  show ?case
  proof (cases "ptr = []")
    case True
    then show ?thesis by (simp add: include_loop.simps include_entries_eq)
  next
    case False
    show ?thesis
    proof (cases rule: split_sep_cases [of "CHR '':''" ptr])
      case 1
      with False show ?thesis
        by (auto simp: include_loop.simps [of E I w f ptr] e strchr_None [THEN iffD2] include_entries_eq try_path_def split: option.splits)
    next
      case (2 a b)
      then have "strstr b ''://'' = None" using 1(2) unfolding strstr_None by (metis append.assoc append_Cons)
      with 1(1) 2 have ih: "include_loop E I w f b = first_some (x_realpath E w)
          (map (\<lambda>d. d @ CHR ''/'' # f) (filter (\<lambda>d. length d + length f + 2 < MAXPATHLEN) (include_entries b)))" by simp
      have r: "include_loop E I w f ptr = (case (if MAXPATHLEN \<le> length a + 1 + length f + 1 then None
            else x_realpath E w (a @ CHR ''/'' # f)) of Some r \<Rightarrow> Some r | None \<Rightarrow> include_loop E I w f b)"
        using False e by (subst include_loop.simps) (auto simp: 2(1) strchr_append [OF 2(2)] try_path_def split: option.split)
      show ?thesis unfolding r ih using 2 by (auto simp: include_entries_eq split: option.splits)
    qed
  qed
qed

lemma take_strrchr: "strrchr e x = Some n \<Longrightarrow> take (Suc n) e = take n e @ [x]"
  using strrchr_Some [of e x n] take_Suc_conv_app_nth [of n e] by simp

lemma absolute_no_scheme: "IS_ABSOLUTE_PATH p \<Longrightarrow> \<not> has_scheme p"
  by (auto simp: IS_ABSOLUTE_PATH_Cons has_scheme_def scheme_length_def scheme_char_def)

lemma include_fallback_eq:
  assumes "\<And>e. i_executed_filename I w = Some e \<Longrightarrow> IS_ABSOLUTE_PATH e"
  shows "include_fallback E I w f = first_some (x_realpath E w)
    (map (\<lambda>d. d @ CHR ''/'' # f) (filter (\<lambda>d. length d + length f + 2 < MAXPATHLEN) (script_dir (i_executed_filename I w))))"
proof (cases "i_executed_filename I w")
  case (Some e)
  then have a: "IS_ABSOLUTE_PATH e" using assms by blast
  then have e: "cstr_at e 0 \<noteq> CHR ''[''" by (auto simp: IS_ABSOLUTE_PATH_Cons cstr_at_def)
  show ?thesis
  proof (cases "strrchr e (CHR ''/'')")
    case None
    with Some show ?thesis by (simp add: include_fallback_def script_dir_def)
  next
    case (Some n)
    have t: "take (Suc n) e @ f = take n e @ CHR ''/'' # f" using take_strrchr [OF Some] by simp
    have "0 < n \<Longrightarrow> IS_ABSOLUTE_PATH (take n e @ CHR ''/'' # f)" using a by (cases n) (auto simp: IS_ABSOLUTE_PATH_Cons)
    then have "0 < n \<Longrightarrow> \<not> has_scheme (take n e @ CHR ''/'' # f)" using absolute_no_scheme by blast
    with Some \<open>i_executed_filename I w = Some e\<close> e strrchr_Some [OF Some] show ?thesis
      by (auto simp: include_fallback_def script_dir_def t try_path_def Let_def split: option.splits)
  qed
qed (simp add: include_fallback_def script_dir_def)

lemma include_search_eq:
  assumes "is_cstr f" "\<not> has_scheme f" "\<not> prefix ''./'' f" "\<not> prefix ''../'' f" "\<not> IS_ABSOLUTE_PATH f"
    and "path \<noteq> []" "strstr path ''://'' = None"
    and "\<forall>e. i_executed_filename I w = Some e \<longrightarrow> IS_ABSOLUTE_PATH e"
  shows "php_resolve_path E I w (Some f) (Some path) = first_some (x_realpath E w)
    (map (\<lambda>d. d @ CHR ''/'' # f) (filter (\<lambda>d. length d + length f + 2 < MAXPATHLEN)
      (include_entries path @ script_dir (i_executed_filename I w))))"
proof -
  have "include_fallback E I w f = first_some (x_realpath E w)
      (map (\<lambda>d. d @ CHR ''/'' # f) (filter (\<lambda>d. length d + length f + 2 < MAXPATHLEN) (script_dir (i_executed_filename I w))))"
    by (rule include_fallback_eq) (use assms(8) in blast)
  then show ?thesis using assms(1-6) by (simp add: php_resolve_path_def include_loop_eq [OF assms(7)] first_some_append split: option.split)
qed

text \<open>With the path resolution of the engine, an included file exists, and its name is its location.\<close>

lemma included_file_located:
  assumes "serves_paths (S w) fs dir" "cache_off g"
    and "is_cstr f" "\<not> has_scheme f" "\<not> prefix ''./'' f" "\<not> prefix ''../'' f" "\<not> IS_ABSOLUTE_PATH f"
    and "path \<noteq> []" "strstr path ''://'' = None"
    and "\<forall>e. i_executed_filename I w = Some e \<longrightarrow> IS_ABSOLUTE_PATH e"
    and "php_resolve_path (with_engine S g E) I w (Some f) (Some path) = Some r"
  shows "\<exists>loc. r = ctext loc \<and> canonical loc \<and> located fs loc"
proof -
  obtain d where d: "engine_realpath (S w) g (d @ CHR ''/'' # f) = Some r"
    using assms(11) include_search_eq [OF assms(3-10)] by (auto dest!: first_some_Some)
  then have "is_cstr (d @ CHR ''/'' # f)" by (simp add: engine_realpath_def split: if_splits)
  from engine_realpath_reaches [OF assms(1,2) this _ d] show ?thesis by auto
qed

text \<open>
  The primary script of a server with an absolute document root is the request path below it; it exists, and
  the setting \<open>display_errors\<close> is restored on every way out.
\<close>

lemma primary_script_below_doc_root:
  assumes "user_dir pg = None" "doc_root pg = Some d" "IS_ABSOLUTE_PATH d" "request_uri sg = Some u" "prefix ''/'' u"
    and "php_fopen_primary_script E I pg sg w = ((r, h), pg', sg', w')"
  shows "pg' = pg" and "r = FAILURE \<Longrightarrow> path_translated sg' = None"
    and "r = SUCCESS \<Longrightarrow> h \<noteq> None
      \<and> path_translated sg' = Some ((if last d = CHR ''/'' then butlast d else d) @ u)
      \<and> php_resolve_path E I w (path_translated sg') (include_path pg) \<noteq> None"
proof -
  have u: "IS_SLASH (cstr_at u 0)" using assms(5) by (auto simp: IS_SLASH_def cstr_at_def prefix_def)
  have d: "d \<noteq> []" using assms(3) by (auto simp: IS_ABSOLUTE_PATH_Cons)
  then have f: "primary_filename I w pg sg = Some ((if last d = CHR ''/'' then butlast d else d) @ u)"
    using assms(1-4) u by (simp add: primary_filename_def below_doc_root_def IS_SLASH_def [of "last d"])
  show "pg' = pg" "r = FAILURE \<Longrightarrow> path_translated sg' = None"
    "r = SUCCESS \<Longrightarrow> h \<noteq> None
      \<and> path_translated sg' = Some ((if last d = CHR ''/'' then butlast d else d) @ u)
      \<and> php_resolve_path E I w (path_translated sg') (include_path pg) \<noteq> None"
    using assms(6) unfolding php_fopen_primary_script_def f
    by (auto simp: php_resolve_path_for_zend_def Let_def split: if_splits prod.splits)
qed

section \<open>Opening under open_basedir\<close>

definition fopen_candidates :: "string option \<Rightarrow> string option \<Rightarrow> string option \<Rightarrow> string list" where
  "fopen_candidates executed filename path = (case filename of None \<Rightarrow> []
     | Some f \<Rightarrow>
         if cstr_at f 0 = CHR ''.'' \<or> IS_ABSOLUTE_PATH f \<or> path = None \<or> path = Some [] then [f]
         else map (\<lambda>d. take (MAXPATHLEN - 1) (d @ CHR ''/'' # f)) (include_entries (fopen_pathbuf executed (the path))))"

definition permitted :: "'w externals \<Rightarrow> string \<Rightarrow> 'w \<Rightarrow> string \<Rightarrow> bool" where
  "permitted E dirs w p \<longleftrightarrow> length p < MAXPATHLEN \<and> dirs_allow E w dirs p"

text \<open>What the search for a file among \<open>ps\<close> guarantees.\<close>

definition opens_permitted ::
  "'w externals \<Rightarrow> 'w script_env \<Rightarrow> string \<Rightarrow> string \<Rightarrow> string list \<Rightarrow> 'w php_state \<Rightarrow> (nat option \<times> string option) outcome \<times> 'w php_state \<Rightarrow> bool" where
  "opens_permitted E I mode dirs ps s R \<longleftrightarrow> (\<exists>fp opened s'. R = (Ret (fp, opened), s') \<and> open_basedir s' = Some dirs
     \<and> (fp \<noteq> None \<longrightarrow> (\<exists>p \<in> set ps. \<exists>w. permitted E dirs w p \<and> i_fopen I p mode w = (fp, world s')))
     \<and> ((\<forall>p \<in> set ps. \<not> permitted E dirs (world s) p) \<longrightarrow> fp = None \<and> world s' = world s))"

lemma check_basedir_cases:
  assumes "resolver_ok E (world s)" "open_basedir s = Some dirs" "dirs \<noteq> []"
  obtains "permitted E dirs (world s) p" "php_check_open_basedir E p s = (Ret 0, s)"
  | msgs where "\<not> permitted E dirs (world s) p" "php_check_open_basedir E p s = (Ret (-1), s\<lparr>errors := errors s @ msgs\<rparr>)"
proof (cases "permitted E dirs (world s) p")
  case True
  then show ?thesis using that(1) basedir_loop_eq [OF assms(1), of p dirs] assms(2,3)
    by (auto simp: php_check_open_basedir_def php_check_open_basedir_ex_def permitted_def)
next
  case False
  have "\<exists>msgs. php_check_open_basedir E p s = (Ret (-1), s\<lparr>errors := errors s @ msgs\<rparr>)"
  proof (cases "length p < MAXPATHLEN")
    case True
    with False basedir_loop_eq [OF assms(1) True, of dirs] assms(2,3) show ?thesis
      by (auto simp: php_check_open_basedir_def php_check_open_basedir_ex_def permitted_def)
  next
    case False
    with assms(2,3) show ?thesis
      by (auto simp: php_check_open_basedir_def php_check_open_basedir_ex_def MAXPATHLEN_def)
  qed
  with False that(2) show ?thesis by blast
qed

lemma fopen_and_set_permitted:
  assumes "resolver_ok E (world s)" "open_basedir s = Some dirs" "dirs \<noteq> []"
  shows "opens_permitted E I mode dirs [p] s (php_fopen_and_set_opened_path E I p mode want s)"
proof (cases rule: check_basedir_cases [OF assms, of p])
  case 1
  obtain fp w' where f: "i_fopen I p mode (world s) = (fp, w')" by fastforce
  with 1 show ?thesis using assms(2)
    by (auto simp: opens_permitted_def php_fopen_and_set_opened_path_def cbind_def xcall_def xread_def)
next
  case (2 msgs)
  then show ?thesis using assms(2) by (auto simp: opens_permitted_def php_fopen_and_set_opened_path_def cbind_def)
qed

lemma opens_permitted_step:
  assumes "opens_permitted E I mode dirs [p] s (m s)"
    and "\<And>u. open_basedir u = Some dirs \<Longrightarrow> opens_permitted E I mode dirs ps u (k u)"
  shows "opens_permitted E I mode dirs (p # ps) s (cbind m (\<lambda>(fp, opened). if fp \<noteq> None then cret (fp, opened) else k) s)"
proof -
  obtain fp opened u where u: "m s = (Ret (fp, opened), u)" "open_basedir u = Some dirs"
    "fp \<noteq> None \<longrightarrow> (\<exists>w. permitted E dirs w p \<and> i_fopen I p mode w = (fp, world u))"
    "\<not> permitted E dirs (world s) p \<longrightarrow> fp = None \<and> world u = world s"
    using assms(1) by (auto simp: opens_permitted_def)
  show ?thesis
  proof (cases "fp = None")
    case False
    with u show ?thesis by (auto simp: opens_permitted_def cbind_def)
  next
    case True
    have "cbind m (\<lambda>(fp, opened). if fp \<noteq> None then cret (fp, opened) else k) s = k u" using u(1) True by (simp add: cbind_def)
    with assms(2) [OF u(2)] u(4) show ?thesis by (auto simp: opens_permitted_def)
  qed
qed

lemma fopen_loop_permitted:
  fixes E :: "'w externals"
  assumes "\<forall>w. resolver_ok E w" "dirs \<noteq> []" "open_basedir s = Some dirs"
  shows "opens_permitted E I mode dirs (map (\<lambda>d. take (MAXPATHLEN - 1) (d @ CHR ''/'' # f)) (include_entries ptr)) s
    (fopen_loop E I f mode want ptr s)"
  using assms(3)
proof (induction ptr arbitrary: s rule: length_induct)
  case (1 ptr)
  let ?p = "\<lambda>d. take (MAXPATHLEN - 1) (d @ CHR ''/'' # f)"
  define warn :: "string \<Rightarrow> ('w, unit) php" where "warn d = (if MAXPATHLEN \<le> length (d @ CHR ''/'' # f)
      then php_error_docref E_NOTICE (vsprintf ''%s/%s path was truncated to %d'' [FStr d, FStr f, FInt (int MAXPATHLEN)])
      else cret ())" for d
  define step where "step d k = cseq (warn d) (cbind (php_fopen_and_set_opened_path E I (?p d) mode want) (\<lambda>(fp, opened).
      if fp \<noteq> None then cret (fp, opened) else k))" for d k
  have step: "opens_permitted E I mode dirs (?p d # ps) s (step d k s)"
    if "\<And>u. open_basedir u = Some dirs \<Longrightarrow> opens_permitted E I mode dirs ps u (k u)" for d ps k
  proof -
    have "\<exists>u. warn d s = (Ret (), u) \<and> world u = world s \<and> open_basedir u = Some dirs"
      using 1(2) by (auto simp: warn_def php_error_docref_def)
    then obtain u where u: "warn d s = (Ret (), u)" "world u = world s" "open_basedir u = Some dirs" by blast
    have "opens_permitted E I mode dirs (?p d # ps) u (cbind (php_fopen_and_set_opened_path E I (?p d) mode want) (\<lambda>(fp, opened).
        if fp \<noteq> None then cret (fp, opened) else k) u)"
      using assms(1,2) u(3) that by (intro opens_permitted_step fopen_and_set_permitted) auto
    moreover have "step d k s = cbind (php_fopen_and_set_opened_path E I (?p d) mode want) (\<lambda>(fp, opened).
        if fp \<noteq> None then cret (fp, opened) else k) u"
      unfolding step_def cseq_def using u(1) by (simp add: cbind_def [of "warn d"])
    ultimately show ?thesis using u(2) by (simp add: opens_permitted_def)
  qed
  show ?case
  proof (cases "ptr = []")
    case True
    then show ?thesis using 1(2) by (simp add: opens_permitted_def fopen_loop.simps include_entries_eq)
  next
    case False
    show ?thesis
    proof (cases rule: split_sep_cases [of "CHR '':''" ptr])
      case 1
      then have "fopen_loop E I f mode want ptr = step ptr (cret (None, None))"
        using False by (simp add: fopen_loop.simps [of E I f mode want ptr] strchr_None [THEN iffD2] step_def warn_def del: vsprintf.simps take_append cong: if_cong)
      moreover have "opens_permitted E I mode dirs (?p ptr # []) s (step ptr (cret (None, None)) s)"
        by (rule step) (simp add: opens_permitted_def)
      ultimately show ?thesis using 1 False by (simp add: include_entries_eq)
    next
      case (2 a b)
      have take_length: "take (length a) (a @ CHR '':'' # b) = a" by simp
      from 2 have "fopen_loop E I f mode want ptr = step a (fopen_loop E I f mode want b)"
        using False take_length by (simp add: fopen_loop.simps [of E I f mode want "a @ _"] strchr_append step_def warn_def del: vsprintf.simps take_append cong: if_cong)
      moreover have "opens_permitted E I mode dirs (?p a # map ?p (include_entries b)) s (step a (fopen_loop E I f mode want b) s)"
        by (rule step) (use 1(1) 2(1) in simp)
      ultimately show ?thesis using 2 by (simp add: include_entries_eq)
    qed
  qed
qed

section \<open>A concrete environment\<close>

definition sample_env :: "sample_world script_env" where
  "sample_env = \<lparr>i_locate = (\<lambda>p w. No_wrapper), i_fopen = (\<lambda>p mode w. (if p = ''/srv/app/x'' then Some 5 else None, w)),
     i_expand = (\<lambda>p w. Some p), i_getpwnam = (\<lambda>u w. None), i_stream_open = (\<lambda>p d w. (Some 6, w)),
     i_executed_filename = (\<lambda>w. Some ''/srv/app/index.php'')\<rparr>"

lemma sample_entries: "include_entries ''/tmp'' = [''/tmp'']" "include_entries ''/tmp:/srv'' = [''/tmp'', ''/srv'']"
  using include_entries_single [of "''/tmp''"] include_entries_append [of "''/tmp''" "''/srv''"] include_entries_single [of "''/srv''"]
  by simp_all

lemma sample_entries_script: "include_entries ''/tmp:/srv/app'' = [''/tmp'', ''/srv/app'']"
  using include_entries_append [of "''/tmp''" "''/srv/app''"] include_entries_single [of "''/srv/app''"] by simp

section \<open>Properties\<close>

text \<open>
  (C17) The search for an included file: for a file name without directory or scheme and an include path of
  directories, \<open>php_resolve_path\<close> yields the real path of the first existing file among the directories of the
  path in their order, then the directory of the running script; combinations that do not fit a
  path are skipped, an empty last directory is ignored.
\<close>

theorem include_path_first:
  assumes "is_cstr f" "\<not> has_scheme f" "\<not> prefix ''./'' f" "\<not> prefix ''../'' f" "\<not> IS_ABSOLUTE_PATH f"
    and "path \<noteq> []" "strstr path ''://'' = None"
    and "\<forall>e. i_executed_filename I w = Some e \<longrightarrow> IS_ABSOLUTE_PATH e"
  shows "php_resolve_path E I w (Some f) (Some path) = first_some (x_realpath E w)
    (map (\<lambda>d. d @ CHR ''/'' # f) (filter (\<lambda>d. length d + length f + 2 < MAXPATHLEN)
      (include_entries path @ script_dir (i_executed_filename I w))))"
  by (rule include_search_eq [OF assms])

theorem include_path_first_witness:
  "php_resolve_path sample_ext sample_env (world sample_state) (Some ''x'') (Some ''/tmp:/srv'') = Some ''/srv/app/x''"
proof -
  have "\<not> has_scheme ''x''" by (simp add: has_scheme_def scheme_length_def)
  then show ?thesis
    using include_path_first [of "''x''" "''/tmp:/srv''" sample_env "world sample_state" sample_ext]
    by (simp add: is_cstr_def NUL_def IS_ABSOLUTE_PATH_Cons sample_env_def sample_entries script_dir_def sample_paths MAXPATHLEN_def)
qed

text \<open>
  (C18) Opening along a list of directories under \<open>open_basedir\<close>: \<open>php_fopen_with_path\<close> always returns; a file it returns
  was opened under one of the candidate names, and this name is within the allowed directories; when none of
  the candidates is allowed, there is no file and \<open>fopen\<close> was not called.
\<close>

theorem fopen_with_path_confined:
  assumes "\<forall>w. resolver_ok E w" "open_basedir s = Some dirs" "dirs \<noteq> []"
  shows "\<exists>fp opened s'. php_fopen_with_path E I filename mode path want s = (Ret (fp, opened), s') \<and> open_basedir s' = Some dirs
     \<and> (fp \<noteq> None \<longrightarrow> (\<exists>p \<in> set (fopen_candidates (i_executed_filename I (world s)) filename path). \<exists>w.
          permitted E dirs w p \<and> i_fopen I p mode w = (fp, world s')))
     \<and> ((\<forall>p \<in> set (fopen_candidates (i_executed_filename I (world s)) filename path). \<not> permitted E dirs (world s) p) \<longrightarrow>
          fp = None \<and> world s' = world s)"
proof -
  have "opens_permitted E I mode dirs (fopen_candidates (i_executed_filename I (world s)) filename path) s
      (php_fopen_with_path E I filename mode path want s)"
  proof (cases filename)
    case None
    then show ?thesis using assms(2) by (simp add: opens_permitted_def php_fopen_with_path_def)
  next
    case (Some f)
    with fopen_and_set_permitted [of E s dirs I mode f want] fopen_loop_permitted [OF assms(1,3,2)] assms
    show ?thesis by (simp add: php_fopen_with_path_def fopen_candidates_def)
  qed
  then show ?thesis unfolding opens_permitted_def .
qed

theorem fopen_with_path_confined_witness:
  "\<exists>opened s'. php_fopen_with_path sample_ext sample_env (Some ''y'') ''r'' (Some ''/tmp'') False
      (sample_state\<lparr>open_basedir := Some ''/etc''\<rparr>) = (Ret (None, opened), s') \<and> world s' = world sample_state"
proof -
  let ?s = "sample_state\<lparr>open_basedir := Some ''/etc''\<rparr>"
  have e: "split_sep (CHR '':'') ''/etc'' = [''/etc'']" by (rule split_sep_no_sep) simp
  have r: "resolve_name sample_ext w ''/tmp/y'' = None" "resolve_name sample_ext w ''/srv/app/y'' = Some (''/srv/app'', ''/srv/app'', 9)" for w
    by (simp_all add: resolve_name_def resolve_parents.simps sample_paths)
  have "fopen_candidates (i_executed_filename sample_env (world ?s)) (Some ''y'') (Some ''/tmp'') = [''/tmp/y'', ''/srv/app/y'']"
    by (simp add: fopen_candidates_def fopen_pathbuf_def sample_env_def cstr_at_def IS_ABSOLUTE_PATH_Cons sample_entries_script MAXPATHLEN_def)
  then have "\<not> permitted sample_ext ''/etc'' (world ?s) p"
    if "p \<in> set (fopen_candidates (i_executed_filename sample_env (world ?s)) (Some ''y'') (Some ''/tmp''))" for p
    using that by (auto simp: permitted_def dirs_allow_def basedir_allows_def e r sample_paths basedir_dir_def base_of_def in_tree_def MAXPATHLEN_def)
  then show ?thesis
    using fopen_with_path_confined [of sample_ext ?s "''/etc''" sample_env "Some ''y''" "''r''" "Some ''/tmp''" False]
    by (auto simp: sample_resolver_ok)
qed

end
