(* ===== verification/Spec2Isabelle.thy ===== *)
theory Spec2Isabelle
  imports Worker Mysql_Correct PHP_Md5 Zend_Hash_Sort Zend_Rsrc Fopen_Wrappers
begin

text \<open>
  \<^bold>\<open>A verification library of the PHP sandbox\<close>

  The repository is PHP 5.6.9 with three extensions of its own and two patches, which together turn a
  PHP-FPM worker into a host for many mutually distrusting applications (blogs):

  \<^item> ext/sandbox decides at the start of a request which application it belongs to (from the server name and
    an administration database), connects to the database of that application and confines the script with
    \<open>open_basedir\<close>; it offers a few functions to scripts and the database access the others use.
  \<^item> ext/daemon lets scripts ask a privileged daemon for services, over a line-based text protocol, and reports
    the running time at the end of a request.
  \<^item> ext/blog registers and manages applications; its functions serve privileged scripts only (application 0).
  \<^item> main/streams/plain\_wrapper.c is patched so that only \<open>.php\<close> files outside the upload directory are
    executed and only trusted code writes \<open>.php\<close> files; ext/mysql/php\_mysql.c is patched with the
    connection function of the sandbox.

  They rest on parts of PHP that the library models too: the \<open>open_basedir\<close> tests (main/fopen\_wrappers.c) and
  the path resolution under them (Zend/zend\_virtual\_cwd.c), the hash table and resource list of the Zend engine, and the encodings and digests of ext/standard.

  \<^bold>\<open>Conventions\<close>

  A C function becomes a definition of the same name. Code that reads or writes the globals of a request is a
  program \<open>('w, 'a) php\<close>, a function from the record \<open>php_state\<close> to an outcome and a new state, composed with
  \<open>cbind\<close> and \<open>cseq\<close>; the outcome is \<open>Ret x\<close>, \<open>Bailout\<close> (an \<open>E_ERROR\<close> leaves the request) or \<open>Undef\<close> (the C
  code has undefined behaviour: an access outside a buffer, through a null or an uninitialised pointer). A
  theorem that a program returns therefore includes that it has no undefined behaviour on the way. C
  strings are lists of characters; integers keep their width (\<open>to_int32\<close>, \<open>to_int64\<close>, words of 8, 32 and 64
  bits). What lies outside the repository (system calls, the MySQL server, the daemon, the FastCGI
  variables) are the fields of the records \<open>externals\<close> and \<open>filesystem\<close>, which act on an opaque world \<open>'w\<close>; what
  a theorem needs of them is a named hypothesis (\<open>resolver_ok\<close>, \<open>static_paths\<close>, \<open>serves\<close>, \<open>recv_ok\<close>), and
  \<open>sample_ext\<close> and \<open>sample_fs\<close> are concrete instances on which the theorems are applied.

  \<^bold>\<open>Theories\<close>

  \<^item> \<open>PHP_Prelude\<close>: outcomes and programs, C string functions, decimal conversion, the collections
    \<open>cprog_simps\<close> and \<open>cstr_simps\<close>. \<open>Request_State\<close>: \<open>php_state\<close>, \<open>externals\<close>, error reporting.
  \<^item> \<open>Dll\<close>, \<open>Zend_Hash\<close>, \<open>Ordered_Map\<close>, \<open>Zend_Hash_Correct\<close> (Zend/zend\_hash.c): the hash table with its heap of buckets,
    chains, global list and internal pointer, every pointer explicit. The locales of \<open>Ordered_Map\<close> state what a client
    may rely on; the interpretation shows that the table is an insertion-ordered map, that no step follows a bad
    pointer, and that each stored value is destroyed exactly once.
  \<^item> \<open>Zend_Hash_Ops\<close>, \<open>Zend_Hash_Sort\<close> (Zend/zend\_hash.c): the operations on whole tables (apply, copy, merge, saved positions;
    sort, reindex, compare, minimum), each equal to a function on the list of entries. The loops of copy and merge are
    interpretations of one locale, \<open>merge_step\<close>. \<open>Zend_Qsort\<close> (Zend/zend\_qsort.c): the quicksort with its
    explicit stacks sorts, ends and stays within them.
  \<^item> \<open>Zend_List\<close>, \<open>Zend_Rsrc\<close> (Zend/zend\_list.c): reference-counted resources on top of the table, their destructors by
    type, and the end of a request, after which each resource has been closed once. \<open>Zend_Value\<close>: array keys that
    are numbers, the \<open>add_assoc\<close> functions, conversion to string.
  \<^item> \<open>Open_Basedir\<close> (main/fopen\_wrappers.c): the test of a path is exact, and a script can only tighten the setting. Both
    rest on the contract \<open>resolver_ok\<close> of path resolution (bounded names, and a directory above a real path is its own
    real path); \<open>no_root\<close> excludes a list that contains the root directory, for which a relaxed setting is possible.
  \<^item> \<open>Virtual_Cwd\<close> (Zend/zend\_virtual\_cwd.c, \<open>expand_filepath\<close> of main/fopen\_wrappers.c): path resolution as the code does it,
    in a buffer of 4096 bytes that is overwritten in place, with the cache of resolved paths. \<open>Path_Resolution\<close> states
    the same on lists of names (\<open>resolve\<close>, with an induction rule over its cases); \<open>Virtual_Cwd_Correct\<close> proves the
    refinement: no access leaves the buffer, results are canonical, the accounts of the cache are right.
  \<^item> \<open>File_Tree\<close>: a file system as a tree with symbolic links and the kernel's walk along a path; what the engine resolves is
    where the kernel arrives. \<open>Path_Resolver\<close> puts the parts together: the engine's functions keep \<open>resolver_ok\<close> on every
    tree, and \<open>open_basedir\<close> confines a script to locations below those of the listed directories. These two theorems
    are for the cache switched off (\<open>cache_off\<close>): an entry can outlive a change of the file system. It also holds the one
    exception, a missing name directly below the root directory, which is treated as the working directory.
  \<^item> \<open>Fopen_Wrappers\<close> (main/fopen\_wrappers.c): the search for an included file is the first existing candidate, opening along a
    list of directories calls \<open>fopen\<close> for allowed names only, the primary script, passwords of URLs.
  \<^item> \<open>Mysql_Connect\<close>, \<open>Mysql_Correct\<close> (ext/mysql/php\_mysql.c): the connection of an application and the limit on links.
  \<^item> \<open>PHP_String\<close>, \<open>PHP_Base64\<close>, \<open>PHP_Url\<close> (ext/standard): quoting against a reference reading of SQL literals, base64 and URL
    coding with round trips, bounds and memory safety of the decoder.
  \<^item> \<open>Message_Digest\<close>, \<open>PHP_Sha1\<close>, \<open>PHP_Md5\<close> (ext/standard): the incremental digests, each an interpretation of the locale
    \<open>streaming_digest\<close>, equal to FIPS 180 and RFC 1321 for every way of cutting the message into pieces.
  \<^item> \<open>Sandbox_Ext\<close>, \<open>Sandbox_Correct\<close> (ext/sandbox): all operations; what a successful request start guarantees, the
    directory tests, the text of the queries, privileges, the buffered reader.
  \<^item> \<open>Daemon_Ext\<close>, \<open>Daemon_Correct\<close> (ext/daemon): the protocol; the locale \<open>field_codec\<close> is interpreted for the two encodings
    of a field; round trip of a request, identity of the sender, buffer bounds, termination of the exchange, the URL filter.
  \<^item> \<open>Blog_Ext\<close> (ext/blog): all operations; what registering an application stores, random strings, privileges.
  \<^item> \<open>Plain_Wrapper\<close>, \<open>Plain_Wrapper_Correct\<close> (main/streams/plain\_wrapper.c): opening and the other file operations; the locale
    \<open>guarded_operation\<close> is interpreted for each of them; the rules for \<open>.php\<close> files; recursive directory creation.
  \<^item> \<open>Worker\<close>: the request as a state machine over all of the above. \<open>script_call\<close> lists what a script can do,
    \<open>script_run\<close> its sequences; the invariant is that the request keeps its application and its reach only shrinks.

  \<^bold>\<open>Bounds and loops\<close>

  Loops are recursive functions with termination proofs, or partial functions into \<open>option\<close> where the code follows
  pointers, whose result is then shown to exist; there is no fuel. The bounds of the C code are kept:
  512 bytes for queries and directory lists (\<open>QUERY_MAXLEN\<close>), 20 for a printed number, 4096 for a path, 32 symbolic links
  (the kernel follows 40), the request and
  response buffers of the daemon protocol, 65536 rows per piece of the buffered reader. Exceeding a bound that
  the code does not check is \<open>Undef\<close>. The concrete numbers of system constants are those of Linux on 64-bit machines.

  \<^bold>\<open>Not modelled\<close>

  The compiler and virtual machine of the Zend engine (the call stack is an argument), the memory manager (allocation
  succeeds or ends the request), the stream layer beneath the wrapper and reading and writing of open streams, the
  processes and protocols of the server interfaces, the MySQL client library, the other bundled extensions, and module registration and information
  functions, which only name and print things. Of path resolution, the branches for Windows and NetWare and the
  wrappers that resolve a path and make one system call are left out. Of the hash table, replacing the current key and splicing are left
  out; the remaining string, URL and file functions of ext/standard likewise. Doubles, objects and resources are not among
  the values of the model.
\<close>

end
